(* ===== verification/Go_Prelude.thy ===== *)
theory Go_Prelude
  imports
    Main
    "HOL-Library.Word"
    "HOL-Library.List_Lexorder"
    "HOL-Library.Char_ord"
    "HOL-Library.Multiset"
begin

text \<open>
  Shared vocabulary of the development: Go's machine integers, results with errors, finite
  maps and their unordered iteration, the string functions of the standard library that the
  sources call, and the generic lemmas the component theories rest on.

  Conventions.
  \<^item> \<open>int64\<close>, \<open>uint64\<close>, \<open>int32\<close> and \<open>uint32\<close> are words of that width: \<open>+\<close>, \<open>-\<close> and \<open>*\<close> wrap
    as in Go, \<open>sint\<close> reads a signed value, \<open>uint\<close> an unsigned one.
  \<^item> A call that returns \<open>(T, error)\<close> is a value of \<open>'e + 'a\<close>: \<open>Inl\<close> the error, \<open>Inr\<close> the result.
  \<^item> A Go map is a partial function. Where the code ranges over a map, the order in which the
    runtime visits the keys is an argument of the definition, a list that \<open>enumerates\<close> the map,
    so a theorem about the code holds for every order.
  \<^item> Instants (\<open>time.Time\<close>) and durations that are never converted to a machine integer are
    \<open>int\<close>, in nanoseconds.
\<close>

named_theorems go_defs \<open>definitions of the model that automation may unfold\<close>
named_theorems go_inv \<open>preservation lemmas of the component invariants\<close>

type_synonym i64 = "64 word"
type_synonym u64 = "64 word"
type_synonym i32 = "32 word"
type_synonym u32 = "32 word"
type_synonym instant = int
type_synonym duration = int

section \<open>Signed machine integers\<close>

text \<open>An \<open>int64\<close> difference or sum is exact as long as it stays inside the signed range.\<close>

lemma sint64_range: "- (2 ^ 63) \<le> sint (a :: i64)" "sint (a :: i64) < 2 ^ 63"
  using sint_ge [of a] sint_lt [of a] by simp_all

lemma sint64_diff:
  fixes a b :: i64
  assumes "- (2 ^ 63) \<le> sint a - sint b" "sint a - sint b < 2 ^ 63"
  shows "sint (a - b) = sint a - sint b"
  using assms by (simp add: sint_word_diff signed_take_bit_int_eq_self)

lemma sint64_add:
  fixes a b :: i64
  assumes "- (2 ^ 63) \<le> sint a + sint b" "sint a + sint b < 2 ^ 63"
  shows "sint (a + b) = sint a + sint b"
  using assms by (simp add: sint_word_add signed_take_bit_int_eq_self)

text \<open>Two non-negative values never underflow when subtracted, so a sign test after the
  subtraction is a comparison.\<close>

lemma sint64_diff_nonneg:
  fixes a b :: i64
  assumes "0 \<le> sint a" "0 \<le> sint b"
  shows "sint (a - b) = sint a - sint b"
proof (rule sint64_diff)
  show "- (2 ^ 63) \<le> sint a - sint b" using assms sint64_range(2) [of b] by linarith
  show "sint a - sint b < 2 ^ 63" using assms sint64_range(2) [of a] by linarith
qed

lemma sint64_eqI: "sint (a :: i64) = sint b \<Longrightarrow> a = b"
  by (simp add: signed_word_eqI)

section \<open>Go maps and their iteration order\<close>

text \<open>\<open>ks\<close> is an order in which a \<open>range\<close> loop may visit the keys of \<open>m\<close>.\<close>

definition enumerates :: "'k list \<Rightarrow> ('k \<rightharpoonup> 'v) \<Rightarrow> bool" where
  "enumerates ks m \<longleftrightarrow> distinct ks \<and> set ks = dom m"

lemma enumerates_empty [simp]: "enumerates [] Map.empty"
  by (simp add: enumerates_def)

lemma enumerates_distinct: "enumerates ks m \<Longrightarrow> distinct ks"
  by (simp add: enumerates_def)

lemma enumerates_set: "enumerates ks m \<Longrightarrow> set ks = dom m"
  by (simp add: enumerates_def)

lemma enumerates_finite: "enumerates ks m \<Longrightarrow> finite (dom m)"
  by (metis enumerates_set List.finite_set)

lemma enumerates_exists:
  assumes "finite (dom m)"
  obtains ks where "enumerates ks m"
  using finite_distinct_list [OF assms] by (auto simp: enumerates_def)

text \<open>A read of a missing key yields the zero value of the element type.\<close>

definition get_or :: "'v \<Rightarrow> ('k \<rightharpoonup> 'v) \<Rightarrow> 'k \<Rightarrow> 'v" where
  "get_or z m k = (case m k of None \<Rightarrow> z | Some v \<Rightarrow> v)"

lemma get_or_empty [simp]: "get_or z Map.empty k = z"
  by (simp add: get_or_def)

lemma get_or_upd [simp]: "get_or z (m(k \<mapsto> v)) k' = (if k' = k then v else get_or z m k')"
  by (simp add: get_or_def)

text \<open>
  A loop body that touches only the entry of the key it visits: the fold over any order is the
  pointwise update of the visited keys.
\<close>

lemma fold_pointwise:
  assumes "distinct ks"
  shows "fold (\<lambda>k m. m(k := f k (m k))) ks m = (\<lambda>k. if k \<in> set ks then f k (m k) else m k)"
  using assms
proof (induction ks arbitrary: m)
  case Nil
  then show ?case by simp
next
  case (Cons a ks)
  then show ?case by (auto simp: fun_eq_iff)
qed

text \<open>A sum accumulated in a \<open>range\<close> loop does not depend on the order.\<close>

lemma fold_plus_eq_sum:
  fixes f :: "'k \<Rightarrow> 'a :: comm_monoid_add"
  assumes "distinct ks"
  shows "fold (\<lambda>k s. s + f k) ks z = z + sum f (set ks)"
  using assms by (induction ks arbitrary: z) (simp_all add: ac_simps)

section \<open>Lists\<close>

text \<open>The first element that satisfies a predicate, as a search loop returns it.\<close>

fun find_first :: "('a \<Rightarrow> bool) \<Rightarrow> 'a list \<Rightarrow> 'a option" where
  "find_first P [] = None"
| "find_first P (x # xs) = (if P x then Some x else find_first P xs)"

lemma find_first_None: "find_first P xs = None \<longleftrightarrow> (\<forall>x \<in> set xs. \<not> P x)"
  by (induction xs) auto

lemma find_first_SomeD: "find_first P xs = Some x \<Longrightarrow> x \<in> set xs \<and> P x"
  by (induction xs) (auto split: if_splits)

lemma find_first_exists: "\<exists>x \<in> set xs. P x \<Longrightarrow> \<exists>y. find_first P xs = Some y"
  by (metis find_first_None not_None_eq)

lemma find_first_hd: "xs \<noteq> [] \<Longrightarrow> P (hd xs) \<Longrightarrow> find_first P xs = Some (hd xs)"
  by (cases xs) auto

text \<open>
  The wrap-around scan \<open>for i := 0; i < n; i++ { x := xs[(start+i)%n]; ... }\<close> visits every
  element exactly once.
\<close>

definition ring_order :: "'a list \<Rightarrow> nat \<Rightarrow> 'a list" where
  "ring_order xs start = map (\<lambda>i. xs ! ((start + i) mod length xs)) [0..<length xs]"

lemma length_ring_order [simp]: "length (ring_order xs s) = length xs"
  by (simp add: ring_order_def)

lemma ring_order_rotate: "ring_order xs s = rotate s xs"
  by (rule nth_equalityI) (simp_all add: ring_order_def nth_rotate)

lemma set_ring_order [simp]: "set (ring_order xs s) = set xs"
  by (simp add: ring_order_rotate)

lemma ring_order_Nil [simp]: "ring_order [] s = []"
  by (simp add: ring_order_def)

section \<open>Panics and binary search\<close>

text \<open>A call either panics or returns.\<close>

datatype 'a go = Panic | Ret 'a

text \<open>\<open>sort.Search(n, f)\<close>: the loop on the interval \<open>[i, j)\<close>.\<close>

function search_loop :: "(nat \<Rightarrow> bool) \<Rightarrow> nat \<Rightarrow> nat \<Rightarrow> nat" where
  "search_loop f i j =
     (if i < j then
        (let h = (i + j) div 2 in if \<not> f h then search_loop f (h + 1) j else search_loop f i h)
      else i)"
  by pat_completeness auto
termination by (relation "measure (\<lambda>(f, i, j). j - i)") auto

declare search_loop.simps [simp del]

definition sort_Search :: "nat \<Rightarrow> (nat \<Rightarrow> bool) \<Rightarrow> nat" where
  "sort_Search n f = search_loop f 0 n"

lemma search_loop_bounds: "i \<le> j \<Longrightarrow> i \<le> search_loop f i j \<and> search_loop f i j \<le> j"
proof (induction f i j rule: search_loop.induct)
  case (1 f i j)
  show ?case
  proof (cases "i < j")
    case True
    then have h: "i \<le> (i + j) div 2" "(i + j) div 2 < j" by auto
    show ?thesis
      using 1 True h by (subst (1 2) search_loop.simps) (fastforce simp: Let_def)
  next
    case False
    then show ?thesis using 1 by (simp add: search_loop.simps)
  qed
qed

lemma search_loop_least:
  assumes "\<And>a b. a \<le> b \<Longrightarrow> b < n \<Longrightarrow> f a \<Longrightarrow> f b" "i \<le> j" "j \<le> n"
    "\<And>k. k < i \<Longrightarrow> \<not> f k" "\<And>k. j \<le> k \<Longrightarrow> k < n \<Longrightarrow> f k"
  shows "(\<forall>k < search_loop f i j. \<not> f k) \<and> (\<forall>k. search_loop f i j \<le> k \<longrightarrow> k < n \<longrightarrow> f k)"
  using assms
proof (induction f i j rule: search_loop.induct)
  case (1 f i j)
  let ?h = "(i + j) div 2"
  show ?case
  proof (cases "i < j")
    case True
    then have h: "i \<le> ?h" "?h < j" by auto
    show ?thesis
    proof (cases "f ?h")
      case fh: True
      have up: "f k" if "?h \<le> k" "k < n" for k using 1(3) [OF that fh] .
      have "search_loop f i j = search_loop f i ?h"
        using True fh by (subst search_loop.simps) (simp add: Let_def)
      moreover have "(\<forall>k < search_loop f i ?h. \<not> f k) \<and> (\<forall>k. search_loop f i ?h \<le> k \<longrightarrow> k < n \<longrightarrow> f k)"
        by (rule 1(2) [OF True refl _ 1(3)]) (use fh h 1(5) 1(6) up in auto)
      ultimately show ?thesis by simp
    next
      case fh: False
      have down: "\<not> f k" if "k < ?h + 1" for k using 1(3) [of k ?h] fh that h 1(5) by auto
      have "search_loop f i j = search_loop f (?h + 1) j"
        using True fh by (subst search_loop.simps) (simp add: Let_def)
      moreover have "(\<forall>k < search_loop f (?h + 1) j. \<not> f k) \<and>
          (\<forall>k. search_loop f (?h + 1) j \<le> k \<longrightarrow> k < n \<longrightarrow> f k)"
        by (rule 1(1) [OF True refl _ 1(3)]) (use fh h 1(5) 1(7) down in auto)
      ultimately show ?thesis by simp
    qed
  next
    case False
    with 1(4) have "search_loop f i j = i" "i = j" by (simp_all add: search_loop.simps)
    with 1(6,7) show ?thesis by simp
  qed
qed

text \<open>On a monotone predicate the search returns the least index that satisfies it, or \<open>n\<close>.\<close>

lemma sort_Search_least:
  assumes "\<And>a b. a \<le> b \<Longrightarrow> b < n \<Longrightarrow> f a \<Longrightarrow> f b"
  shows "\<forall>k < sort_Search n f. \<not> f k" "\<forall>k. sort_Search n f \<le> k \<longrightarrow> k < n \<longrightarrow> f k"
  using search_loop_least [where n = n and i = 0 and j = n and f = f, OF assms]
  by (simp_all add: sort_Search_def)

lemma sort_Search_le: "sort_Search n f \<le> n"
  using search_loop_bounds [of 0 n f] by (simp add: sort_Search_def)

section \<open>Strings\<close>

text \<open>\<open>strings.Split(s, sep)\<close> and \<open>strings.Join(parts, sep)\<close> for a one-byte separator.\<close>

fun split_on :: "char \<Rightarrow> string \<Rightarrow> string list" where
  "split_on c [] = [[]]"
| "split_on c (x # xs) =
     (if x = c then [] # split_on c xs
      else (case split_on c xs of [] \<Rightarrow> [[x]] | p # ps \<Rightarrow> (x # p) # ps))"

fun join_with :: "char \<Rightarrow> string list \<Rightarrow> string" where
  "join_with c [] = []"
| "join_with c [p] = p"
| "join_with c (p # q # ps) = p @ c # join_with c (q # ps)"

lemma split_on_not_Nil [simp]: "split_on c s \<noteq> []"
  by (induction s) (auto split: list.splits)

lemma split_on_no_sep: "c \<notin> set s \<Longrightarrow> split_on c s = [s]"
  by (induction s) auto

lemma split_on_append_sep: "c \<notin> set p \<Longrightarrow> split_on c (p @ c # s) = p # split_on c s"
  by (induction p) auto

lemma join_split: "join_with c (split_on c s) = s"
proof (induction s)
  case Nil
  then show ?case by simp
next
  case (Cons x xs)
  obtain p ps where p: "split_on c xs = p # ps"
    by (cases "split_on c xs") auto
  with Cons show ?case by (cases ps) auto
qed

lemma split_join:
  assumes "ps \<noteq> []" "\<forall>p \<in> set ps. c \<notin> set p"
  shows "split_on c (join_with c ps) = ps"
  using assms
  by (induction c ps rule: join_with.induct) (simp_all add: split_on_no_sep split_on_append_sep)

lemma split_on_no_sepD: "p \<in> set (split_on c s) \<Longrightarrow> c \<notin> set p"
  by (induction s arbitrary: p) (auto split: if_splits list.splits)

text \<open>\<open>strings.HasPrefix\<close>, \<open>strings.CutPrefix\<close> and \<open>strings.Contains\<close>.\<close>

fun has_prefix :: "string \<Rightarrow> string \<Rightarrow> bool" where
  "has_prefix s [] = True"
| "has_prefix [] (p # ps) = False"
| "has_prefix (x # xs) (p # ps) = (x = p \<and> has_prefix xs ps)"

definition cut_prefix :: "string \<Rightarrow> string \<Rightarrow> string option" where
  "cut_prefix s p = (if has_prefix s p then Some (drop (length p) s) else None)"

fun contains_sub :: "string \<Rightarrow> string \<Rightarrow> bool" where
  "contains_sub [] p = (p = [])"
| "contains_sub (x # xs) p = (has_prefix (x # xs) p \<or> contains_sub xs p)"

lemma has_prefix_iff: "has_prefix s p \<longleftrightarrow> (\<exists>t. s = p @ t)"
  by (induction s p rule: has_prefix.induct) auto

lemma has_prefix_append [simp]: "has_prefix (p @ t) p"
  by (auto simp: has_prefix_iff)

lemma cut_prefix_append [simp]: "cut_prefix (p @ t) p = Some t"
  by (simp add: cut_prefix_def)

lemma contains_sub_iff: "contains_sub s p \<longleftrightarrow> (\<exists>a b. s = a @ p @ b)"
proof (induction s)
  case Nil
  then show ?case by auto
next
  case (Cons x xs)
  show ?case
  proof
    assume "contains_sub (x # xs) p"
    then consider "has_prefix (x # xs) p" | "contains_sub xs p" by auto
    then show "\<exists>a b. x # xs = a @ p @ b"
    proof cases
      case 1
      then show ?thesis by (metis append_Nil has_prefix_iff)
    next
      case 2
      with Cons obtain a b where "xs = a @ p @ b" by blast
      then have "x # xs = (x # a) @ p @ b" by simp
      then show ?thesis by blast
    qed
  next
    assume "\<exists>a b. x # xs = a @ p @ b"
    then obtain a b where ab: "x # xs = a @ p @ b" by blast
    show "contains_sub (x # xs) p"
    proof (cases a)
      case Nil
      with ab have "has_prefix (x # xs) p" by (auto simp: has_prefix_iff)
      then show ?thesis by simp
    next
      case (Cons y ys)
      with ab have "xs = ys @ p @ b" by simp
      then have "contains_sub xs p" using Cons.IH by blast
      then show ?thesis by simp
    qed
  qed
qed

section \<open>The FNV-1a hash of \<open>hash/fnv\<close>\<close>

text \<open>\<open>fnv.New32a()\<close>, \<open>Write\<close>, \<open>Sum32\<close>: offset basis 2166136261, prime 16777619; every byte is
  xored in before the multiplication.\<close>

definition fnv32a_step :: "u32 \<Rightarrow> char \<Rightarrow> u32" where
  "fnv32a_step h c = (xor h (of_nat (of_char c))) * 16777619"

definition fnv32a :: "string \<Rightarrow> u32" where
  "fnv32a s = foldl fnv32a_step 2166136261 s"

text \<open>\<open>shards[h.Sum32() \% uint32(len(shards))]\<close>: the index is in range for every non-empty table
  that a \<open>uint32\<close> can count.\<close>

definition fnv_index :: "string \<Rightarrow> nat \<Rightarrow> nat" where
  "fnv_index key n = unat (fnv32a key mod (of_nat n :: u32))"

lemma fnv_index_less:
  assumes "0 < n" "n < 2 ^ 32"
  shows "fnv_index key n < n"
proof -
  have n: "unat (of_nat n :: u32) = n"
    using assms by (simp add: unat_of_nat take_bit_nat_eq_self)
  have "unat (fnv32a key mod (of_nat n :: u32)) = unat (fnv32a key) mod n"
    by (simp add: unat_mod n)
  with assms show ?thesis by (simp add: fnv_index_def)
qed

text \<open>
  Sharded state: an operation on \<open>key\<close> runs on the shard that the key hashes to and leaves the
  others alone.
\<close>

definition on_shard :: "string \<Rightarrow> ('s \<Rightarrow> 'r \<times> 's) \<Rightarrow> 's list \<Rightarrow> 'r \<times> 's list" where
  "on_shard key f shards =
     (let i = fnv_index key (length shards) in
      case f (shards ! i) of (r, s) \<Rightarrow> (r, shards[i := s]))"

definition shard_of :: "string \<Rightarrow> 's list \<Rightarrow> 's" where
  "shard_of key shards = shards ! fnv_index key (length shards)"

lemma on_shard_result: "fst (on_shard key f shards) = fst (f (shard_of key shards))"
  by (simp add: on_shard_def shard_of_def Let_def split: prod.splits)

lemma length_on_shard [simp]: "length (snd (on_shard key f shards)) = length shards"
  by (simp add: on_shard_def Let_def split: prod.splits)

lemma shard_of_on_shard:
  assumes "0 < length shards" "length shards < 2 ^ 32"
  shows "shard_of k (snd (on_shard key f shards)) =
    (if fnv_index k (length shards) = fnv_index key (length shards) then snd (f (shard_of key shards))
     else shard_of k shards)"
  using fnv_index_less [OF assms, of key]
  by (auto simp: on_shard_def shard_of_def Let_def nth_list_update split: prod.splits)

lemma on_shard_all:
  assumes "\<forall>s \<in> set shards. P s" "\<And>s. P s \<Longrightarrow> P (snd (f s))" "0 < length shards" "length shards < 2 ^ 32"
  shows "\<forall>s \<in> set (snd (on_shard key f shards)). P s"
  using assms(1,2) fnv_index_less [OF assms(3,4), of key]
  by (auto simp: on_shard_def Let_def split: prod.splits dest!: subsetD [OF set_update_subset_insert])
    (metis nth_mem snd_conv)

section \<open>Signed division\<close>

text \<open>Go's \<open>/\<close> and \<open>%\<close> on signed integers truncate towards zero.\<close>

definition tdiv :: "int \<Rightarrow> int \<Rightarrow> int" where
  "tdiv a b = sgn a * sgn b * (\<bar>a\<bar> div \<bar>b\<bar>)"

definition tmod :: "int \<Rightarrow> int \<Rightarrow> int" where
  "tmod a b = a - tdiv a b * b"

lemma tdiv_nonneg: "0 \<le> a \<Longrightarrow> 0 < b \<Longrightarrow> tdiv a b = a div b"
  by (cases "a = 0") (simp_all add: tdiv_def)

lemma tmod_nonneg: "0 \<le> a \<Longrightarrow> 0 < b \<Longrightarrow> tmod a b = a mod b"
  by (simp add: tmod_def tdiv_nonneg minus_div_mult_eq_mod)

lemma sint_of_int64: "- (2 ^ 63) \<le> i \<Longrightarrow> i < 2 ^ 63 \<Longrightarrow> sint (word_of_int i :: i64) = i"
  by (simp add: sint_sbintrunc' signed_take_bit_int_eq_self)

section \<open>Decimal printing and parsing\<close>

text \<open>\<open>%d\<close> of \<open>fmt\<close> and \<open>strconv.FormatInt(i, 10)\<close>; \<open>strconv.ParseInt(s, 10, 64)\<close>.\<close>

definition digit_char :: "nat \<Rightarrow> char" where
  "digit_char d = char_of (48 + d)"

definition digit_val :: "char \<Rightarrow> nat option" where
  "digit_val c = (let n = of_char c in if 48 \<le> n \<and> n < 58 then Some (n - 48) else None)"

fun dec_of_nat :: "nat \<Rightarrow> string" where
  "dec_of_nat n = (if n < 10 then [digit_char n] else dec_of_nat (n div 10) @ [digit_char (n mod 10)])"

declare dec_of_nat.simps [simp del]

definition itoa :: "int \<Rightarrow> string" where
  "itoa i = (if i < 0 then CHR ''-'' # dec_of_nat (nat (- i)) else dec_of_nat (nat i))"

fun parse_digits :: "nat \<Rightarrow> string \<Rightarrow> nat option" where
  "parse_digits acc [] = Some acc"
| "parse_digits acc (c # cs) =
     (case digit_val c of None \<Rightarrow> None | Some d \<Rightarrow> parse_digits (10 * acc + d) cs)"

definition parse_nat :: "string \<Rightarrow> nat option" where
  "parse_nat s = (if s = [] then None else parse_digits 0 s)"

definition parse_int :: "string \<Rightarrow> int option" where
  "parse_int s =
     (case s of
        [] \<Rightarrow> None
      | c # cs \<Rightarrow>
          if c = CHR ''-'' then map_option (\<lambda>n. - int n) (parse_nat cs)
          else if c = CHR ''+'' then map_option int (parse_nat cs)
          else map_option int (parse_nat (c # cs)))"

definition parse_int64 :: "string \<Rightarrow> i64 option" where
  "parse_int64 s =
     (case parse_int s of
        None \<Rightarrow> None
      | Some i \<Rightarrow> if - (2 ^ 63) \<le> i \<and> i < 2 ^ 63 then Some (word_of_int i) else None)"

lemma digit_val_char: "d < 10 \<Longrightarrow> digit_val (digit_char d) = Some d"
  by (simp add: digit_val_def digit_char_def of_char_of Let_def)

lemma dec_of_nat_not_Nil [simp]: "dec_of_nat n \<noteq> []"
  by (simp add: dec_of_nat.simps)

lemma dec_of_nat_digits: "c \<in> set (dec_of_nat n) \<Longrightarrow> digit_val c \<noteq> None"
  by (induction n rule: dec_of_nat.induct)
    (subst (asm) (2) dec_of_nat.simps, auto simp: digit_val_char split: if_splits)

lemma digit_val_signs [simp]:
  "digit_val (CHR ''-'') = None" "digit_val (CHR ''+'') = None" "digit_val (CHR '':'') = None"
  "digit_val (CHR ''.'') = None" "digit_val (CHR '' '') = None"
  by (simp_all add: digit_val_def)

lemma parse_digits_append:
  "parse_digits acc (xs @ ys) = Option.bind (parse_digits acc xs) (\<lambda>a. parse_digits a ys)"
  by (induction xs arbitrary: acc) (auto split: option.splits)

lemma parse_digits_dec: "parse_digits 0 (dec_of_nat n) = Some n"
  by (induction n rule: dec_of_nat.induct)
    (subst dec_of_nat.simps, auto simp: digit_val_char parse_digits_append)

lemma parse_nat_dec [simp]: "parse_nat (dec_of_nat n) = Some n"
  by (simp add: parse_nat_def parse_digits_dec)

lemma parse_int_itoa [simp]: "parse_int (itoa i) = Some i"
proof -
  obtain c cs where dec: "dec_of_nat (nat i) = c # cs"
    by (meson dec_of_nat_not_Nil neq_Nil_conv)
  have "digit_val c \<noteq> None"
    using dec_of_nat_digits [of c "nat i"] dec by simp
  then have "c \<noteq> CHR ''-''" "c \<noteq> CHR ''+''" by (metis digit_val_signs)+
  moreover have "parse_nat (c # cs) = Some (nat i)"
    using parse_nat_dec [of "nat i"] dec by simp
  ultimately show ?thesis
    by (simp add: itoa_def parse_int_def dec)
qed

lemma itoa_inj: "itoa i = itoa j \<longleftrightarrow> i = j"
  by (metis option.inject parse_int_itoa)

lemma parse_itoa: "- (2 ^ 63) \<le> i \<Longrightarrow> i < 2 ^ 63 \<Longrightarrow> parse_int64 (itoa i) = Some (word_of_int i)"
  by (simp add: parse_int64_def)

lemma parse_itoa_sint: "parse_int64 (itoa (sint (w :: i64))) = Some w"
  using sint64_range [of w] by (simp add: parse_itoa)

section \<open>\<open>strings.IndexByte\<close> and \<open>strings.LastIndex\<close>\<close>

fun index_of :: "char \<Rightarrow> string \<Rightarrow> nat option" where
  "index_of c [] = None"
| "index_of c (x # xs) = (if x = c then Some 0 else map_option Suc (index_of c xs))"

lemma index_of_nth: "distinct xs \<Longrightarrow> i < length xs \<Longrightarrow> index_of (xs ! i) xs = Some i"
  by (induction xs arbitrary: i) (auto simp: nth_Cons' nth_mem)

lemma index_of_SomeD: "index_of c xs = Some i \<Longrightarrow> c \<in> set xs"
  by (induction xs arbitrary: i) (auto split: if_splits)

definition last_index :: "char \<Rightarrow> string \<Rightarrow> nat option" where
  "last_index c s = map_option (\<lambda>i. length s - 1 - i) (index_of c (rev s))"

lemma index_of_None: "index_of c xs = None \<longleftrightarrow> c \<notin> set xs"
  by (induction xs) auto

lemma index_of_append: "c \<notin> set a \<Longrightarrow> index_of c (a @ c # b) = Some (length a)"
  by (induction a) auto

lemma last_index_append: "c \<notin> set b \<Longrightarrow> last_index c (a @ c # b) = Some (length a)"
  using index_of_append [of c "rev b" "rev a"] by (simp add: last_index_def)

lemma last_index_None: "last_index c s = None \<longleftrightarrow> c \<notin> set s"
  by (simp add: last_index_def index_of_None)

section \<open>Sharded state with any index\<close>

definition at_idx :: "nat \<Rightarrow> ('s \<Rightarrow> 'r \<times> 's) \<Rightarrow> 's list \<Rightarrow> 'r \<times> 's list" where
  "at_idx i f xs = (case f (xs ! i) of (r, s) \<Rightarrow> (r, xs[i := s]))"

lemma at_idx_result [simp]: "fst (at_idx i f xs) = fst (f (xs ! i))" "length (snd (at_idx i f xs)) = length xs"
  by (simp_all add: at_idx_def split: prod.splits)

lemma at_idx_nth: "i < length xs \<Longrightarrow> snd (at_idx i f xs) ! j = (if j = i then snd (f (xs ! i)) else xs ! j)"
  by (simp add: at_idx_def split: prod.splits)

text \<open>\<open>h & mask\<close> for \<open>n\<close> shards.\<close>

definition mask_index :: "u64 \<Rightarrow> nat \<Rightarrow> nat" where
  "mask_index h n = unat (and h (of_nat (n - 1)))"

lemma unat64_of_nat: "k < 2 ^ 64 \<Longrightarrow> unat (of_nat k :: u64) = k"
  by (simp add: unat_of_nat take_bit_nat_eq_self)

lemma mask_index_less: "0 < n \<Longrightarrow> n < 2 ^ 64 \<Longrightarrow> mask_index h n < n"
proof -
  assume n: "0 < n" "n < 2 ^ 64"
  have "and h (of_nat (n - 1)) \<le> (of_nat (n - 1) :: u64)" by (rule word_and_le1)
  then have "mask_index h n \<le> unat (of_nat (n - 1) :: u64)" by (simp add: mask_index_def word_le_nat_alt)
  also have "\<dots> = n - 1" by (rule unat64_of_nat) (use n in simp)
  finally show ?thesis using n(1) by simp
qed

end
