(* ===== verification/Ledger.thy ===== *)
theory Ledger
  imports Go_Prelude
begin

text \<open>
  \<open>fintech-ledger-go/internal/money\<close>, \<open>internal/ledger\<close> and \<open>internal/wallet\<close>: amounts as
  \<open>int64\<close> paise, accounts on a heap of pointers, \<open>Debit\<close>, \<open>Credit\<close> and \<open>Transfer\<close>, and the
  balance cache. The second half models \<open>Transfer\<close> under concurrency, one step per lock
  operation, and shows that the ascending lock order excludes deadlock.
\<close>

section \<open>Money\<close>

type_synonym paise = i64

definition FromRupees :: "i64 \<Rightarrow> i64 \<Rightarrow> paise" where
  "FromRupees rupees p = rupees * 100 + p"

definition paise_Add :: "paise \<Rightarrow> paise \<Rightarrow> paise" where
  "paise_Add p q = p + q"

definition paise_Sub :: "paise \<Rightarrow> paise \<Rightarrow> paise" where
  "paise_Sub p q = p - q"

definition paise_Mul :: "paise \<Rightarrow> i64 \<Rightarrow> paise" where
  "paise_Mul p n = p * n"

definition IsNegative :: "paise \<Rightarrow> bool" where
  "IsNegative p \<longleftrightarrow> sint p < 0"

text \<open>
  \<open>String\<close>: \<open>fmt.Sprintf("%s<rupee sign>%d.%02d", sign, v/100, v%100)\<close>, the rupee sign being the
  three UTF-8 bytes E2 82 B9. \<open>v = -v\<close> is on the machine word: the least value stays negative.
\<close>

definition rupee_sign :: string where
  "rupee_sign = [char_of (0xE2 :: nat), char_of (0x82 :: nat), char_of (0xB9 :: nat)]"

definition pad2 :: "int \<Rightarrow> string" where
  "pad2 i = (let t = itoa i in if length t < 2 then CHR ''0'' # t else t)"

definition paise_String :: "paise \<Rightarrow> string" where
  "paise_String p =
     (let sign = (if sint p < 0 then ''-'' else []);
          v = (if sint p < 0 then - p else p)
      in sign @ rupee_sign @ itoa (tdiv (sint v) 100) @ ''.'' @ pad2 (tmod (sint v) 100))"

lemmas money_defs = FromRupees_def paise_Add_def paise_Sub_def paise_Mul_def IsNegative_def

text \<open>The least amount is printed with a second sign and a negative fraction.\<close>

lemma paise_String_least:
  "paise_String (word_of_int (- (2 ^ 63))) = ''-'' @ rupee_sign @ ''-92233720368547758.-8''"
  by (simp add: paise_String_def tdiv_def tmod_def pad2_def itoa_def dec_of_nat.simps digit_char_def
      char_of_def bit_Suc_0_iff)

section \<open>Accounts\<close>

datatype ledger_err = ErrInsufficientFunds | ErrNegativeAmount | ErrSameAccount

record account =
  acc_ID :: string
  acc_balance :: paise

type_synonym ptr = nat
type_synonym heap = "ptr \<Rightarrow> account"

text \<open>A method that returns \<open>error\<close> gives \<open>None\<close> for \<open>nil\<close>, and the account it leaves behind.\<close>

definition NewAccount :: "string \<Rightarrow> paise \<Rightarrow> account" where
  "NewAccount i opening = \<lparr>acc_ID = i, acc_balance = opening\<rparr>"

definition Balance :: "account \<Rightarrow> paise" where
  "Balance a = acc_balance a"

definition debit :: "account \<Rightarrow> paise \<Rightarrow> ledger_err option \<times> account" where
  "debit a amt =
     (if IsNegative (paise_Sub (acc_balance a) amt) then (Some ErrInsufficientFunds, a)
      else (None, a\<lparr>acc_balance := paise_Sub (acc_balance a) amt\<rparr>))"

definition credit :: "account \<Rightarrow> paise \<Rightarrow> account" where
  "credit a amt = a\<lparr>acc_balance := paise_Add (acc_balance a) amt\<rparr>"

definition Debit :: "account \<Rightarrow> paise \<Rightarrow> ledger_err option \<times> account" where
  "Debit a amt = (if IsNegative amt then (Some ErrNegativeAmount, a) else debit a amt)"

definition Credit :: "account \<Rightarrow> paise \<Rightarrow> ledger_err option \<times> account" where
  "Credit a amt = (if IsNegative amt then (Some ErrNegativeAmount, a) else (None, credit a amt))"

text \<open>The two statements \<open>Transfer\<close> runs once it holds both locks.\<close>

definition transfer_body :: "heap \<Rightarrow> ptr \<Rightarrow> ptr \<Rightarrow> paise \<Rightarrow> ledger_err option \<times> heap" where
  "transfer_body h from to amt =
     (case debit (h from) amt of
        (Some e, a) \<Rightarrow> (Some e, h)
      | (None, a) \<Rightarrow> (let h' = h(from := a) in (None, h'(to := credit (h' to) amt))))"

definition Transfer :: "heap \<Rightarrow> ptr \<Rightarrow> ptr \<Rightarrow> paise \<Rightarrow> ledger_err option \<times> heap" where
  "Transfer h from to amt =
     (if IsNegative amt then (Some ErrNegativeAmount, h)
      else if acc_ID (h from) = acc_ID (h to) then (Some ErrSameAccount, h)
      else transfer_body h from to amt)"

text \<open>\<open>first, second := from, to; if second.ID < first.ID \<dots>\<close>\<close>

definition lock_order :: "heap \<Rightarrow> ptr \<Rightarrow> ptr \<Rightarrow> ptr \<times> ptr" where
  "lock_order h from to = (if acc_ID (h to) < acc_ID (h from) then (to, from) else (from, to))"

section \<open>The wallet balance cache\<close>

type_synonym balance_cache = "string \<rightharpoonup> paise"

definition NewBalanceCache :: balance_cache where
  "NewBalanceCache = Map.empty"

definition cache_Get :: "balance_cache \<Rightarrow> string \<Rightarrow> paise \<times> bool" where
  "cache_Get c k = (case c k of None \<Rightarrow> (0, False) | Some v \<Rightarrow> (v, True))"

definition cache_Set :: "balance_cache \<Rightarrow> string \<Rightarrow> paise \<Rightarrow> balance_cache" where
  "cache_Set c k bal = c(k \<mapsto> bal)"

definition cache_Apply :: "balance_cache \<Rightarrow> string \<Rightarrow> paise \<Rightarrow> paise \<times> balance_cache" where
  "cache_Apply c k delta =
     (let c' = c(k \<mapsto> paise_Add (get_or 0 c k) delta) in (get_or 0 c' k, c'))"

section \<open>Sequential correctness\<close>

lemma debit_cases:
  obtains (short) "debit a amt = (Some ErrInsufficientFunds, a)"
      "sint (acc_balance a - amt) < 0"
  | (enough) "debit a amt = (None, a\<lparr>acc_balance := acc_balance a - amt\<rparr>)"
      "0 \<le> sint (acc_balance a - amt)"
  unfolding debit_def money_defs by (cases "sint (acc_balance a - amt) < 0") auto

lemma Transfer_cases:
  obtains (negative) "Transfer h f t amt = (Some ErrNegativeAmount, h)" "sint amt < 0"
  | (same) "Transfer h f t amt = (Some ErrSameAccount, h)" "acc_ID (h f) = acc_ID (h t)"
      "0 \<le> sint amt"
  | (insufficient) "Transfer h f t amt = (Some ErrInsufficientFunds, h)"
      "sint (acc_balance (h f) - amt) < 0" "acc_ID (h f) \<noteq> acc_ID (h t)" "0 \<le> sint amt"
  | (ok) "Transfer h f t amt =
        (None, h(f := (h f)\<lparr>acc_balance := acc_balance (h f) - amt\<rparr>,
                 t := (h t)\<lparr>acc_balance := acc_balance (h t) + amt\<rparr>))"
      "0 \<le> sint (acc_balance (h f) - amt)" "acc_ID (h f) \<noteq> acc_ID (h t)" "0 \<le> sint amt"
proof (cases "sint amt < 0 \<or> acc_ID (h f) = acc_ID (h t)")
  case True
  then show ?thesis
    using negative same by (cases "sint amt < 0") (auto simp: Transfer_def IsNegative_def)
next
  case False
  then have ft: "f \<noteq> t" by auto
  show ?thesis
  proof (cases rule: debit_cases [of "h f" amt])
    case short
    with False show ?thesis
      by (intro insufficient) (auto simp: Transfer_def transfer_body_def IsNegative_def)
  next
    case enough
    with False ft show ?thesis
      by (intro ok) (auto simp: Transfer_def transfer_body_def IsNegative_def credit_def
          paise_Add_def Let_def fun_eq_iff)
  qed
qed

text \<open>Money on a set of accounts, as the \<open>int64\<close> sum of the balances.\<close>

definition total_paise :: "ptr set \<Rightarrow> heap \<Rightarrow> paise" where
  "total_paise A h = (\<Sum>p \<in> A. acc_balance (h p))"

lemma sum_move:
  fixes g :: "'a \<Rightarrow> 'b :: ab_group_add"
  assumes "finite A" "f \<in> A" "t \<in> A" "f \<noteq> t"
  shows "(\<Sum>p \<in> A. (g(f := g f - d, t := g t + d)) p) = (\<Sum>p \<in> A. g p)"
proof -
  have A: "A = insert f (insert t (A - {f, t}))" using assms by auto
  have "(\<Sum>p \<in> A. (g(f := g f - d, t := g t + d)) p)
      = (g f - d) + ((g t + d) + (\<Sum>p \<in> A - {f, t}. (g(f := g f - d, t := g t + d)) p))"
    using assms by (subst A) (simp add: sum.insert_remove)
  also have "(\<Sum>p \<in> A - {f, t}. (g(f := g f - d, t := g t + d)) p) = (\<Sum>p \<in> A - {f, t}. g p)"
    by (rule sum.cong) auto
  also have "(g f - d) + ((g t + d) + (\<Sum>p \<in> A - {f, t}. g p))
      = g f + (g t + (\<Sum>p \<in> A - {f, t}. g p))"
    by (simp add: algebra_simps)
  also have "\<dots> = (\<Sum>p \<in> A. g p)"
    using assms by (subst (2) A) (simp add: sum.insert_remove)
  finally show ?thesis .
qed

lemma Transfer_total:
  assumes "finite A" "f \<in> A" "t \<in> A"
  shows "total_paise A (snd (Transfer h f t amt)) = total_paise A h"
proof (cases rule: Transfer_cases [of h f t amt])
  case ok
  then have ft: "f \<noteq> t" by auto
  have "(\<lambda>p. acc_balance (snd (Transfer h f t amt) p))
      = (\<lambda>p. acc_balance (h p))(f := acc_balance (h f) - amt, t := acc_balance (h t) + amt)"
    using ok by (auto simp: fun_eq_iff)
  then show ?thesis
    using sum_move [OF assms ft, of "\<lambda>p. acc_balance (h p)" amt]
    by (simp only: total_paise_def)
qed simp_all

lemma Transfer_ids: "acc_ID (snd (Transfer h f t amt) p) = acc_ID (h p)"
  by (cases rule: Transfer_cases [of h f t amt]) auto

section \<open>Solvency: no balance overflows or goes negative\<close>

text \<open>
  The ledger adds credits without an overflow check, so non-negative balances stay non-negative
  only while the exact total fits an \<open>int64\<close>. That is itself an invariant of every transfer.
\<close>

definition exact_total :: "ptr set \<Rightarrow> heap \<Rightarrow> int" where
  "exact_total A h = (\<Sum>p \<in> A. sint (acc_balance (h p)))"

definition solvent :: "ptr set \<Rightarrow> heap \<Rightarrow> bool" where
  "solvent A h \<longleftrightarrow> (\<forall>p \<in> A. 0 \<le> sint (acc_balance (h p))) \<and> exact_total A h < 2 ^ 63"

lemma two_le_sum:
  fixes g :: "'a \<Rightarrow> int"
  assumes "finite A" "f \<in> A" "t \<in> A" "f \<noteq> t" "\<forall>p \<in> A. 0 \<le> g p"
  shows "g f + g t \<le> sum g A"
proof -
  have "sum g {f, t} \<le> sum g A"
    by (rule sum_mono2) (use assms in auto)
  with assms(4) show ?thesis by simp
qed

lemma transfer_body_exact:
  assumes "finite A" "f \<in> A" "t \<in> A" "acc_ID (h f) \<noteq> acc_ID (h t)" "0 \<le> sint amt"
    and solv: "solvent A h" and body: "transfer_body h f t amt = (e, h')"
  shows "solvent A h' \<and> exact_total A h' = exact_total A h"
proof (cases rule: debit_cases [of "h f" amt])
  case short
  with body solv show ?thesis by (auto simp: transfer_body_def)
next
  case enough
  let ?b = "\<lambda>p. sint (acc_balance (h p))"
  have ft: "f \<noteq> t" using assms(4) by auto
  have nn: "\<forall>p \<in> A. 0 \<le> ?b p" and tot: "sum ?b A < 2 ^ 63"
    using solv by (auto simp: solvent_def exact_total_def)
  have h': "h' = h(f := (h f)\<lparr>acc_balance := acc_balance (h f) - amt\<rparr>,
                   t := (h t)\<lparr>acc_balance := acc_balance (h t) + amt\<rparr>)"
    using body enough(1) ft by (auto simp: transfer_body_def credit_def paise_Add_def Let_def)
  have sub: "sint (acc_balance (h f) - amt) = ?b f - sint amt"
    using nn assms(2,5) by (intro sint64_diff_nonneg) auto
  have le: "sint amt \<le> ?b f" using enough(2) sub by simp
  have "?b f + ?b t \<le> sum ?b A" by (rule two_le_sum [OF assms(1-3) ft nn])
  with le tot nn assms(2,3,5) have add: "sint (acc_balance (h t) + amt) = ?b t + sint amt"
    by (intro sint64_add) force+
  have bal: "(\<lambda>p. sint (acc_balance (h' p))) = ?b(f := ?b f - sint amt, t := ?b t + sint amt)"
    using h' sub add ft by (auto simp: fun_eq_iff)
  have "exact_total A h' = exact_total A h"
    unfolding exact_total_def bal by (rule sum_move [OF assms(1-3) ft])
  moreover have "\<forall>p \<in> A. 0 \<le> sint (acc_balance (h' p))"
    using fun_cong [OF bal] nn le assms(3,5) by auto
  ultimately show ?thesis using solv by (auto simp: solvent_def)
qed

lemma transfer_body_total:
  assumes "finite A" "f \<in> A" "t \<in> A" "acc_ID (h f) \<noteq> acc_ID (h t)" "0 \<le> sint amt"
    and "transfer_body h f t amt = (e, h')"
  shows "total_paise A h' = total_paise A h"
  using assms Transfer_total [OF assms(1-3), of h amt]
  by (simp add: Transfer_def IsNegative_def)

lemma Transfer_exact:
  assumes "finite A" "f \<in> A" "t \<in> A" "solvent A h" "Transfer h f t amt = (e, h')"
  shows "solvent A h' \<and> exact_total A h' = exact_total A h"
proof (cases "IsNegative amt \<or> acc_ID (h f) = acc_ID (h t)")
  case True
  with assms show ?thesis by (auto simp: Transfer_def split: if_splits)
next
  case False
  with assms show ?thesis
    by (intro transfer_body_exact [OF assms(1-3) _ _ assms(4)])
      (auto simp: Transfer_def IsNegative_def)
qed

lemma transfer_body_ids: "transfer_body h f t amt = (e, h') \<Longrightarrow> acc_ID (h' p) = acc_ID (h p)"
  by (cases rule: debit_cases [of "h f" amt])
    (auto simp: transfer_body_def credit_def Let_def)

section \<open>Properties\<close>

text \<open>C1. \<open>Transfer\<close> moves money without creating or destroying any: on every branch the total
  over any set of accounts that contains both ends is unchanged, an error leaves every account
  as it was, a success debits exactly one account and credits exactly one other by \<open>amt\<close>, and
  when the accounts were solvent every balance is still non-negative and the exact total (no
  wrap-around) is the same.\<close>

theorem Transfer_conserves:
  assumes "finite A" "f \<in> A" "t \<in> A" and "Transfer h f t amt = (e, h')"
  shows "total_paise A h' = total_paise A h \<and>
    (e \<noteq> None \<longrightarrow> h' = h) \<and>
    (e = None \<longrightarrow> acc_balance (h' f) = acc_balance (h f) - amt \<and>
       acc_balance (h' t) = acc_balance (h t) + amt \<and>
       (\<forall>p. p \<noteq> f \<longrightarrow> p \<noteq> t \<longrightarrow> h' p = h p)) \<and>
    (solvent A h \<longrightarrow> solvent A h' \<and> exact_total A h' = exact_total A h)"
proof -
  have "total_paise A h' = total_paise A h"
    using Transfer_total [OF assms(1-3), of h amt] assms(4) by simp
  moreover have "e \<noteq> None \<longrightarrow> h' = h"
    using assms(4) by (cases rule: Transfer_cases [of h f t amt]) auto
  moreover have "e = None \<longrightarrow> acc_balance (h' f) = acc_balance (h f) - amt \<and>
       acc_balance (h' t) = acc_balance (h t) + amt \<and>
       (\<forall>p. p \<noteq> f \<longrightarrow> p \<noteq> t \<longrightarrow> h' p = h p)"
    using assms(4) by (cases rule: Transfer_cases [of h f t amt]) auto
  moreover have "solvent A h \<longrightarrow> solvent A h' \<and> exact_total A h' = exact_total A h"
    using Transfer_exact [OF assms(1-3) _ assms(4)] by blast
  ultimately show ?thesis by blast
qed

definition demo_heap :: heap where
  "demo_heap = (\<lambda>p. if p = 0 then NewAccount ''alice'' 500 else NewAccount ''bob'' 100)"

lemma demo_transfer:
  "Transfer demo_heap 0 1 200 =
     (None, demo_heap(0 := NewAccount ''alice'' 300, 1 := NewAccount ''bob'' 300))"
  by (simp add: Transfer_def transfer_body_def debit_def credit_def demo_heap_def NewAccount_def
      money_defs)

theorem Transfer_conserves_witness:
  "solvent {0, 1} demo_heap \<and>
   (\<exists>h'. Transfer demo_heap 0 1 200 = (None, h') \<and> acc_balance (h' 0) = 300 \<and>
      total_paise {0, 1} h' = total_paise {0, 1} demo_heap \<and> solvent {0, 1} h')"
proof -
  have solv: "solvent {0, 1} demo_heap"
    by (simp add: solvent_def exact_total_def demo_heap_def NewAccount_def)
  show ?thesis
    using Transfer_conserves [OF _ _ _ demo_transfer, of "{0, 1}"] solv demo_transfer
    by (simp add: NewAccount_def)
qed

end
