(* ===== verification/Transfer_Locks.thy ===== *)
theory Transfer_Locks
  imports Ledger
begin

text \<open>
  \<open>ledger.Transfer\<close> under concurrency: any number of goroutines, each running one \<open>Transfer\<close>.
  A step is one lock operation, the body between the locks, or an early return. The deferred
  unlocks run in reverse order of acquisition.
\<close>

record job =
  job_from :: ptr
  job_to :: ptr
  job_amt :: paise

datatype pc = Entry | First_held | Both_held
  | Unlock_second "ledger_err option" | Unlock_first "ledger_err option"
  | Returned "ledger_err option"

record xsys =
  xs_heap :: heap
  xs_owner :: "ptr \<rightharpoonup> nat"
  xs_pc :: "nat \<Rightarrow> pc"

definition first_lock :: "heap \<Rightarrow> job \<Rightarrow> ptr" where
  "first_lock h j = fst (lock_order h (job_from j) (job_to j))"

definition second_lock :: "heap \<Rightarrow> job \<Rightarrow> ptr" where
  "second_lock h j = snd (lock_order h (job_from j) (job_to j))"

definition goto :: "xsys \<Rightarrow> nat \<Rightarrow> pc \<Rightarrow> xsys" where
  "goto s i l = s\<lparr>xs_pc := (xs_pc s)(i := l)\<rparr>"

text \<open>The two checks before the locks.\<close>

definition entry_check :: "heap \<Rightarrow> job \<Rightarrow> ledger_err option" where
  "entry_check h j =
     (if IsNegative (job_amt j) then Some ErrNegativeAmount
      else if acc_ID (h (job_from j)) = acc_ID (h (job_to j)) then Some ErrSameAccount
      else None)"

inductive xstep :: "nat \<Rightarrow> (nat \<Rightarrow> job) \<Rightarrow> xsys \<Rightarrow> xsys \<Rightarrow> bool" for n jobs where
  reject: "i < n \<Longrightarrow> xs_pc s i = Entry \<Longrightarrow> entry_check (xs_heap s) (jobs i) = Some e \<Longrightarrow>
    xstep n jobs s (goto s i (Returned (Some e)))"
| lock_first: "i < n \<Longrightarrow> xs_pc s i = Entry \<Longrightarrow> entry_check (xs_heap s) (jobs i) = None \<Longrightarrow>
    xs_owner s (first_lock (xs_heap s) (jobs i)) = None \<Longrightarrow>
    xstep n jobs s ((goto s i First_held)
      \<lparr>xs_owner := (xs_owner s)(first_lock (xs_heap s) (jobs i) \<mapsto> i)\<rparr>)"
| lock_second: "i < n \<Longrightarrow> xs_pc s i = First_held \<Longrightarrow>
    xs_owner s (second_lock (xs_heap s) (jobs i)) = None \<Longrightarrow>
    xstep n jobs s ((goto s i Both_held)
      \<lparr>xs_owner := (xs_owner s)(second_lock (xs_heap s) (jobs i) \<mapsto> i)\<rparr>)"
| body: "i < n \<Longrightarrow> xs_pc s i = Both_held \<Longrightarrow>
    transfer_body (xs_heap s) (job_from (jobs i)) (job_to (jobs i)) (job_amt (jobs i)) = (e, h') \<Longrightarrow>
    xstep n jobs s ((goto s i (Unlock_second e))\<lparr>xs_heap := h'\<rparr>)"
| unlock_second: "i < n \<Longrightarrow> xs_pc s i = Unlock_second e \<Longrightarrow>
    xstep n jobs s ((goto s i (Unlock_first e))
      \<lparr>xs_owner := (xs_owner s)(second_lock (xs_heap s) (jobs i) := None)\<rparr>)"
| unlock_first: "i < n \<Longrightarrow> xs_pc s i = Unlock_first e \<Longrightarrow>
    xstep n jobs s ((goto s i (Returned e))
      \<lparr>xs_owner := (xs_owner s)(first_lock (xs_heap s) (jobs i) := None)\<rparr>)"

definition xinit :: "heap \<Rightarrow> xsys" where
  "xinit h = \<lparr>xs_heap = h, xs_owner = Map.empty, xs_pc = (\<lambda>_. Entry)\<rparr>"

section \<open>The invariant\<close>

text \<open>The locks a goroutine holds at each program point.\<close>

fun held :: "heap \<Rightarrow> job \<Rightarrow> pc \<Rightarrow> ptr set" where
  "held h j Entry = {}"
| "held h j First_held = {first_lock h j}"
| "held h j Both_held = {first_lock h j, second_lock h j}"
| "held h j (Unlock_second e) = {first_lock h j, second_lock h j}"
| "held h j (Unlock_first e) = {first_lock h j}"
| "held h j (Returned e) = {}"

definition inside :: "pc \<Rightarrow> bool" where
  "inside l \<longleftrightarrow> l \<noteq> Entry \<and> (\<forall>e. l \<noteq> Returned e)"

definition xinv :: "heap \<Rightarrow> nat \<Rightarrow> (nat \<Rightarrow> job) \<Rightarrow> xsys \<Rightarrow> bool" where
  "xinv h0 n jobs s \<longleftrightarrow>
     (\<forall>p. acc_ID (xs_heap s p) = acc_ID (h0 p)) \<and>
     (\<forall>p i. xs_owner s p = Some i \<longleftrightarrow> i < n \<and> p \<in> held h0 (jobs i) (xs_pc s i)) \<and>
     (\<forall>i < n. inside (xs_pc s i) \<longrightarrow> entry_check h0 (jobs i) = None)"

lemma lock_order_ids:
  assumes "\<And>p. acc_ID (h p) = acc_ID (h0 p)"
  shows "first_lock h j = first_lock h0 j" "second_lock h j = second_lock h0 j"
    "entry_check h j = entry_check h0 j"
  by (simp_all add: first_lock_def second_lock_def lock_order_def entry_check_def assms)

lemma lock_order_ascending:
  "entry_check h j = None \<Longrightarrow> acc_ID (h (first_lock h j)) < acc_ID (h (second_lock h j))"
  by (auto simp: first_lock_def second_lock_def lock_order_def entry_check_def split: if_splits)

lemma locks_differ: "entry_check h j = None \<Longrightarrow> first_lock h j \<noteq> second_lock h j"
  by (metis lock_order_ascending less_irrefl)

lemma xinv_init: "xinv h n jobs (xinit h)"
  by (simp add: xinv_def xinit_def inside_def)

lemma goto_simps [simp]:
  "xs_heap (goto s i l) = xs_heap s" "xs_owner (goto s i l) = xs_owner s"
  "xs_pc (goto s i l) = (xs_pc s)(i := l)"
  by (simp_all add: goto_def)

text \<open>Two goroutines never hold the same lock.\<close>

lemma xinv_exclusive:
  assumes "xinv h0 n jobs s" "i < n" "j < n"
    "p \<in> held h0 (jobs i) (xs_pc s i)" "p \<in> held h0 (jobs j) (xs_pc s j)"
  shows "i = j"
  using assms by (metis option.inject xinv_def)

lemma xinvD:
  assumes "xinv h0 n jobs s"
  shows "acc_ID (xs_heap s p) = acc_ID (h0 p)"
    "xs_owner s p = Some i \<longleftrightarrow> i < n \<and> p \<in> held h0 (jobs i) (xs_pc s i)"
    "i < n \<Longrightarrow> inside (xs_pc s i) \<Longrightarrow> entry_check h0 (jobs i) = None"
    "first_lock (xs_heap s) j = first_lock h0 j"
    "second_lock (xs_heap s) j = second_lock h0 j"
    "entry_check (xs_heap s) j = entry_check h0 j"
  using assms lock_order_ids [of "xs_heap s" h0] by (auto simp: xinv_def)

lemma xinv_step:
  assumes "xstep n jobs s s'" "xinv h0 n jobs s"
  shows "xinv h0 n jobs s'"
  using assms
proof (cases rule: xstep.cases)
  case (reject i e)
  note I = xinvD [OF assms(2)]
  show ?thesis
    unfolding xinv_def using reject I(1,3) I(2) by (auto simp: inside_def)
next
  case (lock_first i)
  note I = xinvD [OF assms(2)]
  have free: "\<And>j. j < n \<Longrightarrow> first_lock h0 (jobs i) \<notin> held h0 (jobs j) (xs_pc s j)"
    using lock_first I(2,4) by (metis option.distinct(1))
  show ?thesis
    unfolding xinv_def using lock_first I free by (auto simp: inside_def)
next
  case (lock_second i)
  note I = xinvD [OF assms(2)]
  have free: "\<And>j. j < n \<Longrightarrow> second_lock h0 (jobs i) \<notin> held h0 (jobs j) (xs_pc s j)"
    using lock_second I(2,5) by (metis option.distinct(1))
  have "entry_check h0 (jobs i) = None" using I(3) lock_second by (simp add: inside_def)
  then show ?thesis
    unfolding xinv_def using lock_second I free by (auto simp: inside_def)
next
  case (body i e h')
  note I = xinvD [OF assms(2)]
  show ?thesis
    unfolding xinv_def using body I transfer_body_ids [OF body(4)] by (auto simp: inside_def)
next
  case (unlock_second i e)
  note I = xinvD [OF assms(2)]
  have "first_lock h0 (jobs i) \<noteq> second_lock h0 (jobs i)"
    using I(3) unlock_second by (intro locks_differ) (simp add: inside_def)
  moreover have "\<And>j. j < n \<Longrightarrow> second_lock h0 (jobs i) \<in> held h0 (jobs j) (xs_pc s j) \<Longrightarrow> j = i"
    using xinv_exclusive [OF assms(2)] unlock_second by fastforce
  ultimately show ?thesis
    unfolding xinv_def using unlock_second I by (auto simp: inside_def)
next
  case (unlock_first i e)
  note I = xinvD [OF assms(2)]
  have "\<And>j. j < n \<Longrightarrow> first_lock h0 (jobs i) \<in> held h0 (jobs j) (xs_pc s j) \<Longrightarrow> j = i"
    using xinv_exclusive [OF assms(2)] unlock_first by fastforce
  then show ?thesis
    unfolding xinv_def using unlock_first I by (auto simp: inside_def)
qed

section \<open>Deadlock freedom and termination\<close>

text \<open>Among the goroutines that wait for their second lock, the one that wants the greatest
  account ID never waits for another waiting one.\<close>

lemma waiting_progress:
  assumes inv: "xinv h0 n jobs s"
    and waiting: "i0 < n" "xs_pc s i0 = First_held"
    and only: "\<forall>i < n. inside (xs_pc s i) \<longrightarrow> xs_pc s i = First_held"
  shows "\<exists>i < n. xs_pc s i = First_held \<and> xs_owner s (second_lock h0 (jobs i)) = None"
proof -
  let ?W = "{i. i < n \<and> xs_pc s i = First_held}"
  let ?want = "\<lambda>i. acc_ID (h0 (second_lock h0 (jobs i)))"
  have fin: "finite ?W" "?W \<noteq> {}" using waiting by auto
  have "Max (?want ` ?W) \<in> ?want ` ?W" by (rule Max_in) (use fin in auto)
  then obtain i where i: "i \<in> ?W" and m: "Max (?want ` ?W) = ?want i" by blast
  have max: "?want j \<le> ?want i" if "j \<in> ?W" for j
    unfolding m [symmetric] by (rule Max_ge) (use fin that in auto)
  have "xs_owner s (second_lock h0 (jobs i)) = None"
  proof (rule ccontr)
    assume "xs_owner s (second_lock h0 (jobs i)) \<noteq> None"
    then obtain j where j: "j < n" "second_lock h0 (jobs i) \<in> held h0 (jobs j) (xs_pc s j)"
      using xinvD(2) [OF inv] by blast
    then have "inside (xs_pc s j)" by (cases "xs_pc s j") (auto simp: inside_def)
    then have pc: "xs_pc s j = First_held" and ok: "entry_check h0 (jobs j) = None"
      using only j(1) xinvD(3) [OF inv] by auto
    from j pc have "second_lock h0 (jobs i) = first_lock h0 (jobs j)" by simp
    then have "?want i < ?want j" using lock_order_ascending [OF ok] by simp
    moreover have "?want j \<le> ?want i" using max j(1) pc by simp
    ultimately show False by simp
  qed
  with i show ?thesis by blast
qed

lemma transfer_progress:
  assumes inv: "xinv h0 n jobs s" and i: "i < n" "\<And>e. xs_pc s i \<noteq> Returned e"
  shows "\<exists>s'. xstep n jobs s s'"
proof (cases "\<exists>j < n. inside (xs_pc s j) \<and> xs_pc s j \<noteq> First_held")
  case True
  then obtain j where j: "j < n" "inside (xs_pc s j)" "xs_pc s j \<noteq> First_held" by blast
  then consider "xs_pc s j = Both_held" | e where "xs_pc s j = Unlock_second e"
    | e where "xs_pc s j = Unlock_first e"
    by (cases "xs_pc s j") (auto simp: inside_def)
  then show ?thesis
  proof cases
    case 1
    then show ?thesis
      by (metis surj_pair j(1) xstep.body)
  qed (use j(1) xstep.unlock_second xstep.unlock_first in blast)+
next
  case False
  note I = xinvD [OF inv]
  show ?thesis
  proof (cases "\<exists>j < n. xs_pc s j = First_held")
    case True
    then obtain j where "j < n" "xs_pc s j = First_held"
        "xs_owner s (second_lock h0 (jobs j)) = None"
      using waiting_progress [OF inv] False by blast
    then show ?thesis
      using xstep.lock_second [of j n s jobs] by (simp add: I(5)) blast
  next
    case none: False
    then have out: "\<not> inside (xs_pc s j)" if "j < n" for j using False that by blast
    then have entry: "xs_pc s i = Entry" using i by (auto simp: inside_def)
    have "held h0 (jobs j) (xs_pc s j) = {}" if "j < n" for j
      using out [OF that] by (auto simp: inside_def)
    then have free: "xs_owner s p = None" for p
      using I(2) by (metis empty_iff not_None_eq)
    show ?thesis
    proof (cases "entry_check (xs_heap s) (jobs i)")
      case None
      then show ?thesis using xstep.lock_first [OF i(1) entry] free by blast
    next
      case (Some e)
      then show ?thesis using xstep.reject [OF i(1) entry] by blast
    qed
  qed
qed

text \<open>Every step moves one goroutine forward, so a run of \<open>n\<close> transfers has at most \<open>5 n\<close> steps.\<close>

fun pc_rank :: "pc \<Rightarrow> nat" where
  "pc_rank Entry = 5"
| "pc_rank First_held = 4"
| "pc_rank Both_held = 3"
| "pc_rank (Unlock_second e) = 2"
| "pc_rank (Unlock_first e) = 1"
| "pc_rank (Returned e) = 0"

definition work_left :: "nat \<Rightarrow> xsys \<Rightarrow> nat" where
  "work_left n s = (\<Sum>i < n. pc_rank (xs_pc s i))"

lemma work_left_goto:
  assumes "i < n" "pc_rank l < pc_rank (xs_pc s i)" "xs_pc s' = (xs_pc s)(i := l)"
  shows "work_left n s' < work_left n s"
proof -
  have "(\<Sum>j \<in> {..<n}. pc_rank (xs_pc s' j)) < (\<Sum>j \<in> {..<n}. pc_rank (xs_pc s j))"
    by (rule sum_strict_mono_ex1) (use assms in auto)
  then show ?thesis by (simp add: work_left_def)
qed

lemma xstep_work:
  assumes "xstep n jobs s s'"
  shows "work_left n s' < work_left n s"
  using assms
proof (cases rule: xstep.cases)
  case (reject i e)
  then show ?thesis by (intro work_left_goto [of i n "Returned (Some e)"]) auto
next
  case (lock_first i)
  then show ?thesis by (intro work_left_goto [of i n First_held]) auto
next
  case (lock_second i)
  then show ?thesis by (intro work_left_goto [of i n Both_held]) auto
next
  case (body i e h')
  then show ?thesis by (intro work_left_goto [of i n "Unlock_second e"]) auto
next
  case (unlock_second i e)
  then show ?thesis by (intro work_left_goto [of i n "Unlock_first e"]) auto
next
  case (unlock_first i e)
  then show ?thesis by (intro work_left_goto [of i n "Returned e"]) auto
qed

inductive xreach :: "nat \<Rightarrow> (nat \<Rightarrow> job) \<Rightarrow> heap \<Rightarrow> nat \<Rightarrow> xsys \<Rightarrow> bool" for n jobs h0 where
  xr_init: "xreach n jobs h0 0 (xinit h0)"
| xr_step: "xreach n jobs h0 k s \<Longrightarrow> xstep n jobs s s' \<Longrightarrow> xreach n jobs h0 (Suc k) s'"

lemma xreach_inv: "xreach n jobs h0 k s \<Longrightarrow> xinv h0 n jobs s"
  by (induction rule: xreach.induct) (auto simp: xinv_init intro: xinv_step)

lemma xreach_work: "xreach n jobs h0 k s \<Longrightarrow> k + work_left n s \<le> 5 * n"
proof (induction rule: xreach.induct)
  case xr_init
  then show ?case by (simp add: work_left_def xinit_def)
next
  case (xr_step k s s')
  then show ?case using xstep_work [of n jobs s s'] by simp
qed

section \<open>Conservation under interleaving\<close>

lemma xstep_heap:
  assumes "xstep n jobs s s'" "xinv h0 n jobs s"
  shows "xs_heap s' = xs_heap s \<or>
    (\<exists>i < n. \<exists>e. transfer_body (xs_heap s) (job_from (jobs i)) (job_to (jobs i)) (job_amt (jobs i))
        = (e, xs_heap s') \<and>
      acc_ID (xs_heap s (job_from (jobs i))) \<noteq> acc_ID (xs_heap s (job_to (jobs i))) \<and>
      0 \<le> sint (job_amt (jobs i)))"
  using assms
proof (cases rule: xstep.cases)
  case (body i e h')
  have "entry_check (xs_heap s) (jobs i) = None"
    using xinvD(3,6) [OF assms(2)] body by (simp add: inside_def)
  then have "acc_ID (xs_heap s (job_from (jobs i))) \<noteq> acc_ID (xs_heap s (job_to (jobs i))) \<and>
      0 \<le> sint (job_amt (jobs i))"
    by (auto simp: entry_check_def IsNegative_def split: if_splits)
  with body show ?thesis by auto
qed simp_all

lemma xreach_conserves:
  assumes "xreach n jobs h0 k s" "finite A"
    "\<And>i. i < n \<Longrightarrow> job_from (jobs i) \<in> A \<and> job_to (jobs i) \<in> A"
  shows "total_paise A (xs_heap s) = total_paise A h0 \<and>
    (solvent A h0 \<longrightarrow> solvent A (xs_heap s) \<and> exact_total A (xs_heap s) = exact_total A h0)"
  using assms(1)
proof (induction rule: xreach.induct)
  case xr_init
  then show ?case by (simp add: xinit_def)
next
  case (xr_step k s s')
  from xstep_heap [OF xr_step(2) xreach_inv [OF xr_step(1)]] show ?case
  proof
    assume "xs_heap s' = xs_heap s"
    with xr_step.IH show ?thesis by simp
  next
    assume "\<exists>i < n. \<exists>e. transfer_body (xs_heap s) (job_from (jobs i)) (job_to (jobs i))
        (job_amt (jobs i)) = (e, xs_heap s') \<and>
      acc_ID (xs_heap s (job_from (jobs i))) \<noteq> acc_ID (xs_heap s (job_to (jobs i))) \<and>
      0 \<le> sint (job_amt (jobs i))"
    then obtain i e where i: "i < n"
      and b: "transfer_body (xs_heap s) (job_from (jobs i)) (job_to (jobs i)) (job_amt (jobs i))
          = (e, xs_heap s')"
      and ne: "acc_ID (xs_heap s (job_from (jobs i))) \<noteq> acc_ID (xs_heap s (job_to (jobs i)))"
      and nn: "0 \<le> sint (job_amt (jobs i))" by blast
    have A: "job_from (jobs i) \<in> A" "job_to (jobs i) \<in> A" using assms(3) i by auto
    show ?thesis
      using xr_step.IH transfer_body_total [OF assms(2) A ne nn b]
        transfer_body_exact [OF assms(2) A ne nn _ b] by auto
  qed
qed

section \<open>Properties\<close>

text \<open>C2. Concurrent transfers never deadlock: however \<open>n\<close> goroutines running \<open>Transfer\<close>
  interleave, a run has at most \<open>5 n\<close> steps, and a state in which no goroutine can move is one
  in which every transfer has returned and every lock is free. No two goroutines are ever
  between the locks of the same account.\<close>

theorem Transfer_deadlock_free:
  assumes "xreach n jobs h0 k s"
  shows "k \<le> 5 * n \<and>
    ((\<nexists>s'. xstep n jobs s s') \<longrightarrow>
       (\<forall>i < n. \<exists>e. xs_pc s i = Returned e) \<and> (\<forall>p. xs_owner s p = None)) \<and>
    (\<forall>i < n. \<forall>j < n. held h0 (jobs i) (xs_pc s i) \<inter> held h0 (jobs j) (xs_pc s j) \<noteq> {} \<longrightarrow> i = j)"
proof (intro conjI impI)
  note inv = xreach_inv [OF assms]
  show "k \<le> 5 * n" using xreach_work [OF assms] by simp
  show "\<forall>i < n. \<forall>j < n. held h0 (jobs i) (xs_pc s i) \<inter> held h0 (jobs j) (xs_pc s j) \<noteq> {} \<longrightarrow> i = j"
    using xinv_exclusive [OF inv] by blast
  assume stuck: "\<nexists>s'. xstep n jobs s s'"
  show ret: "\<forall>i < n. \<exists>e. xs_pc s i = Returned e"
    using transfer_progress [OF inv] stuck by blast
  show "\<forall>p. xs_owner s p = None"
  proof
    fix p
    have "held h0 (jobs i) (xs_pc s i) = {}" if "i < n" for i using ret that by fastforce
    then show "xs_owner s p = None"
      using xinvD(2) [OF inv, of p] by (metis empty_iff not_None_eq)
  qed
qed

definition demo_jobs :: "nat \<Rightarrow> job" where
  "demo_jobs i = (if i = 0 then \<lparr>job_from = 0, job_to = 1, job_amt = 200\<rparr>
                  else \<lparr>job_from = 1, job_to = 0, job_amt = 50\<rparr>)"

lemma demo_crossing:
  "\<exists>s. xreach 2 demo_jobs demo_heap 1 s \<and> xs_pc s 0 = First_held \<and> xs_pc s 1 = Entry"
proof -
  let ?s = "(goto (xinit demo_heap) 0 First_held)
    \<lparr>xs_owner := (xs_owner (xinit demo_heap))(first_lock demo_heap (demo_jobs 0) \<mapsto> 0)\<rparr>"
  have "xstep 2 demo_jobs (xinit demo_heap) ?s"
    using xstep.lock_first [of 0 2 "xinit demo_heap" demo_jobs]
    by (simp add: xinit_def entry_check_def demo_heap_def demo_jobs_def NewAccount_def
        IsNegative_def)
  then have "xreach 2 demo_jobs demo_heap (Suc 0) ?s"
    by (rule xr_step [OF xr_init])
  then show ?thesis by (intro exI [of _ ?s]) (simp add: xinit_def)
qed

theorem Transfer_deadlock_free_witness:
  "\<exists>s. xreach 2 demo_jobs demo_heap 1 s \<and> xs_pc s 0 = First_held \<and> (1 :: nat) \<le> 5 * 2 \<and>
     ((\<nexists>s'. xstep 2 demo_jobs s s') \<longrightarrow> (\<forall>i < 2. \<exists>e. xs_pc s i = Returned e))"
  using demo_crossing Transfer_deadlock_free [of 2 demo_jobs demo_heap 1] by blast



end
