(* ===== verification/Payment.thy ===== *)
theory Payment
  imports Ledger
begin

text \<open>
  \<open>fintech-ledger-go/internal/idempotency\<close>, \<open>internal/payment\<close> and \<open>internal/saga\<close>: the
  idempotency-key store behind its interface, the customer-facing debit that relies on it, and
  the withdrawal saga with its compensations.
\<close>

section \<open>The idempotency store interface\<close>

record idem_rec =
  rec_Key :: string
  rec_Body :: string

text \<open>\<open>Reserve\<close> returns a stored record, ownership of the key, or \<open>ErrInProgress\<close>.\<close>

datatype reserve_out = Found idem_rec | Owned | InProgress

text \<open>What the store knows of a key.\<close>

datatype key_status = Free | Pending | Done idem_rec

text \<open>
  The contract of \<open>idempotency.Store\<close>: \<open>Reserve\<close> reports the status of the key and claims a
  free one, \<open>Complete\<close> records the result, \<open>Release\<close> frees a key that is still pending.
\<close>

locale idempotency_store =
  fixes reserve :: "'s \<Rightarrow> string \<Rightarrow> reserve_out \<times> 's"
    and complete :: "'s \<Rightarrow> string \<Rightarrow> idem_rec \<Rightarrow> 's"
    and release :: "'s \<Rightarrow> string \<Rightarrow> 's"
    and status :: "'s \<Rightarrow> string \<Rightarrow> key_status"
  assumes reserve_out: "fst (reserve s k) =
      (case status s k of Done r \<Rightarrow> Found r | Pending \<Rightarrow> InProgress | Free \<Rightarrow> Owned)"
    and status_reserve: "status (snd (reserve s k)) k' =
      (if k' = k \<and> status s k = Free then Pending else status s k')"
    and status_complete: "status (complete s k r) k' = (if k' = k then Done r else status s k')"
    and status_release: "status (release s k) k' =
      (if k' = k \<and> status s k = Pending then Free else status s k')"
begin

lemma reserve_cases:
  obtains (r_found) r s' where "reserve s k = (Found r, s')" "status s k = Done r" "status s' = status s"
  | (r_busy) s' where "reserve s k = (InProgress, s')" "status s k = Pending" "status s' = status s"
  | (r_owned) s' where "reserve s k = (Owned, s')" "status s k = Free"
      "status s' = (status s)(k := Pending)"
proof (cases "status s k")
  case Free
  then show ?thesis
    by (intro r_owned [of "snd (reserve s k)"])
      (auto simp: prod_eq_iff reserve_out fun_eq_iff status_reserve)
next
  case Pending
  then show ?thesis
    by (intro r_busy [of "snd (reserve s k)"])
      (auto simp: prod_eq_iff reserve_out fun_eq_iff status_reserve)
next
  case (Done r)
  then show ?thesis
    by (intro r_found [of r "snd (reserve s k)"])
      (auto simp: prod_eq_iff reserve_out fun_eq_iff status_reserve)
qed

lemma status_complete_fun: "status (complete s k r) = (status s)(k := Done r)"
  by (simp add: fun_eq_iff status_complete)

lemma status_release_pending: "status s k = Pending \<Longrightarrow> status (release s k) = (status s)(k := Free)"
  by (simp add: fun_eq_iff status_release)

end

section \<open>The in-memory store\<close>

record mem_store =
  ms_done :: "string \<rightharpoonup> idem_rec"
  ms_pending :: "string \<rightharpoonup> unit"

definition NewMemStore :: mem_store where
  "NewMemStore = \<lparr>ms_done = Map.empty, ms_pending = Map.empty\<rparr>"

definition mem_Reserve :: "mem_store \<Rightarrow> string \<Rightarrow> reserve_out \<times> mem_store" where
  "mem_Reserve s k =
     (case ms_done s k of
        Some r \<Rightarrow> (Found r, s)
      | None \<Rightarrow> (case ms_pending s k of
          Some _ \<Rightarrow> (InProgress, s)
        | None \<Rightarrow> (Owned, s\<lparr>ms_pending := (ms_pending s)(k \<mapsto> ())\<rparr>)))"

definition mem_Complete :: "mem_store \<Rightarrow> string \<Rightarrow> idem_rec \<Rightarrow> mem_store" where
  "mem_Complete s k r =
     s\<lparr>ms_pending := (ms_pending s)(k := None), ms_done := (ms_done s)(k \<mapsto> r)\<rparr>"

definition mem_Release :: "mem_store \<Rightarrow> string \<Rightarrow> mem_store" where
  "mem_Release s k = s\<lparr>ms_pending := (ms_pending s)(k := None)\<rparr>"

definition mem_status :: "mem_store \<Rightarrow> string \<Rightarrow> key_status" where
  "mem_status s k = (case ms_done s k of
      Some r \<Rightarrow> Done r
    | None \<Rightarrow> (case ms_pending s k of Some _ \<Rightarrow> Pending | None \<Rightarrow> Free))"

lemma mem_status_NewMemStore: "mem_status NewMemStore k = Free"
  by (simp add: mem_status_def NewMemStore_def)

interpretation mem: idempotency_store mem_Reserve mem_Complete mem_Release mem_status
  by unfold_locales
    (auto simp: mem_Reserve_def mem_Complete_def mem_Release_def mem_status_def
      split: option.splits if_splits)

section \<open>The debit API\<close>

datatype pay_err = ErrMissingIdempotencyKey | ErrUnknownAccount | ErrInProgress
  | LedgerErr ledger_err

record debit_request =
  dr_key :: string
  dr_account :: string
  dr_amount :: paise

text \<open>
  \<open>payment.Debit(ctx, store, accounts, req)\<close>. The store is an argument, as in the source; the
  account table maps IDs to pointers. The result is the response status, the store and the heap.
\<close>

definition pay_Debit ::
  "('s \<Rightarrow> string \<Rightarrow> reserve_out \<times> 's) \<Rightarrow> ('s \<Rightarrow> string \<Rightarrow> idem_rec \<Rightarrow> 's) \<Rightarrow> ('s \<Rightarrow> string \<Rightarrow> 's) \<Rightarrow>
   's \<Rightarrow> heap \<Rightarrow> (string \<rightharpoonup> ptr) \<Rightarrow> debit_request \<Rightarrow> (pay_err + string) \<times> 's \<times> heap" where
  "pay_Debit reserve complete release st h accounts req =
     (let key = dr_key req in
      if key = [] then (Inl ErrMissingIdempotencyKey, st, h)
      else (case reserve st key of
          (InProgress, st1) \<Rightarrow> (Inl ErrInProgress, st1, h)
        | (Found r, st1) \<Rightarrow> (Inr (rec_Body r), st1, h)
        | (Owned, st1) \<Rightarrow>
            (case accounts (dr_account req) of
               None \<Rightarrow> (Inl ErrUnknownAccount, release st1 key, h)
             | Some p \<Rightarrow>
                 (case Debit (h p) (dr_amount req) of
                    (Some e, _) \<Rightarrow> (Inl (LedgerErr e), release st1 key, h)
                  | (None, a) \<Rightarrow>
                      (Inr ''debited'',
                       complete st1 key \<lparr>rec_Key = key, rec_Body = ''debited''\<rparr>,
                       h(p := a))))))"

abbreviation mem_Debit where
  "mem_Debit \<equiv> pay_Debit mem_Reserve mem_Complete mem_Release"

context idempotency_store
begin

text \<open>Every branch of \<open>Debit\<close>, with what it does to the key.\<close>

lemma pay_Debit_cases:
  assumes "pay_Debit reserve complete release st h accounts req = (out, st', h')"
  obtains (nokey) "dr_key req = []" "out = Inl ErrMissingIdempotencyKey" "st' = st" "h' = h"
  | (replay) r where "dr_key req \<noteq> []" "status st (dr_key req) = Done r" "out = Inr (rec_Body r)"
      "status st' = status st" "h' = h"
  | (busy) "dr_key req \<noteq> []" "status st (dr_key req) = Pending" "out = Inl ErrInProgress"
      "status st' = status st" "h' = h"
  | (failed) e where "dr_key req \<noteq> []" "status st (dr_key req) = Free" "out = Inl e"
      "e \<noteq> ErrInProgress" "status st' = status st" "h' = h"
  | (debited) p a where "dr_key req \<noteq> []" "status st (dr_key req) = Free"
      "accounts (dr_account req) = Some p" "Debit (h p) (dr_amount req) = (None, a)"
      "out = Inr ''debited''" "h' = h(p := a)"
      "status st' = (status st)(dr_key req := Done \<lparr>rec_Key = dr_key req, rec_Body = ''debited''\<rparr>)"
proof (cases "dr_key req = []")
  case True
  with assms show ?thesis by (intro nokey) (auto simp: pay_Debit_def)
next
  case False
  note D = assms [unfolded pay_Debit_def Let_def]
  show ?thesis
  proof (cases rule: reserve_cases [of st "dr_key req"])
    case (r_found r s')
    with D False show ?thesis by (intro replay) auto
  next
    case (r_busy s')
    with D False show ?thesis by (intro busy) auto
  next
    case (r_owned s1)
    then have rel: "status (release s1 (dr_key req)) = status st"
      by (simp add: status_release_pending fun_upd_idem)
    show ?thesis
    proof (cases "accounts (dr_account req)")
      case None
      with D False r_owned rel show ?thesis by (intro failed [of ErrUnknownAccount]) auto
    next
      case (Some p)
      obtain eo a where deb: "Debit (h p) (dr_amount req) = (eo, a)"
        by (cases "Debit (h p) (dr_amount req)") auto
      show ?thesis
      proof (cases eo)
        case None
        with D False r_owned Some deb show ?thesis
          by (intro debited [of p a]) (auto simp: status_complete_fun)
      next
        case (Some e)
        with D False r_owned \<open>accounts (dr_account req) = Some p\<close> deb rel show ?thesis
          by (intro failed [of "LedgerErr e"]) auto
      qed
    qed
  qed
qed

text \<open>A completed key stays completed, with the same record, whatever requests follow.\<close>

lemma Done_stable:
  assumes "pay_Debit reserve complete release st h accounts req = (out, st', h')"
    "status st k = Done r"
  shows "status st' k = Done r"
  by (rule pay_Debit_cases [OF assms(1)]) (use assms(2) in auto)

end

section \<open>Concurrent clients\<close>

text \<open>
  The same code, cut at the calls that other goroutines can observe: \<open>Reserve\<close>, the account
  debit, and \<open>Complete\<close> or \<open>Release\<close>. \<open>ps_log\<close> records the debits applied to accounts, in
  order. A schedule is the list of clients that take a step; a client that crashes is one that
  the schedule does not name again.
\<close>

datatype client_pc = PStart | POwned | PDebited | PFailing pay_err | PFinished "pay_err + string"

record 's pay_sys =
  ps_store :: 's
  ps_heap :: heap
  ps_pc :: "nat \<Rightarrow> client_pc"
  ps_log :: "(string \<times> ptr \<times> paise) list"

definition at_pc :: "'s pay_sys \<Rightarrow> nat \<Rightarrow> client_pc \<Rightarrow> 's pay_sys" where
  "at_pc s i c = s\<lparr>ps_pc := (ps_pc s)(i := c)\<rparr>"

definition pay_step ::
  "('s \<Rightarrow> string \<Rightarrow> reserve_out \<times> 's) \<Rightarrow> ('s \<Rightarrow> string \<Rightarrow> idem_rec \<Rightarrow> 's) \<Rightarrow> ('s \<Rightarrow> string \<Rightarrow> 's) \<Rightarrow>
   (string \<rightharpoonup> ptr) \<Rightarrow> (nat \<Rightarrow> debit_request) \<Rightarrow> nat \<Rightarrow> 's pay_sys \<Rightarrow> 's pay_sys" where
  "pay_step reserve complete release accounts rq i s =
     (let key = dr_key (rq i) in
      case ps_pc s i of
        PStart \<Rightarrow>
          if key = [] then at_pc s i (PFinished (Inl ErrMissingIdempotencyKey))
          else (case reserve (ps_store s) key of
              (InProgress, st) \<Rightarrow> at_pc (s\<lparr>ps_store := st\<rparr>) i (PFinished (Inl ErrInProgress))
            | (Found r, st) \<Rightarrow> at_pc (s\<lparr>ps_store := st\<rparr>) i (PFinished (Inr (rec_Body r)))
            | (Owned, st) \<Rightarrow> at_pc (s\<lparr>ps_store := st\<rparr>) i POwned)
      | POwned \<Rightarrow>
          (case accounts (dr_account (rq i)) of
             None \<Rightarrow> at_pc s i (PFailing ErrUnknownAccount)
           | Some p \<Rightarrow>
               (case Debit (ps_heap s p) (dr_amount (rq i)) of
                  (Some e, _) \<Rightarrow> at_pc s i (PFailing (LedgerErr e))
                | (None, a) \<Rightarrow>
                    at_pc (s\<lparr>ps_heap := (ps_heap s)(p := a),
                             ps_log := ps_log s @ [(key, p, dr_amount (rq i))]\<rparr>) i PDebited))
      | PDebited \<Rightarrow>
          at_pc (s\<lparr>ps_store := complete (ps_store s) key \<lparr>rec_Key = key, rec_Body = ''debited''\<rparr>\<rparr>)
            i (PFinished (Inr ''debited''))
      | PFailing e \<Rightarrow>
          at_pc (s\<lparr>ps_store := release (ps_store s) key\<rparr>) i (PFinished (Inl e))
      | PFinished _ \<Rightarrow> s)"

definition pay_run ::
  "('s \<Rightarrow> string \<Rightarrow> reserve_out \<times> 's) \<Rightarrow> ('s \<Rightarrow> string \<Rightarrow> idem_rec \<Rightarrow> 's) \<Rightarrow> ('s \<Rightarrow> string \<Rightarrow> 's) \<Rightarrow>
   (string \<rightharpoonup> ptr) \<Rightarrow> (nat \<Rightarrow> debit_request) \<Rightarrow> nat list \<Rightarrow> 's pay_sys \<Rightarrow> 's pay_sys" where
  "pay_run reserve complete release accounts rq sched s =
     fold (pay_step reserve complete release accounts rq) sched s"

definition pay_init :: "'s \<Rightarrow> heap \<Rightarrow> 's pay_sys" where
  "pay_init st h = \<lparr>ps_store = st, ps_heap = h, ps_pc = (\<lambda>_. PStart), ps_log = []\<rparr>"

lemma pay_init_store: "ps_store (pay_init st h) = st"
  by (simp add: pay_init_def)

lemma at_pc_simps [simp]:
  "ps_store (at_pc s i c) = ps_store s" "ps_heap (at_pc s i c) = ps_heap s"
  "ps_log (at_pc s i c) = ps_log s" "ps_pc (at_pc s i c) = (ps_pc s)(i := c)"
  by (simp_all add: at_pc_def)

definition logged :: "'s pay_sys \<Rightarrow> string list" where
  "logged s = map fst (ps_log s)"

text \<open>The amount taken from account \<open>p\<close> by the logged debits.\<close>

definition taken :: "(string \<times> ptr \<times> paise) list \<Rightarrow> ptr \<Rightarrow> paise" where
  "taken l p = sum_list (map (\<lambda>(_, q, a). if q = p then a else 0) l)"

definition active :: "client_pc \<Rightarrow> bool" where
  "active c = (case c of POwned \<Rightarrow> True | PDebited \<Rightarrow> True | PFailing _ \<Rightarrow> True | _ \<Rightarrow> False)"

lemma active_simps [simp]:
  "\<not> active PStart" "active POwned" "active PDebited" "active (PFailing e)" "\<not> active (PFinished x)"
  by (simp_all add: active_def)

text \<open>The keys under which a client has debited and not yet completed.\<close>

definition debited_keys :: "(nat \<Rightarrow> debit_request) \<Rightarrow> (nat \<Rightarrow> client_pc) \<Rightarrow> string set" where
  "debited_keys rq pc = {dr_key (rq i) | i. pc i = PDebited}"

lemma debited_keys_upd:
  "pc i \<noteq> PDebited \<Longrightarrow> debited_keys rq (pc(i := c)) =
     (if c = PDebited then insert (dr_key (rq i)) (debited_keys rq pc) else debited_keys rq pc)"
  by (auto simp: debited_keys_def)

lemma debited_keys_done:
  "pc i = PDebited \<Longrightarrow> (\<And>j. pc j = PDebited \<Longrightarrow> dr_key (rq j) = dr_key (rq i) \<Longrightarrow> j = i) \<Longrightarrow>
     debited_keys rq (pc(i := PFinished x)) = debited_keys rq pc - {dr_key (rq i)}"
  unfolding debited_keys_def by (auto; metis)

text \<open>
  The invariant over the abstract status of the keys: an active client owns its key alone, a
  debit is logged for a key exactly when its owner has debited or the key is done, and a
  client that reports success holds the recorded result.
\<close>

definition pay_inv ::
  "(string \<Rightarrow> key_status) \<Rightarrow> (nat \<Rightarrow> debit_request) \<Rightarrow> 's pay_sys \<Rightarrow> bool" where
  "pay_inv \<sigma> rq s \<longleftrightarrow>
     (\<forall>i j. active (ps_pc s i) \<and> active (ps_pc s j) \<and> dr_key (rq i) = dr_key (rq j) \<longrightarrow> i = j) \<and>
     (\<forall>i. active (ps_pc s i) \<longrightarrow> \<sigma> (dr_key (rq i)) = Pending) \<and>
     distinct (logged s) \<and>
     (\<forall>k. k \<in> set (logged s) \<longleftrightarrow>
        k \<in> debited_keys rq (ps_pc s) \<or> (\<exists>r. \<sigma> k = Done r)) \<and>
     (\<forall>k r. \<sigma> k = Done r \<longrightarrow> rec_Body r = ''debited'') \<and>
     (\<forall>i b. ps_pc s i = PFinished (Inr b) \<longrightarrow>
        b = ''debited'' \<and> (\<exists>r. \<sigma> (dr_key (rq i)) = Done r))"

lemma taken_append: "taken (l @ [(k, q, a)]) p = taken l p + (if q = p then a else 0)"
  by (simp add: taken_def)

lemma Debit_ok_balance:
  "Debit a amt = (None, a') \<Longrightarrow> acc_balance a' = acc_balance a - amt"
  by (auto simp: Debit_def debit_def money_defs split: if_splits)

lemma logged_simps [simp]:
  "logged (at_pc s i c) = logged s" "logged (s\<lparr>ps_store := st\<rparr>) = logged s"
  "logged (s\<lparr>ps_heap := h, ps_log := ps_log s @ [(k, q, a)]\<rparr>) = logged s @ [k]"
  by (simp_all add: logged_def)

text \<open>The invariant across each kind of step.\<close>

lemma pay_inv_pending:
  assumes "pay_inv \<sigma> rq s" "k \<in> debited_keys rq (ps_pc s)"
  shows "\<sigma> k = Pending"
  using assms by (fastforce simp: pay_inv_def debited_keys_def)

lemma pay_inv_active: "pay_inv \<sigma> rq s \<Longrightarrow> active (ps_pc s i) \<Longrightarrow> \<sigma> (dr_key (rq i)) = Pending"
  by (simp add: pay_inv_def)

lemma pay_inv_success:
  assumes "pay_inv \<sigma> rq s" "ps_pc s j = PFinished (Inr b)" "dr_key (rq j) = k"
    "\<sigma> k = Free \<or> \<sigma> k = Pending"
  shows False
  using assms by (fastforce simp: pay_inv_def)

lemma pay_inv_owned:
  assumes "pay_inv \<sigma> rq s" "ps_pc s i = POwned"
  shows "dr_key (rq i) \<notin> debited_keys rq (ps_pc s)"
proof
  assume "dr_key (rq i) \<in> debited_keys rq (ps_pc s)"
  then obtain j where "dr_key (rq j) = dr_key (rq i)" "ps_pc s j = PDebited"
    by (auto simp: debited_keys_def)
  with assms have "j = i" by (simp add: pay_inv_def)
  with \<open>ps_pc s j = PDebited\<close> assms(2) show False by simp
qed

lemma debited_keysI: "pc i = PDebited \<Longrightarrow> dr_key (rq i) \<in> debited_keys rq pc"
  by (auto simp: debited_keys_def)

lemma pay_inv_finish:
  assumes "pay_inv \<sigma> rq s" "ps_pc s i = PStart"
    "\<And>b. x = Inr b \<Longrightarrow> \<exists>r. \<sigma> (dr_key (rq i)) = Done r \<and> b = rec_Body r"
  shows "pay_inv \<sigma> rq (at_pc (s\<lparr>ps_store := st\<rparr>) i (PFinished x))"
    and "pay_inv \<sigma> rq (at_pc s i (PFinished x))"
  using assms by (auto simp: pay_inv_def debited_keys_upd)

lemma pay_inv_own:
  assumes "pay_inv \<sigma> rq s" "ps_pc s i = PStart" "\<sigma> (dr_key (rq i)) = Free"
  shows "pay_inv (\<sigma>(dr_key (rq i) := Pending)) rq (at_pc (s\<lparr>ps_store := st\<rparr>) i POwned)"
  using assms pay_inv_pending [OF assms(1)] pay_inv_success [OF assms(1)]
  by (auto simp: pay_inv_def debited_keys_upd)

lemma pay_inv_fail:
  assumes "pay_inv \<sigma> rq s" "ps_pc s i = POwned"
  shows "pay_inv \<sigma> rq (at_pc s i (PFailing e))"
  using assms pay_inv_pending [OF assms(1)]
  by (auto simp: pay_inv_def debited_keys_upd)

lemma pay_inv_debit:
  assumes "pay_inv \<sigma> rq s" "ps_pc s i = POwned"
  shows "pay_inv \<sigma> rq (at_pc (s\<lparr>ps_heap := h, ps_log := ps_log s @ [(dr_key (rq i), q, a)]\<rparr>) i PDebited)"
  using assms pay_inv_pending [OF assms(1)] pay_inv_owned [OF assms]
  by (auto simp: pay_inv_def debited_keys_upd)

lemma pay_inv_complete:
  assumes "pay_inv \<sigma> rq s" "ps_pc s i = PDebited"
  shows "pay_inv (\<sigma>(dr_key (rq i) := Done \<lparr>rec_Key = k, rec_Body = ''debited''\<rparr>)) rq
    (at_pc (s\<lparr>ps_store := st\<rparr>) i (PFinished (Inr ''debited'')))"
  using assms debited_keysI [of "ps_pc s" i rq] by (auto simp: pay_inv_def debited_keys_done)

lemma pay_inv_release:
  assumes "pay_inv \<sigma> rq s" "ps_pc s i = PFailing e"
  shows "pay_inv (\<sigma>(dr_key (rq i) := Free)) rq (at_pc (s\<lparr>ps_store := st\<rparr>) i (PFinished (Inl e)))"
proof -
  have "\<sigma> (dr_key (rq i)) = Pending"
    using assms by (simp add: pay_inv_active)
  then have "ps_pc s j \<noteq> PFinished (Inr b)" if "dr_key (rq j) = dr_key (rq i)" for j b
    using pay_inv_success [OF assms(1)] that by blast
  with assms pay_inv_pending [OF assms(1)] show ?thesis
    by (auto simp: pay_inv_def debited_keys_upd)
qed

context idempotency_store
begin

lemma pay_step_inv:
  assumes "pay_inv (status (ps_store s)) rq s"
  shows "pay_inv (status (ps_store (pay_step reserve complete release accounts rq i s))) rq
    (pay_step reserve complete release accounts rq i s)"
proof (cases "ps_pc s i")
  case PStart
  show ?thesis
  proof (cases rule: reserve_cases [of "ps_store s" "dr_key (rq i)"])
    case (r_owned st)
    have nokey: "pay_inv (status (ps_store s)) rq (at_pc s i (PFinished (Inl e)))" for e
      by (rule pay_inv_finish(2) [OF assms PStart]) simp
    have own: "pay_inv (status st) rq (at_pc (s\<lparr>ps_store := st\<rparr>) i POwned)"
      using pay_inv_own [OF assms PStart r_owned(2)] r_owned(3) by simp
    from PStart r_owned(1) nokey own show ?thesis
      by (simp add: pay_step_def Let_def)
  qed (use PStart in \<open>auto simp: pay_step_def Let_def intro!: pay_inv_finish [OF assms]\<close>)
next
  case POwned
  show ?thesis
    using pay_inv_fail [OF assms POwned] pay_inv_debit [OF assms POwned] POwned
    by (auto simp: pay_step_def Let_def split: option.splits prod.splits)
next
  case PDebited
  then show ?thesis
    using pay_inv_complete [OF assms PDebited]
    by (simp add: pay_step_def Let_def status_complete_fun)
next
  case (PFailing e)
  with assms have "status (ps_store s) (dr_key (rq i)) = Pending"
    by (simp add: pay_inv_def)
  with PFailing show ?thesis
    using pay_inv_release [OF assms PFailing]
    by (simp add: pay_step_def Let_def status_release_pending)
next
  case (PFinished x)
  with assms show ?thesis by (simp add: pay_step_def)
qed

lemma pay_step_balance:
  assumes "\<forall>p. acc_balance (ps_heap s p) + taken (ps_log s) p = b p"
  shows "\<forall>p. acc_balance (ps_heap (pay_step reserve complete release accounts rq i s) p) +
    taken (ps_log (pay_step reserve complete release accounts rq i s)) p = b p"
  using assms
  by (auto simp: pay_step_def Let_def taken_append dest: Debit_ok_balance
      split: client_pc.splits option.splits prod.splits reserve_out.splits)

lemma pay_run_inv:
  "pay_inv (status (ps_store s)) rq s \<Longrightarrow>
   pay_inv (status (ps_store (pay_run reserve complete release accounts rq sched s))) rq
     (pay_run reserve complete release accounts rq sched s)"
  unfolding pay_run_def by (induction sched arbitrary: s) (simp_all add: pay_step_inv)

lemma pay_run_balance:
  "\<forall>p. acc_balance (ps_heap s p) + taken (ps_log s) p = b p \<Longrightarrow>
   \<forall>p. acc_balance (ps_heap (pay_run reserve complete release accounts rq sched s) p) +
     taken (ps_log (pay_run reserve complete release accounts rq sched s)) p = b p"
  unfolding pay_run_def
proof (induction sched arbitrary: s)
  case (Cons i sched)
  show ?case
    using Cons.IH [OF pay_step_balance [OF Cons.prems]] by simp
qed simp

lemma pay_init_inv: "(\<And>k. status st k = Free) \<Longrightarrow> pay_inv (status st) rq (pay_init st h)"
  by (simp add: pay_inv_def pay_init_def logged_def debited_keys_def)

text \<open>Running one client to its end is the sequential \<open>Debit\<close>.\<close>

lemma pay_run_alone:
  assumes "ps_pc s i = PStart"
    "pay_Debit reserve complete release (ps_store s) (ps_heap s) accounts (rq i) = (out, st', h')"
  shows "let s' = pay_run reserve complete release accounts rq [i, i, i] s in
    ps_store s' = st' \<and> ps_heap s' = h' \<and> ps_pc s' = (ps_pc s)(i := PFinished out)"
proof (cases "dr_key (rq i) = []")
  case True
  with assms show ?thesis by (simp add: pay_run_def pay_step_def pay_Debit_def Let_def)
next
  case False
  note simps = pay_run_def pay_step_def pay_Debit_def Let_def at_pc_def
  obtain ro st1 where r: "reserve (ps_store s) (dr_key (rq i)) = (ro, st1)" by fastforce
  show ?thesis
  proof (cases ro)
    case Owned
    show ?thesis
    proof (cases "accounts (dr_account (rq i))")
      case None
      with assms False r Owned show ?thesis by (simp add: simps)
    next
      case (Some p)
      obtain eo a where deb: "Debit (ps_heap s p) (dr_amount (rq i)) = (eo, a)" by fastforce
      with assms False r Owned Some show ?thesis by (cases eo) (simp_all add: simps)
    qed
  qed (use assms False r in \<open>simp_all add: simps\<close>)
qed

end

section \<open>The withdrawal saga\<close>

text \<open>
  \<open>BankClient\<close> is an interface with no implementation in the repository: its two calls are
  arguments. The saga's state is the wallet account and the bank's state.
\<close>

datatype 'e saga_cause = WalletErr ledger_err | BankErr 'e

datatype 'e saga_err =
    RolledBack string "'e saga_cause"
  | CompensationFailed string "'e saga_cause" string "'e saga_cause"

record ('b, 'e) saga_step =
  step_name :: string
  step_do :: "account \<times> 'b \<Rightarrow> 'e saga_cause option \<times> account \<times> 'b"
  step_compensate :: "account \<times> 'b \<Rightarrow> 'e saga_cause option \<times> account \<times> 'b"

text \<open>The inner loop: compensate the completed steps, the latest first, until one fails.\<close>

fun compensate_all :: "('b, 'e) saga_step list \<Rightarrow> account \<times> 'b \<Rightarrow>
    (string \<times> 'e saga_cause) option \<times> account \<times> 'b" where
  "compensate_all [] w = (None, w)"
| "compensate_all (c # cs) w =
     (case step_compensate c w of
        (Some e, w') \<Rightarrow> (Some (step_name c, e), w')
      | (None, w') \<Rightarrow> compensate_all cs w')"

text \<open>The outer loop; \<open>completed\<close> is the stack of completed steps, the latest first.\<close>

fun run_steps :: "('b, 'e) saga_step list \<Rightarrow> ('b, 'e) saga_step list \<Rightarrow> account \<times> 'b \<Rightarrow>
    'e saga_err option \<times> account \<times> 'b" where
  "run_steps completed [] w = (None, w)"
| "run_steps completed (st # sts) w =
     (case step_do st w of
        (Some e, w1) \<Rightarrow>
          (case compensate_all completed w1 of
             (Some (cn, ce), w2) \<Rightarrow> (Some (CompensationFailed (step_name st) e cn ce), w2)
           | (None, w2) \<Rightarrow> (Some (RolledBack (step_name st) e), w2))
      | (None, w1) \<Rightarrow> run_steps (st # completed) sts w1)"

definition withdraw_steps ::
  "('b \<Rightarrow> string \<Rightarrow> string \<Rightarrow> paise \<Rightarrow> 'e option \<times> 'b) \<Rightarrow> ('b \<Rightarrow> string \<Rightarrow> 'e option \<times> 'b) \<Rightarrow>
   string \<Rightarrow> string \<Rightarrow> paise \<Rightarrow> ('b, 'e) saga_step list" where
  "withdraw_steps Payout ReversePayout key bankAccountNo amt =
     [\<lparr>step_name = ''debit_wallet'',
       step_do = (\<lambda>(a, b). case Debit a amt of (e, a') \<Rightarrow> (map_option WalletErr e, a', b)),
       step_compensate = (\<lambda>(a, b). case Credit a amt of (e, a') \<Rightarrow> (map_option WalletErr e, a', b))\<rparr>,
      \<lparr>step_name = ''payout_to_bank'',
       step_do = (\<lambda>(a, b). case Payout b key bankAccountNo amt of (e, b') \<Rightarrow> (map_option BankErr e, a, b')),
       step_compensate = (\<lambda>(a, b). case ReversePayout b key of (e, b') \<Rightarrow> (map_option BankErr e, a, b'))\<rparr>]"

definition WithdrawToBank ::
  "('b \<Rightarrow> string \<Rightarrow> string \<Rightarrow> paise \<Rightarrow> 'e option \<times> 'b) \<Rightarrow> ('b \<Rightarrow> string \<Rightarrow> 'e option \<times> 'b) \<Rightarrow>
   account \<Rightarrow> 'b \<Rightarrow> string \<Rightarrow> string \<Rightarrow> paise \<Rightarrow> 'e saga_err option \<times> account \<times> 'b" where
  "WithdrawToBank Payout ReversePayout acc bank key bankAccountNo amt =
     run_steps [] (withdraw_steps Payout ReversePayout key bankAccountNo amt) (acc, bank)"

lemma Debit_then_Credit: "Debit a amt = (None, a') \<Longrightarrow> Credit a' amt = (None, a)"
  by (auto simp: Debit_def Credit_def debit_def credit_def money_defs split: if_splits)

lemma Debit_err_unchanged: "Debit a amt = (Some e, a') \<Longrightarrow> a' = a"
  by (auto simp: Debit_def debit_def split: if_splits)

section \<open>Properties\<close>

text \<open>Requests served one after the other.\<close>

fun mem_Debits :: "mem_store \<Rightarrow> heap \<Rightarrow> (string \<rightharpoonup> ptr) \<Rightarrow> debit_request list \<Rightarrow> mem_store \<times> heap" where
  "mem_Debits st h accounts [] = (st, h)"
| "mem_Debits st h accounts (r # rs) =
     (case mem_Debit st h accounts r of (_, st', h') \<Rightarrow> mem_Debits st' h' accounts rs)"

lemma mem_Debits_Done:
  "mem_Debits st h accounts reqs = (st', h') \<Longrightarrow> mem_status st k = Done r \<Longrightarrow>
   mem_status st' k = Done r"
  by (induction st h accounts reqs rule: mem_Debits.induct)
    (auto split: prod.splits dest: mem.Done_stable)

lemma mem_Debit_replay:
  assumes "mem_status st (dr_key req) = Done r" "dr_key req \<noteq> []"
  shows "mem_Debit st h accounts req = (Inr (rec_Body r), st, h)"
  using assms by (auto simp: pay_Debit_def mem_Reserve_def mem_status_def Let_def
      split: option.splits)

text \<open>C4. Exactly one debit per idempotency key, however the requests of any number of
  concurrent clients interleave and wherever some of them crash: the debits applied to the
  accounts are logged under distinct keys, every balance is the initial one minus the logged
  amounts, and a client is told "debited" only when a debit is logged under its key.\<close>

theorem Debit_once_per_key:
  "let s = pay_run mem_Reserve mem_Complete mem_Release accounts rq sched (pay_init NewMemStore h)
   in distinct (logged s) \<and>
      (\<forall>p. acc_balance (ps_heap s p) = acc_balance (h p) - taken (ps_log s) p) \<and>
      (\<forall>i b. ps_pc s i = PFinished (Inr b) \<longrightarrow> b = ''debited'' \<and> dr_key (rq i) \<in> set (logged s))"
proof -
  let ?s = "pay_run mem_Reserve mem_Complete mem_Release accounts rq sched (pay_init NewMemStore h)"
  have "pay_inv (mem_status (ps_store ?s)) rq ?s"
    by (intro mem.pay_run_inv) (simp add: pay_init_store mem.pay_init_inv mem_status_NewMemStore)
  moreover have "\<forall>p. acc_balance (ps_heap ?s p) + taken (ps_log ?s) p = acc_balance (h p)"
    by (intro mem.pay_run_balance) (simp add: pay_init_def taken_def)
  ultimately show ?thesis
    by (auto simp: Let_def pay_inv_def eq_diff_eq)
qed

definition demo_request :: debit_request where
  "demo_request = \<lparr>dr_key = ''k1'', dr_account = ''alice'', dr_amount = 200\<rparr>"

lemma demo_retry_run:
  "let s = pay_run mem_Reserve mem_Complete mem_Release [''alice'' \<mapsto> 0] (\<lambda>_. demo_request)
       [0, 1, 0, 0, 2] (pay_init NewMemStore demo_heap)
   in ps_pc s 0 = PFinished (Inr ''debited'') \<and> ps_pc s 1 = PFinished (Inl ErrInProgress) \<and>
      ps_pc s 2 = PFinished (Inr ''debited'') \<and> acc_balance (ps_heap s 0) = 300"
  by (simp add: pay_run_def pay_step_def pay_init_def at_pc_def demo_request_def demo_heap_def
      NewAccount_def NewMemStore_def mem_Reserve_def mem_Complete_def mem_Release_def Debit_def
      debit_def money_defs Let_def)

theorem Debit_once_per_key_witness:
  "let s = pay_run mem_Reserve mem_Complete mem_Release [''alice'' \<mapsto> 0] (\<lambda>_. demo_request)
       [0, 1, 0, 0, 2] (pay_init NewMemStore demo_heap)
   in ps_pc s 0 = PFinished (Inr ''debited'') \<and> ps_pc s 2 = PFinished (Inr ''debited'') \<and>
      ''k1'' \<in> set (logged s) \<and> distinct (logged s) \<and> acc_balance (ps_heap s 0) = 300"
  using Debit_once_per_key [of "[''alice'' \<mapsto> 0]" "\<lambda>_. demo_request" "[0, 1, 0, 0, 2]" demo_heap]
    demo_retry_run
  by (auto simp: Let_def demo_request_def)

text \<open>A retry replays the stored result: once a request has succeeded, any later request
  with the same key, after any other requests, gets the same status and changes neither an
  account nor the store; and a request that fails leaves every account and the state of every
  key as it was, so the key can be used again.\<close>

theorem Debit_replay:
  assumes "mem_Debit st h accounts req = (out, st1, h1)"
  shows "(\<forall>e. out = Inl e \<longrightarrow> h1 = h \<and> mem_status st1 = mem_status st) \<and>
    (\<forall>b reqs st2 h2 h3 accounts' req'. out = Inr b \<longrightarrow> mem_Debits st1 h1 accounts reqs = (st2, h2) \<longrightarrow>
       dr_key req' = dr_key req \<longrightarrow> mem_Debit st2 h3 accounts' req' = (Inr b, st2, h3))"
proof (rule conjI; intro allI impI)
  fix e assume "out = Inl e"
  with assms show "h1 = h \<and> mem_status st1 = mem_status st"
    by (elim mem.pay_Debit_cases) auto
next
  fix b reqs st2 h2 h3 accounts' and req' :: debit_request
  assume b: "out = Inr b" and run: "mem_Debits st1 h1 accounts reqs = (st2, h2)"
    and key: "dr_key req' = dr_key req"
  have "\<exists>r. mem_status st1 (dr_key req) = Done r \<and> b = rec_Body r \<and> dr_key req \<noteq> []"
    using assms b by (elim mem.pay_Debit_cases) auto
  then show "mem_Debit st2 h3 accounts' req' = (Inr b, st2, h3)"
    using mem_Debits_Done [OF run] key by (auto simp: mem_Debit_replay)
qed

lemma demo_debit:
  "mem_Debit NewMemStore demo_heap [''alice'' \<mapsto> 0] demo_request =
     (Inr ''debited'',
      \<lparr>ms_done = [''k1'' \<mapsto> \<lparr>rec_Key = ''k1'', rec_Body = ''debited''\<rparr>], ms_pending = Map.empty\<rparr>,
      demo_heap(0 := NewAccount ''alice'' 300))"
  by (simp add: pay_Debit_def demo_request_def demo_heap_def NewAccount_def NewMemStore_def
      mem_Reserve_def mem_Complete_def Debit_def debit_def money_defs Let_def)

theorem Debit_replay_witness:
  "mem_Debit (fst (snd (mem_Debit NewMemStore demo_heap [''alice'' \<mapsto> 0] demo_request)))
      demo_heap [''alice'' \<mapsto> 0] demo_request =
   (Inr ''debited'', fst (snd (mem_Debit NewMemStore demo_heap [''alice'' \<mapsto> 0] demo_request)),
    demo_heap)"
  unfolding demo_debit fst_conv snd_conv
  by (rule conjunct2 [OF Debit_replay [OF demo_debit], rule_format, OF refl mem_Debits.simps(1) refl])

text \<open>C5. The withdrawal saga never loses money, whatever the bank answers: it returns nil
  exactly when the wallet has been debited and the payout accepted; when the wallet debit is
  refused neither side is touched; when the payout fails the wallet is exactly as before; and a
  payout that failed is never reversed, so compensation cannot itself fail.\<close>

theorem WithdrawToBank_atomic:
  "WithdrawToBank Payout ReversePayout acc bank key no amt =
     (case Debit acc amt of
        (Some e, _) \<Rightarrow> (Some (RolledBack ''debit_wallet'' (WalletErr e)), acc, bank)
      | (None, acc') \<Rightarrow>
          (case Payout bank key no amt of
             (Some e, bank') \<Rightarrow> (Some (RolledBack ''payout_to_bank'' (BankErr e)), acc, bank')
           | (None, bank') \<Rightarrow> (None, acc', bank')))"
  by (auto simp: WithdrawToBank_def withdraw_steps_def Debit_then_Credit Debit_err_unchanged
      split: prod.splits option.splits)

end
