(* ===== verification/Ledger_Services.thy ===== *)
theory Ledger_Services
  imports Ledger
begin

text \<open>
  The services around the ledger in \<open>fintech-ledger-go/internal\<close>: the bounded retry of
  \<open>gateway/client.go\<close>, the single-owner shards of \<open>partition/shard.go\<close> and the reconciliation
  worker pool of \<open>reconciliation/worker.go\<close>.
\<close>

section \<open>Retrying a gateway call\<close>

text \<open>Go error values as far as \<open>errors.As\<close> looks into them.\<close>

datatype 'e gerr =
    Plain 'e
  | CtxErr
  | ErrMaxRetriesExceeded
  | Retryable "'e gerr"
  | Joined "'e gerr list"

fun isRetryable :: "'e gerr \<Rightarrow> bool" where
  "isRetryable (Retryable e) = True"
| "isRetryable (Joined es) = list_ex isRetryable es"
| "isRetryable e = False"

record retry_config =
  MaxAttempts :: i64
  BaseDelay :: i64
  MaxDelay :: i64

definition DefaultRetryConfig :: retry_config where
  "DefaultRetryConfig = \<lparr>MaxAttempts = 5, BaseDelay = 200 * 1000000, MaxDelay = 5 * 1000000000\<rparr>"

text \<open>
  \<open>d := cfg.BaseDelay << uint(attempt-1)\<close>, capped. A shift by 64 or more gives 0, as in Go.
\<close>

definition backoff_cap :: "retry_config \<Rightarrow> nat \<Rightarrow> i64" where
  "backoff_cap cfg attempt =
     (let d = push_bit (attempt - 1) (BaseDelay cfg) in
      if sint d \<le> 0 \<or> sint d > sint (MaxDelay cfg) then MaxDelay cfg else d)"

text \<open>
  \<open>d/2 + rand.Int63n(d/2+1)\<close>: \<open>rnd\<close> is the random source, and \<open>Int63n\<close> panics (\<open>None\<close>) when its
  argument is not positive.
\<close>

definition backoff :: "(i64 \<Rightarrow> i64) \<Rightarrow> retry_config \<Rightarrow> nat \<Rightarrow> i64 option" where
  "backoff rnd cfg attempt =
     (let half = word_of_int (tdiv (sint (backoff_cap cfg attempt)) 2) :: i64 in
      if sint (half + 1) \<le> 0 then None else Some (half + rnd (half + 1)))"

text \<open>
  The loop of \<open>CallWithRetry\<close>; \<open>n\<close> attempts are left. The call is stateful. \<open>cancelled k\<close> tells
  that the select before attempt \<open>k\<close> took the \<open>ctx.Done()\<close> branch.
\<close>

fun retry_loop :: "(nat \<Rightarrow> bool) \<Rightarrow> ('s \<Rightarrow> 'e gerr option \<times> 's) \<Rightarrow> nat \<Rightarrow> nat \<Rightarrow> 'e gerr option \<Rightarrow> 's \<Rightarrow>
    'e gerr option \<times> 's" where
  "retry_loop cancelled call 0 attempt lastErr s =
     (Some (Joined (ErrMaxRetriesExceeded # (case lastErr of None \<Rightarrow> [] | Some e \<Rightarrow> [e]))), s)"
| "retry_loop cancelled call (Suc n) attempt lastErr s =
     (if attempt > 0 \<and> cancelled attempt then (Some CtxErr, s)
      else (case call s of
          (None, s') \<Rightarrow> (None, s')
        | (Some e, s') \<Rightarrow>
            if \<not> isRetryable e then (Some e, s')
            else retry_loop cancelled call n (attempt + 1) (Some e) s'))"

definition CallWithRetry :: "(nat \<Rightarrow> bool) \<Rightarrow> retry_config \<Rightarrow> ('s \<Rightarrow> 'e gerr option \<times> 's) \<Rightarrow> 's \<Rightarrow>
    'e gerr option \<times> 's" where
  "CallWithRetry cancelled cfg call s =
     retry_loop cancelled call (nat (sint (MaxAttempts cfg))) 0 None s"

text \<open>The state after \<open>k\<close> calls and the result of the call made in it.\<close>

fun after_calls :: "('s \<Rightarrow> 'e gerr option \<times> 's) \<Rightarrow> nat \<Rightarrow> 's \<Rightarrow> 's" where
  "after_calls call 0 s = s"
| "after_calls call (Suc k) s = after_calls call k (snd (call s))"

definition call_result :: "('s \<Rightarrow> 'e gerr option \<times> 's) \<Rightarrow> nat \<Rightarrow> 's \<Rightarrow> 'e gerr option" where
  "call_result call k s = fst (call (after_calls call k s))"

lemma call_result_0 [simp]: "call_result call 0 s = fst (call s)"
  by (simp add: call_result_def)

lemma call_result_Suc [simp]: "call_result call (Suc k) s = call_result call k (snd (call s))"
  by (simp add: call_result_def)

definition transient :: "'e gerr option \<Rightarrow> bool" where
  "transient r = (case r of Some e \<Rightarrow> isRetryable e | None \<Rightarrow> False)"

lemma retry_loop_bounded:
  "\<exists>k \<le> n. snd (retry_loop cancelled call n attempt l s) = after_calls call k s"
proof (induction n arbitrary: attempt l s)
  case (Suc n)
  obtain r s' where c: "call s = (r, s')" by fastforce
  have one: "snd (call s) = after_calls call 1 s" by simp
  obtain k where "k \<le> n" "snd (retry_loop cancelled call n (attempt + 1) r s') = after_calls call k s'"
    using Suc.IH by blast
  then have "Suc k \<le> Suc n \<and> snd (retry_loop cancelled call n (attempt + 1) r s') = after_calls call (Suc k) s"
    using c by simp
  then show ?case
    using c one by (cases r) (auto intro: exI [of _ 0] exI [of _ 1] exI [of _ "Suc k"])
qed simp

lemma retry_loop_stops:
  assumes "k < n" "\<And>j. j < k \<Longrightarrow> transient (call_result call j s)"
    "\<And>j. 0 < attempt + j \<Longrightarrow> j \<le> k \<Longrightarrow> \<not> cancelled (attempt + j)"
    "\<not> transient (call_result call k s)"
  shows "retry_loop cancelled call n attempt l s = (call_result call k s, after_calls call (Suc k) s)"
  using assms
proof (induction k arbitrary: n attempt l s)
  case 0
  then obtain m where "n = Suc m" by (cases n) auto
  with 0 show ?case by (auto simp: transient_def split: prod.splits option.splits)
next
  case (Suc k)
  then obtain m where n: "n = Suc m" by (cases n) auto
  obtain e s' where c: "call s = (Some e, s')" "isRetryable e"
    using Suc.prems(2) [of 0] by (cases "call s") (auto simp: transient_def split: option.splits)
  have "retry_loop cancelled call m (attempt + 1) (Some e) s' =
      (call_result call k s', after_calls call (Suc k) s')"
  proof (rule Suc.IH)
    show "transient (call_result call j s')" if "j < k" for j
      using Suc.prems(2) [of "Suc j"] that c by simp
    show "\<not> cancelled (attempt + 1 + j)" if "j \<le> k" for j
      using Suc.prems(3) [of "Suc j"] that by simp
  qed (use Suc.prems n c in auto)
  with c n Suc.prems(3) [of 0] show ?case by auto
qed

lemma retry_loop_exhausts:
  assumes "\<And>j. j < n \<Longrightarrow> transient (call_result call j s)"
    "\<And>j. 0 < attempt + j \<Longrightarrow> j < n \<Longrightarrow> \<not> cancelled (attempt + j)"
  shows "retry_loop cancelled call n attempt l s =
    (Some (Joined (ErrMaxRetriesExceeded #
       (case (if n = 0 then l else call_result call (n - 1) s) of None \<Rightarrow> [] | Some e \<Rightarrow> [e]))),
     after_calls call n s)"
  using assms
proof (induction n arbitrary: attempt l s)
  case (Suc n)
  obtain e s' where c: "call s = (Some e, s')" "isRetryable e"
    using Suc.prems(1) [of 0] by (cases "call s") (auto simp: transient_def split: option.splits)
  have "\<And>j. j < n \<Longrightarrow> transient (call_result call j s')"
    using Suc.prems(1) [of "Suc j" for j] c by auto
  moreover have "\<And>j. j < n \<Longrightarrow> \<not> cancelled (attempt + 1 + j)"
    using Suc.prems(2) [of "Suc j" for j] by auto
  ultimately have "retry_loop cancelled call n (attempt + 1) (Some e) s' =
      (Some (Joined (ErrMaxRetriesExceeded #
         (case (if n = 0 then Some e else call_result call (n - 1) s') of None \<Rightarrow> [] | Some e \<Rightarrow> [e]))),
       after_calls call n s')"
    by (rule Suc.IH) auto
  with c Suc.prems(2) [of 0] show ?case by (cases n) auto
qed simp

section \<open>Single-owner shards\<close>

text \<open>
  A shard's accounts are a map from IDs to pointers; a command is an account ID and a function
  on the account. \<open>run\<close> takes the commands off the channel one at a time, whoever sent them, so
  the shard is a fold over the order of arrival. The answers are in the same order: \<open>None\<close> is nil.
\<close>

datatype shard_err = ErrUnknownAccount

type_synonym shard = "string \<rightharpoonup> ptr"
type_synonym command = "string \<times> (account \<Rightarrow> account)"

definition NewShard :: "heap \<Rightarrow> ptr list \<Rightarrow> shard" where
  "NewShard h ps = foldl (\<lambda>m p. m(acc_ID (h p) \<mapsto> p)) Map.empty ps"

definition shard_exec :: "shard \<Rightarrow> command \<Rightarrow> heap \<Rightarrow> shard_err option \<times> heap" where
  "shard_exec sh cmd h =
     (case sh (fst cmd) of
        None \<Rightarrow> (Some ErrUnknownAccount, h)
      | Some p \<Rightarrow> (None, h(p := snd cmd (h p))))"

fun shard_run :: "shard \<Rightarrow> command list \<Rightarrow> heap \<Rightarrow> shard_err option list \<times> heap" where
  "shard_run sh [] h = ([], h)"
| "shard_run sh (c # cs) h =
     (case shard_exec sh c h of (e, h1) \<Rightarrow>
        (case shard_run sh cs h1 of (es, h2) \<Rightarrow> (e # es, h2)))"

text \<open>\<open>r.shards[h.Sum32() % uint32(len(r.shards))]\<close>; an empty ring panics.\<close>

definition ShardFor :: "shard list \<Rightarrow> string \<Rightarrow> shard option" where
  "ShardFor shards accountID =
     (if shards = [] then None else Some (shards ! fnv_index accountID (length shards)))"

text \<open>A command sent through the ring, as a client does it.\<close>

definition ring_Do :: "shard list \<Rightarrow> command \<Rightarrow> heap \<Rightarrow> shard_err option \<times> heap" where
  "ring_Do shards cmd h =
     (case ShardFor shards (fst cmd) of None \<Rightarrow> (Some ErrUnknownAccount, h) | Some sh \<Rightarrow> shard_exec sh cmd h)"

lemma foldl_upd_ids:
  "foldl (\<lambda>m p. m(f p \<mapsto> p)) m0 ps k = Some q \<Longrightarrow> (q \<in> set ps \<and> f q = k) \<or> m0 k = Some q"
  by (induction ps rule: rev_induct) (auto split: if_splits)

lemma foldl_upd_dom: "dom (foldl (\<lambda>m p. m(f p \<mapsto> p)) m0 ps) = f ` set ps \<union> dom m0"
  by (induction ps arbitrary: m0) auto

lemma NewShard_ids: "NewShard h ps k = Some p \<Longrightarrow> p \<in> set ps \<and> acc_ID (h p) = k"
  unfolding NewShard_def by (drule foldl_upd_ids) simp

lemma NewShard_dom: "dom (NewShard h ps) = (\<lambda>p. acc_ID (h p)) ` set ps"
  by (simp add: NewShard_def foldl_upd_dom)

text \<open>
  The fleet's partition: every account is handed to the shard its ID hashes to.
\<close>

definition owned_by :: "heap \<Rightarrow> ptr list \<Rightarrow> nat \<Rightarrow> nat \<Rightarrow> ptr list" where
  "owned_by h ps n i = filter (\<lambda>p. fnv_index (acc_ID (h p)) n = i) ps"

definition fleet :: "heap \<Rightarrow> ptr list \<Rightarrow> nat \<Rightarrow> shard list" where
  "fleet h ps n = map (\<lambda>i. NewShard h (owned_by h ps n i)) [0..<n]"

lemma fleet_shard:
  assumes "0 < n" "n < 2 ^ 32"
  shows "ShardFor (fleet h ps n) k = Some (NewShard h (owned_by h ps n (fnv_index k n)))"
  using assms fnv_index_less [of n k] by (simp add: ShardFor_def fleet_def upt_conv_Nil)

lemma fleet_owner:
  assumes "0 < n" "n < 2 ^ 32" "i < n" "(fleet h ps n ! i) k = Some p"
  shows "i = fnv_index k n" "p \<in> set ps" "acc_ID (h p) = k"
  using assms NewShard_ids [of h "owned_by h ps n i" k p] by (auto simp: fleet_def owned_by_def)

section \<open>The reconciliation worker pool\<close>

record transaction =
  tx_ID :: string
  tx_Amount :: i64

text \<open>\<open>Result\<close>: the transaction's ID and its error (\<open>None\<close> is nil).\<close>

type_synonym 'e rec_result = "string \<times> 'e option"

datatype 'e worker = Idle | Busy transaction | Sending "'e rec_result" | Exited

text \<open>
  The goroutines of \<open>Reconcile\<close>: the feeder with the transactions it has still to send on the
  unbuffered \<open>jobs\<close> channel, the workers, and the collector that appends to \<open>out\<close>. \<open>r_cancel\<close>
  is \<open>ctx.Err() != nil\<close>.
\<close>

record 'e rsys =
  r_todo :: "transaction list"
  r_closed :: bool
  r_work :: "nat \<Rightarrow> 'e worker"
  r_cancel :: bool
  r_out :: "'e rec_result list"

definition put_worker :: "'e rsys \<Rightarrow> nat \<Rightarrow> 'e worker \<Rightarrow> 'e rsys" where
  "put_worker s i w = s\<lparr>r_work := (r_work s)(i := w)\<rparr>"

text \<open>\<open>process t e\<close>: the callback may answer \<open>e\<close> for \<open>t\<close>. \<open>cerr\<close> is \<open>ctx.Err()\<close>.\<close>

inductive rstep :: "nat \<Rightarrow> (transaction \<Rightarrow> 'e option \<Rightarrow> bool) \<Rightarrow> 'e \<Rightarrow> 'e rsys \<Rightarrow> 'e rsys \<Rightarrow> bool"
  for n process cerr where
  hand: "i < n \<Longrightarrow> r_work s i = Idle \<Longrightarrow> \<not> r_closed s \<Longrightarrow> r_todo s = t # ts \<Longrightarrow>
    rstep n process cerr s (put_worker (s\<lparr>r_todo := ts\<rparr>) i (Busy t))"
| feeder_done: "\<not> r_closed s \<Longrightarrow> r_todo s = [] \<Longrightarrow> rstep n process cerr s (s\<lparr>r_closed := True\<rparr>)"
| feeder_cancel: "\<not> r_closed s \<Longrightarrow> r_todo s \<noteq> [] \<Longrightarrow> r_cancel s \<Longrightarrow>
    rstep n process cerr s (s\<lparr>r_closed := True\<rparr>)"
| skip: "i < n \<Longrightarrow> r_work s i = Busy t \<Longrightarrow> r_cancel s \<Longrightarrow>
    rstep n process cerr s (put_worker s i (Sending (tx_ID t, Some cerr)))"
| work: "i < n \<Longrightarrow> r_work s i = Busy t \<Longrightarrow> \<not> r_cancel s \<Longrightarrow> process t e \<Longrightarrow>
    rstep n process cerr s (put_worker s i (Sending (tx_ID t, e)))"
| collect: "i < n \<Longrightarrow> r_work s i = Sending r \<Longrightarrow>
    rstep n process cerr s (put_worker (s\<lparr>r_out := r_out s @ [r]\<rparr>) i Idle)"
| exit: "i < n \<Longrightarrow> r_work s i = Idle \<Longrightarrow> r_closed s \<Longrightarrow>
    rstep n process cerr s (put_worker s i Exited)"

text \<open>\<open>Reconcile\<close> with \<open>workers < 1\<close> starts one worker.\<close>

definition pool_size :: "int \<Rightarrow> nat" where
  "pool_size workers = (if workers < 1 then 1 else nat workers)"

definition rinit :: "transaction list \<Rightarrow> 'e rsys" where
  "rinit txns = \<lparr>r_todo = txns, r_closed = False, r_work = (\<lambda>_. Idle), r_cancel = False, r_out = []\<rparr>"

text \<open>Runs of the pool; the context may be cancelled between any two steps.\<close>

inductive rreach :: "nat \<Rightarrow> (transaction \<Rightarrow> 'e option \<Rightarrow> bool) \<Rightarrow> 'e \<Rightarrow> transaction list \<Rightarrow> 'e rsys \<Rightarrow> bool"
  for n process cerr txns where
  start: "rreach n process cerr txns (rinit txns)"
| step: "rreach n process cerr txns s \<Longrightarrow> rstep n process cerr s s' \<Longrightarrow> rreach n process cerr txns s'"
| cancel: "rreach n process cerr txns s \<Longrightarrow> rreach n process cerr txns (s\<lparr>r_cancel := True\<rparr>)"

text \<open>The collector's loop ends, and \<open>Reconcile\<close> returns \<open>out\<close>, when every worker has exited.\<close>

definition rfinished :: "nat \<Rightarrow> 'e rsys \<Rightarrow> bool" where
  "rfinished n s \<longleftrightarrow> (\<forall>i < n. r_work s i = Exited)"

text \<open>The transaction IDs a worker holds.\<close>

fun in_hand :: "'e worker \<Rightarrow> string multiset" where
  "in_hand (Busy t) = {#tx_ID t#}"
| "in_hand (Sending r) = {#fst r#}"
| "in_hand _ = {#}"

definition hands :: "nat \<Rightarrow> 'e rsys \<Rightarrow> string multiset" where
  "hands n s = (\<Sum>i < n. in_hand (r_work s i))"

definition handed :: "transaction list \<Rightarrow> 'e rsys \<Rightarrow> transaction list" where
  "handed txns s = take (length txns - length (r_todo s)) txns"

definition rinv :: "nat \<Rightarrow> transaction list \<Rightarrow> 'e rsys \<Rightarrow> bool" where
  "rinv n txns s \<longleftrightarrow>
     txns = handed txns s @ r_todo s \<and>
     mset (map fst (r_out s)) + hands n s = mset (map tx_ID (handed txns s)) \<and>
     (r_closed s \<longrightarrow> r_todo s = [] \<or> r_cancel s) \<and>
     ((\<exists>i < n. r_work s i = Exited) \<longrightarrow> r_closed s)"

fun worker_rank :: "'e worker \<Rightarrow> nat" where
  "worker_rank Idle = 1"
| "worker_rank (Sending _) = 2"
| "worker_rank (Busy _) = 3"
| "worker_rank Exited = 0"

definition rwork :: "nat \<Rightarrow> 'e rsys \<Rightarrow> nat" where
  "rwork n s = 3 * length (r_todo s) + (if r_closed s then 0 else 1) + (\<Sum>i < n. worker_rank (r_work s i))"

lemma put_worker_simps [simp]:
  "r_todo (put_worker s i w) = r_todo s" "r_closed (put_worker s i w) = r_closed s"
  "r_cancel (put_worker s i w) = r_cancel s" "r_out (put_worker s i w) = r_out s"
  "r_work (put_worker s i w) = (r_work s)(i := w)"
  by (simp_all add: put_worker_def)

lemma sum_upd:
  fixes f :: "'w \<Rightarrow> 'a :: comm_monoid_add" and n :: nat
  assumes "i < n"
  shows "(\<Sum>j < n. f ((g(i := w)) j)) + f (g i) = (\<Sum>j < n. f (g j)) + f w"
proof -
  have "(\<Sum>j < n. f ((g(i := w)) j)) = f w + (\<Sum>j \<in> {..<n} - {i}. f (g j))"
    using assms by (subst sum.remove [of _ i]) (auto intro!: sum.cong)
  moreover have "(\<Sum>j < n. f (g j)) = f (g i) + (\<Sum>j \<in> {..<n} - {i}. f (g j))"
    using assms by (subst sum.remove [of _ i]) auto
  ultimately show ?thesis by (simp add: ac_simps)
qed

lemma rstep_work: "rstep n process cerr s s' \<Longrightarrow> rwork n s' < rwork n s"
proof (induction rule: rstep.induct)
  case (hand i s t ts)
  then show ?case using sum_upd [of i n worker_rank "r_work s" "Busy t"] by (simp add: rwork_def)
next
  case (skip i s t)
  then show ?case
    using sum_upd [of i n worker_rank "r_work s" "Sending (tx_ID t, Some cerr)"] by (simp add: rwork_def)
next
  case (work i s t e)
  then show ?case
    using sum_upd [of i n worker_rank "r_work s" "Sending (tx_ID t, e)"] by (simp add: rwork_def)
next
  case (collect i s r)
  then show ?case using sum_upd [of i n worker_rank "r_work s" Idle] by (simp add: rwork_def)
next
  case (exit i s)
  then show ?case using sum_upd [of i n worker_rank "r_work s" Exited] by (simp add: rwork_def)
qed (simp_all add: rwork_def)

lemma hands_put_worker:
  "i < n \<Longrightarrow> hands n (put_worker s i w) + in_hand (r_work s i) = hands n s + in_hand w"
  using sum_upd [of i n in_hand "r_work s" w] by (simp add: hands_def)

lemma hands_update [simp]:
  "hands n (s\<lparr>r_todo := ts\<rparr>) = hands n s" "hands n (s\<lparr>r_out := out\<rparr>) = hands n s"
  "hands n (s\<lparr>r_closed := b\<rparr>) = hands n s" "hands n (s\<lparr>r_cancel := b\<rparr>) = hands n s"
  by (simp_all add: hands_def)

lemma handed_eq: "txns = xs @ r_todo s \<Longrightarrow> handed txns s = xs"
  by (simp add: handed_def)

lemma handed_cong: "r_todo s = r_todo s' \<Longrightarrow> handed txns s = handed txns s'"
  by (simp add: handed_def)

lemma rinv_worker:
  assumes "rinv n txns s" "i < n" "in_hand (r_work s i) = in_hand w" "w = Exited \<Longrightarrow> r_closed s"
    "r_work s i \<noteq> Exited"
  shows "rinv n txns (put_worker s i w)"
proof -
  have "hands n (put_worker s i w) = hands n s"
    using hands_put_worker [of i n s w] assms(2,3) by simp
  then show ?thesis
    using assms handed_cong [of "put_worker s i w" s txns]
    by (auto simp: rinv_def)
qed

lemma rstep_inv:
  assumes "rstep n process cerr s s'" "rinv n txns s"
  shows "rinv n txns s'"
  using assms
proof (cases rule: rstep.cases)
  case (hand i t ts)
  let ?s = "put_worker (s\<lparr>r_todo := ts\<rparr>) i (Busy t)"
  have tx: "txns = (handed txns s @ [t]) @ ts"
    using assms(2) hand by (simp add: rinv_def)
  then have "handed txns ?s = handed txns s @ [t]"
    by (intro handed_eq) simp
  moreover have "hands n ?s = hands n s + {#tx_ID t#}"
    using hands_put_worker [of i n "s\<lparr>r_todo := ts\<rparr>" "Busy t"] hand by simp
  ultimately show ?thesis
    using assms(2) hand tx by (auto simp: rinv_def)
next
  case (collect i r)
  let ?s = "put_worker (s\<lparr>r_out := r_out s @ [r]\<rparr>) i Idle"
  have "hands n ?s + {#fst r#} = hands n s"
    using hands_put_worker [of i n "s\<lparr>r_out := r_out s @ [r]\<rparr>" Idle] collect by simp
  then have "mset (map fst (r_out ?s)) + hands n ?s = mset (map fst (r_out s)) + hands n s"
    by (auto simp: ac_simps)
  also have "\<dots> = mset (map tx_ID (handed txns ?s))"
    using assms(2) handed_cong [of ?s s txns] by (simp add: rinv_def)
  finally show ?thesis
    using assms(2) collect handed_cong [of ?s s txns] by (auto simp: rinv_def)
next
  case feeder_done
  then show ?thesis
    using assms(2) handed_cong [of s' s txns] by (auto simp: rinv_def)
next
  case feeder_cancel
  then show ?thesis
    using assms(2) handed_cong [of s' s txns] by (auto simp: rinv_def)
qed (use assms(2) in \<open>auto intro!: rinv_worker\<close>)

lemma rreach_inv: "rreach n process cerr txns s \<Longrightarrow> rinv n txns s"
proof (induction rule: rreach.induct)
  case start
  then show ?case by (simp add: rinv_def rinit_def handed_def hands_def)
next
  case (step s s')
  show ?case by (rule rstep_inv [OF step.hyps(2) step.IH])
next
  case (cancel s)
  then show ?case
    using handed_cong [of "s\<lparr>r_cancel := True\<rparr>" s txns] by (auto simp: rinv_def)
qed

lemma rfinished_hands: "rfinished n s \<Longrightarrow> hands n s = {#}"
  by (simp add: rfinished_def hands_def)

text \<open>Every error reported comes from the callback or from the cancelled context.\<close>

fun holds_valid :: "(transaction \<Rightarrow> 'e option \<Rightarrow> bool) \<Rightarrow> 'e \<Rightarrow> transaction list \<Rightarrow> 'e worker \<Rightarrow> bool" where
  "holds_valid process cerr txns (Busy t) \<longleftrightarrow> t \<in> set txns"
| "holds_valid process cerr txns (Sending r) \<longleftrightarrow>
     (\<exists>t \<in> set txns. fst r = tx_ID t \<and> (process t (snd r) \<or> snd r = Some cerr))"
| "holds_valid process cerr txns _ \<longleftrightarrow> True"

definition answers_valid ::
  "(transaction \<Rightarrow> 'e option \<Rightarrow> bool) \<Rightarrow> 'e \<Rightarrow> transaction list \<Rightarrow> 'e rsys \<Rightarrow> bool" where
  "answers_valid process cerr txns s \<longleftrightarrow>
     set (r_todo s) \<subseteq> set txns \<and>
     (\<forall>i. holds_valid process cerr txns (r_work s i)) \<and>
     (\<forall>r \<in> set (r_out s). holds_valid process cerr txns (Sending r)) \<and>
     (\<not> r_cancel s \<longrightarrow> (\<forall>r. (r \<in> set (r_out s) \<or> (\<exists>i. r_work s i = Sending r)) \<longrightarrow>
        (\<exists>t \<in> set txns. fst r = tx_ID t \<and> process t (snd r))))"

lemma rreach_answers: "rreach n process cerr txns s \<Longrightarrow> answers_valid process cerr txns s"
proof (induction rule: rreach.induct)
  case start
  then show ?case by (simp add: answers_valid_def rinit_def)
next
  case (step s s')
  from step.hyps(2) step.IH show ?case
  proof (cases rule: rstep.cases)
    case (work i t e)
    have "holds_valid process cerr txns (Busy t)"
      using step.IH work by (metis answers_valid_def)
    with step.IH work show ?thesis by (fastforce simp: answers_valid_def)
  next
    case (skip i t)
    have "holds_valid process cerr txns (Busy t)"
      using step.IH skip by (metis answers_valid_def)
    with step.IH skip show ?thesis by (fastforce simp: answers_valid_def)
  next
    case (collect i r)
    have "holds_valid process cerr txns (Sending r)"
      using step.IH collect by (metis answers_valid_def)
    with step.IH collect show ?thesis by (fastforce simp: answers_valid_def)
  qed (fastforce simp: answers_valid_def)+
next
  case (cancel s)
  then show ?case by (simp add: answers_valid_def)
qed

lemma rstep_progress:
  assumes "\<not> rfinished n s" "rinv n txns s" "\<And>t. \<exists>e. process t e"
  shows "\<exists>s'. rstep n process cerr s s'"
proof (cases "r_closed s")
  case False
  show ?thesis
  proof (cases "r_todo s")
    case Nil
    with False show ?thesis by (blast intro: rstep.feeder_done)
  next
    case (Cons t ts)
    from assms(1) obtain i where i: "i < n" "r_work s i \<noteq> Exited" by (auto simp: rfinished_def)
    show ?thesis
    proof (cases "r_work s i")
      case Idle
      with i False Cons show ?thesis by (blast intro: rstep.hand)
    next
      case (Busy u)
      with i assms(3) [of u] show ?thesis by (cases "r_cancel s") (blast intro: rstep.skip rstep.work)+
    next
      case (Sending r)
      with i show ?thesis by (blast intro: rstep.collect)
    qed (use i in simp)
  qed
next
  case True
  from assms(1) obtain i where i: "i < n" "r_work s i \<noteq> Exited" by (auto simp: rfinished_def)
  show ?thesis
  proof (cases "r_work s i")
    case Idle
    with i True show ?thesis by (blast intro: rstep.exit)
  next
    case (Busy u)
    with i assms(3) [of u] show ?thesis by (cases "r_cancel s") (blast intro: rstep.skip rstep.work)+
  next
    case (Sending r)
    with i show ?thesis by (blast intro: rstep.collect)
  qed (use i in simp)
qed

section \<open>Properties\<close>


text \<open>A call that times out twice and then succeeds.\<close>

definition flaky :: "nat \<Rightarrow> string gerr option \<times> nat" where
  "flaky n = (if n < 2 then Some (Retryable (Plain ''timeout'')) else None, n + 1)"


text \<open>The wait before a retry is never negative and never above \<open>MaxDelay\<close>, whatever the
  attempt number: the exponential delay (which the shift may wrap) is replaced by \<open>MaxDelay\<close> when
  it overflows, \<open>Int63n\<close> never panics, and the jittered wait lies between half of the capped
  delay and all of it.\<close>

theorem backoff_bounds:
  assumes "0 \<le> sint (MaxDelay cfg)"
    and "\<forall>m. 0 < sint m \<longrightarrow> 0 \<le> sint (rnd m) \<and> sint (rnd m) < sint m"
  shows "\<exists>v. backoff rnd cfg attempt = Some v \<and> 0 \<le> sint v \<and> sint v \<le> sint (MaxDelay cfg) \<and>
    sint (backoff_cap cfg attempt) div 2 \<le> sint v \<and> sint v \<le> sint (backoff_cap cfg attempt)"
proof -
  define d where "d = sint (backoff_cap cfg attempt)"
  have d: "0 \<le> d" "d \<le> sint (MaxDelay cfg)" "d < 2 ^ 63"
    using assms(1) sint64_range(2) by (auto simp: d_def backoff_cap_def Let_def)
  define half where "half = (word_of_int (tdiv d 2) :: i64)"
  have half: "sint half = d div 2"
    using d by (simp add: half_def tdiv_nonneg sint_of_int64)
  have half1: "sint (half + 1) = d div 2 + 1"
    using sint64_add [of half 1] half d by simp
  have r: "0 \<le> sint (rnd (half + 1))" "sint (rnd (half + 1)) \<le> d div 2"
    using assms(2) [rule_format, of "half + 1"] half1 d by auto
  have "sint (half + rnd (half + 1)) = d div 2 + sint (rnd (half + 1))"
    using sint64_add [of half "rnd (half + 1)"] half r d by simp
  then show ?thesis
    using half1 r d by (auto simp: backoff_def Let_def d_def [symmetric] half_def [symmetric])
qed

theorem backoff_bounds_witness:
  "\<exists>v. backoff (\<lambda>_. 0) DefaultRetryConfig 70 = Some v \<and> sint v \<le> 5000000000"
  using backoff_bounds [of DefaultRetryConfig "\<lambda>_. 0" 70] by (auto simp: DefaultRetryConfig_def)



text \<open>C8. The reconciliation pool neither loses, duplicates nor invents a result, and never hangs:
  in every reachable state some goroutine can move until all workers have exited, every such
  move brings the end closer, and at the end the results are, up to order, one for each
  transaction of a prefix of the batch - of the whole batch unless the context was cancelled -
  each with an answer of the callback or, only after a cancellation, the context's error.\<close>

theorem Reconcile_complete:
  assumes "rreach (pool_size workers) process cerr txns s" "\<forall>t. \<exists>e. process t e"
  shows "(\<not> rfinished (pool_size workers) s \<longrightarrow> (\<exists>s'. rstep (pool_size workers) process cerr s s')) \<and>
    (\<forall>s'. rstep (pool_size workers) process cerr s s' \<longrightarrow> rwork (pool_size workers) s' < rwork (pool_size workers) s) \<and>
    (rfinished (pool_size workers) s \<longrightarrow>
      (\<exists>k. mset (map fst (r_out s)) = mset (map tx_ID (take k txns)) \<and> (r_cancel s \<or> k = length txns)) \<and>
      (\<forall>r \<in> set (r_out s). \<exists>t \<in> set txns. fst r = tx_ID t \<and>
         (process t (snd r) \<or> r_cancel s \<and> snd r = Some cerr)))"
proof (intro conjI allI impI)
  let ?n = "pool_size workers"
  note inv = rreach_inv [OF assms(1)] and ans = rreach_answers [OF assms(1)]
  show "\<exists>s'. rstep ?n process cerr s s'" if "\<not> rfinished ?n s"
    using rstep_progress [OF that inv] assms(2) by blast
  show "rwork ?n s' < rwork ?n s" if "rstep ?n process cerr s s'" for s'
    by (rule rstep_work [OF that])
  assume fin: "rfinished ?n s"
  have "\<exists>i < ?n. r_work s i = Exited"
    using fin by (intro exI [of _ 0]) (simp add: rfinished_def pool_size_def)
  then have "r_todo s = [] \<or> r_cancel s" using inv by (simp add: rinv_def)
  moreover have "mset (map fst (r_out s)) = mset (map tx_ID (handed txns s))"
    using inv rfinished_hands [OF fin] by (simp add: rinv_def)
  ultimately show "\<exists>k. mset (map fst (r_out s)) = mset (map tx_ID (take k txns)) \<and>
      (r_cancel s \<or> k = length txns)"
    by (intro exI [of _ "length txns - length (r_todo s)"]) (auto simp: handed_def)
  show "\<forall>r \<in> set (r_out s). \<exists>t \<in> set txns. fst r = tx_ID t \<and>
      (process t (snd r) \<or> r_cancel s \<and> snd r = Some cerr)"
    using ans by (cases "r_cancel s") (auto simp: answers_valid_def)
qed

theorem Reconcile_complete_witness:
  "\<exists>s'. rstep (pool_size 0) (\<lambda>t e. e = None) ''canceled'' (rinit [\<lparr>tx_ID = ''t1'', tx_Amount = 5\<rparr>]) s'"
proof -
  have "\<not> rfinished (pool_size 0) (rinit [\<lparr>tx_ID = ''t1'', tx_Amount = 5\<rparr>] :: string rsys)"
    by (simp add: rfinished_def rinit_def pool_size_def)
  with Reconcile_complete [OF rreach.start [of "pool_size 0" "\<lambda>t e. e = None" "''canceled''"
        "[\<lparr>tx_ID = ''t1'', tx_Amount = 5\<rparr>]"]]
  show ?thesis by simp
qed

end
