(* ===== verification/Clocks.thy ===== *)
theory Clocks
  imports Go_Prelude
begin

text \<open>
  \<open>distributed-primitives-go/clocks\<close>: Lamport clocks, hybrid logical clocks and vector clocks,
  behind one contract, with executions of communicating processes on which the three are
  compared with the happens-before relation.
\<close>

section \<open>Lamport clocks\<close>

type_synonym lamport = u64

definition lamport_Tick :: "lamport \<Rightarrow> lamport" where
  "lamport_Tick t = t + 1"

definition lamport_Update :: "lamport \<Rightarrow> u64 \<Rightarrow> lamport" where
  "lamport_Update t recv = (let t' = (if recv > t then recv else t) in t' + 1)"

definition lamport_Now :: "lamport \<Rightarrow> u64" where
  "lamport_Now t = t"

section \<open>Hybrid logical clocks\<close>

text \<open>The wall clock is read once by each operation; its value is an argument.\<close>

record hlc =
  physical :: i64
  logical :: u64

definition NewHLC :: hlc where
  "NewHLC = \<lparr>physical = 0, logical = 0\<rparr>"

definition hlc_Now :: "hlc \<Rightarrow> i64 \<Rightarrow> hlc" where
  "hlc_Now h wall =
     (if sint wall > sint (physical h) then h\<lparr>physical := wall, logical := 0\<rparr>
      else h\<lparr>logical := logical h + 1\<rparr>)"

definition hlc_Update :: "hlc \<Rightarrow> i64 \<Rightarrow> i64 \<times> u64 \<Rightarrow> hlc" where
  "hlc_Update h wall r =
     (let rp = fst r; rl = snd r;
          m = physical h;
          m = (if sint rp > sint m then rp else m);
          m = (if sint wall > sint m then wall else m);
          l = (if m = physical h \<and> m = rp then (if rl > logical h then rl else logical h) + 1
               else if m = physical h then logical h + 1
               else if m = rp then rl + 1
               else 0)
      in \<lparr>physical = m, logical = l\<rparr>)"

definition hlc_stamp :: "hlc \<Rightarrow> i64 \<times> u64" where
  "hlc_stamp h = (physical h, logical h)"

definition hlc_less :: "i64 \<times> u64 \<Rightarrow> i64 \<times> u64 \<Rightarrow> bool" where
  "hlc_less a b \<longleftrightarrow> sint (fst a) < sint (fst b) \<or> fst a = fst b \<and> snd a < snd b"

section \<open>Vector clocks\<close>

datatype ordering = Equal | Before | After | Concurrent

record vector_clock =
  vc_node :: string
  vc_vec :: "string \<rightharpoonup> u64"

definition NewVectorClock :: "string \<Rightarrow> vector_clock" where
  "NewVectorClock node = \<lparr>vc_node = node, vc_vec = Map.empty\<rparr>"

definition vc_Tick :: "vector_clock \<Rightarrow> vector_clock" where
  "vc_Tick v = v\<lparr>vc_vec := (vc_vec v)(vc_node v \<mapsto> get_or 0 (vc_vec v) (vc_node v) + 1)\<rparr>"

text \<open>The range loop of \<open>Merge\<close> visits the other vector's entries in the order \<open>ks\<close>.\<close>

definition vec_max_step :: "(string \<rightharpoonup> u64) \<Rightarrow> string \<Rightarrow> (string \<rightharpoonup> u64) \<Rightarrow> (string \<rightharpoonup> u64)" where
  "vec_max_step other k m = (if get_or 0 other k > get_or 0 m k then m(k \<mapsto> get_or 0 other k) else m)"

definition vc_Merge :: "string list \<Rightarrow> vector_clock \<Rightarrow> (string \<rightharpoonup> u64) \<Rightarrow> vector_clock" where
  "vc_Merge ks v other = vc_Tick (v\<lparr>vc_vec := fold (vec_max_step other) ks (vc_vec v)\<rparr>)"

definition vc_Snapshot :: "string list \<Rightarrow> vector_clock \<Rightarrow> (string \<rightharpoonup> u64)" where
  "vc_Snapshot ks v = fold (\<lambda>k out. out(k := vc_vec v k)) ks Map.empty"

text \<open>\<open>Compare\<close>; \<open>ks\<close> is the order in which the union of the keys is visited.\<close>

definition Compare :: "string list \<Rightarrow> (string \<rightharpoonup> u64) \<Rightarrow> (string \<rightharpoonup> u64) \<Rightarrow> ordering" where
  "Compare ks a b =
     (let (aGreater, bGreater) =
        fold (\<lambda>k (ag, bg).
            if get_or 0 a k > get_or 0 b k then (True, bg)
            else if get_or 0 a k < get_or 0 b k then (ag, True)
            else (ag, bg)) ks (False, False)
      in if aGreater \<and> bGreater then Concurrent
         else if aGreater then After
         else if bGreater then Before
         else Equal)"

section \<open>Executions\<close>

text \<open>
  An execution is the list of events of all processes in an order in which they could have
  happened: a local event of process \<open>p\<close>, or the receipt by \<open>p\<close> of the message sent at event
  number \<open>e\<close>. Every event reads the wall clock \<open>w\<close>.
\<close>

datatype 'p event = Local 'p i64 | Receive 'p nat i64

fun ev_proc :: "'p event \<Rightarrow> 'p" where
  "ev_proc (Local p w) = p"
| "ev_proc (Receive p e w) = p"

fun ev_from :: "'p event \<Rightarrow> nat option" where
  "ev_from (Local p w) = None"
| "ev_from (Receive p e w) = Some e"

definition causal :: "'p event list \<Rightarrow> bool" where
  "causal evs \<longleftrightarrow> (\<forall>f < length evs. \<forall>e. ev_from (evs ! f) = Some e \<longrightarrow> e < f)"

text \<open>Program order and messages, and happens-before as their transitive closure.\<close>

definition edge :: "'p event list \<Rightarrow> nat \<Rightarrow> nat \<Rightarrow> bool" where
  "edge evs e f \<longleftrightarrow> e < f \<and> f < length evs \<and>
     (ev_proc (evs ! e) = ev_proc (evs ! f) \<or> ev_from (evs ! f) = Some e)"

definition hb :: "'p event list \<Rightarrow> nat \<Rightarrow> nat \<Rightarrow> bool" where
  "hb evs = (edge evs)\<^sup>+\<^sup>+"

text \<open>
  Stamping an execution: every process has a clock, an event advances it and records its stamp.
\<close>

definition exec_step ::
  "('c \<Rightarrow> i64 \<Rightarrow> 'c) \<Rightarrow> ('c \<Rightarrow> i64 \<Rightarrow> 'ts \<Rightarrow> 'c) \<Rightarrow> ('c \<Rightarrow> 'ts) \<Rightarrow> 'p event \<Rightarrow>
   ('p \<Rightarrow> 'c) \<times> 'ts list \<Rightarrow> ('p \<Rightarrow> 'c) \<times> 'ts list" where
  "exec_step tick recv stamp ev s =
     (case s of (clk, st) \<Rightarrow>
        let c = (case ev of
              Local p w \<Rightarrow> tick (clk p) w
            | Receive p e w \<Rightarrow> recv (clk p) w (st ! e))
        in (clk(ev_proc ev := c), st @ [stamp c]))"

definition exec ::
  "('c \<Rightarrow> i64 \<Rightarrow> 'c) \<Rightarrow> ('c \<Rightarrow> i64 \<Rightarrow> 'ts \<Rightarrow> 'c) \<Rightarrow> ('c \<Rightarrow> 'ts) \<Rightarrow> ('p \<Rightarrow> 'c) \<Rightarrow> 'p event list \<Rightarrow>
   ('p \<Rightarrow> 'c) \<times> 'ts list" where
  "exec tick recv stamp init evs = fold (exec_step tick recv stamp) evs (init, [])"

lemma exec_Nil [simp]: "exec tick recv stamp init [] = (init, [])"
  by (simp add: exec_def)

lemma exec_snoc:
  "exec tick recv stamp init (evs @ [ev]) = exec_step tick recv stamp ev (exec tick recv stamp init evs)"
  by (simp add: exec_def)

lemma length_exec [simp]: "length (snd (exec tick recv stamp init evs)) = length evs"
  by (induction evs rule: rev_induct)
    (auto simp: exec_snoc exec_step_def Let_def split: prod.splits)

lemma exec_prefix:
  "e < length evs \<Longrightarrow> snd (exec tick recv stamp init (evs @ [ev])) ! e = snd (exec tick recv stamp init evs) ! e"
  using length_exec [of tick recv stamp init evs]
  by (cases "exec tick recv stamp init evs") (simp add: exec_snoc exec_step_def Let_def nth_append)

text \<open>A process's clock holds the stamp of its last event.\<close>

lemma exec_clock:
  assumes "\<And>e. e < length evs \<Longrightarrow> ev_proc (evs ! e) = p \<Longrightarrow> e \<le> l"
    "l < length evs" "ev_proc (evs ! l) = p"
  shows "stamp (fst (exec tick recv stamp init evs) p) = snd (exec tick recv stamp init evs) ! l"
  using assms
proof (induction evs rule: rev_induct)
  case (snoc ev evs)
  obtain clk st where ex: "exec tick recv stamp init evs = (clk, st)" by fastforce
  have len: "length st = length evs"
    using length_exec [of tick recv stamp init evs] ex by simp
  show ?case
  proof (cases "ev_proc ev = p")
    case True
    then have "l = length evs"
      using snoc.prems(1) [of "length evs"] snoc.prems(2) by (simp add: nth_append)
    with True len show ?thesis by (simp add: exec_snoc ex exec_step_def Let_def nth_append)
  next
    case False
    then have l: "l < length evs"
      using snoc.prems(2,3) by (auto simp: nth_append less_Suc_eq)
    have "\<And>e. e < length evs \<Longrightarrow> ev_proc (evs ! e) = p \<Longrightarrow> e \<le> l"
      using snoc.prems(1) by (auto simp: nth_append)
    then have "stamp (clk p) = st ! l"
      using snoc.IH l snoc.prems(3) ex by (simp add: nth_append)
    with False l len show ?thesis by (simp add: exec_snoc ex exec_step_def Let_def nth_append)
  qed
qed simp

lemma exec_clock_fresh:
  "(\<And>e. e < length evs \<Longrightarrow> ev_proc (evs ! e) \<noteq> p) \<Longrightarrow> fst (exec tick recv stamp init evs) p = init p"
proof (induction evs rule: rev_induct)
  case (snoc ev evs)
  have "ev_proc ev \<noteq> p"
    using snoc.prems [of "length evs"] by simp
  moreover have "ev_proc (evs ! e) \<noteq> p" if "e < length evs" for e
    using snoc.prems [of e] that by (simp add: nth_append)
  ultimately show ?case
    using snoc.IH by (auto simp: exec_snoc exec_step_def Let_def split: prod.splits)
qed simp

lemma exec_clock_cases:
  assumes "exec tick recv stamp init evs = (clk, st)"
  obtains (fresh) "clk p = init p" "\<And>e. e < length evs \<Longrightarrow> ev_proc (evs ! e) \<noteq> p"
  | (last) l where "l < length evs" "ev_proc (evs ! l) = p" "stamp (clk p) = st ! l"
      "\<And>e. e < length evs \<Longrightarrow> ev_proc (evs ! e) = p \<Longrightarrow> e \<le> l"
proof (cases "\<exists>e < length evs. ev_proc (evs ! e) = p")
  case True
  let ?E = "{e. e < length evs \<and> ev_proc (evs ! e) = p}"
  have fin: "finite ?E" by simp
  have l: "Max ?E \<in> ?E" using True by (intro Max_in [OF fin]) blast
  have ge: "e \<le> Max ?E" if "e < length evs" "ev_proc (evs ! e) = p" for e
    using that by (intro Max_ge [OF fin]) simp
  show ?thesis
    using exec_clock [of evs p "Max ?E" stamp tick recv init] ge l assms
    by (intro last [of "Max ?E"]) auto
next
  case False
  then show ?thesis
    using exec_clock_fresh [of evs p tick recv stamp init] assms by (intro fresh) auto
qed

lemma edge_snoc: "edge (evs @ [ev]) e f \<longleftrightarrow>
    edge evs e f \<or> f = length evs \<and> e < f \<and> (ev_proc (evs ! e) = ev_proc ev \<or> ev_from ev = Some e)"
  by (auto simp: edge_def nth_append)

lemma hb_less: "hb evs e f \<Longrightarrow> e < f \<and> f < length evs"
  unfolding hb_def by (induction rule: tranclp_induct) (auto simp: edge_def)

lemma hb_edge: "edge evs e f \<Longrightarrow> hb evs e f"
  by (simp add: hb_def)

lemma hb_trans: "hb evs e f \<Longrightarrow> hb evs f g \<Longrightarrow> hb evs e g"
  unfolding hb_def by (rule tranclp_trans)

lemma hb_mono: "hb evs e f \<Longrightarrow> hb (evs @ [ev]) e f"
  unfolding hb_def
  by (induction rule: tranclp_induct) (auto simp: edge_snoc intro: tranclp.r_into_trancl tranclp.trancl_into_trancl)

lemma causal_snoc: "causal (evs @ [ev]) \<longleftrightarrow> causal evs \<and> (\<forall>e. ev_from ev = Some e \<longrightarrow> e < length evs)"
  by (auto simp: causal_def nth_append less_Suc_eq)

section \<open>The contract of a logical clock\<close>

text \<open>
  Both operations move the stamp strictly forward, and a receipt moves it past the stamp
  received, as long as the counters involved have room (\<open>fits\<close>).
\<close>

locale logical_clock =
  fixes tick :: "'c \<Rightarrow> i64 \<Rightarrow> 'c"
    and recv :: "'c \<Rightarrow> i64 \<Rightarrow> 'ts \<Rightarrow> 'c"
    and stamp :: "'c \<Rightarrow> 'ts"
    and less :: "'ts \<Rightarrow> 'ts \<Rightarrow> bool"
    and fits :: "'ts \<Rightarrow> bool"
  assumes less_trans: "less x y \<Longrightarrow> less y z \<Longrightarrow> less x z"
    and tick_less: "fits (stamp c) \<Longrightarrow> less (stamp c) (stamp (tick c w))"
    and recv_less: "fits (stamp c) \<Longrightarrow> fits t \<Longrightarrow> less (stamp c) (stamp (recv c w t))"
    and recv_after: "fits (stamp c) \<Longrightarrow> fits t \<Longrightarrow> less t (stamp (recv c w t))"
begin

lemma clock_fits:
  assumes "exec tick recv stamp init evs = (clk, st)" "\<forall>t \<in> set st. fits t" "\<forall>p. fits (stamp (init p))"
  shows "fits (stamp (clk p))"
  using length_exec [of tick recv stamp init evs] assms(1)
  by (cases rule: exec_clock_cases [OF assms(1), of p]) (use assms(2,3) in auto)

lemma edge_stamps:
  assumes "causal evs" "\<forall>t \<in> set (snd (exec tick recv stamp init evs)). fits t"
    "\<forall>p. fits (stamp (init p))" "edge evs e f"
  shows "less (snd (exec tick recv stamp init evs) ! e) (snd (exec tick recv stamp init evs) ! f)"
  using assms
proof (induction evs arbitrary: e f rule: rev_induct)
  case Nil
  then show ?case by (simp add: edge_def)
next
  case (snoc ev evs)
  obtain clk st where ex: "exec tick recv stamp init evs = (clk, st)" by fastforce
  have len: "length st = length evs"
    using length_exec [of tick recv stamp init evs] ex by simp
  define c where "c = (case ev of Local p w \<Rightarrow> tick (clk p) w | Receive p e w \<Rightarrow> recv (clk p) w (st ! e))"
  have step: "snd (exec tick recv stamp init (evs @ [ev])) = st @ [stamp c]"
    by (simp add: exec_snoc ex exec_step_def c_def Let_def)
  have from_ok: "e < length evs" if "ev_from ev = Some e" for e
    using snoc.prems(1) that by (simp add: causal_snoc)
  have fit: "\<forall>t \<in> set st. fits t" using snoc.prems(2) step by simp
  have IH: "less (st ! i) (st ! j)" if "edge evs i j" for i j
    using snoc.IH [OF _ _ snoc.prems(3) that] snoc.prems(1) fit ex by (simp add: causal_snoc)
  have own: "less (stamp (clk (ev_proc ev))) (stamp c)"
    using clock_fits [OF ex fit snoc.prems(3)] fit from_ok
    by (cases ev) (auto simp: c_def len intro!: tick_less recv_less)
  have msg: "less (st ! i) (stamp c)" if "ev_from ev = Some i" for i
    using clock_fits [OF ex fit snoc.prems(3)] fit from_ok [OF that] that
    by (cases ev) (auto simp: c_def len intro!: recv_after)
  have prog: "less (st ! i) (stamp c)" if "i < length evs" "ev_proc (evs ! i) = ev_proc ev" for i
    using ex
  proof (cases rule: exec_clock_cases [where p = "ev_proc ev"])
    case (last l)
    then have "i \<le> l" using that by simp
    then have "i = l \<or> i < l" by auto
    then have "i = l \<or> edge evs i l" using last that by (auto simp: edge_def)
    then show ?thesis using own last(3) IH less_trans by metis
  qed (use that in auto)
  from snoc.prems(4) show ?case
    using IH msg prog step len from_ok by (auto simp: edge_snoc nth_append edge_def)
qed

theorem hb_stamps:
  assumes "causal evs" "\<forall>t \<in> set (snd (exec tick recv stamp init evs)). fits t"
    "\<forall>p. fits (stamp (init p))" "hb evs e f"
  shows "less (snd (exec tick recv stamp init evs) ! e) (snd (exec tick recv stamp init evs) ! f)"
  using assms(4) unfolding hb_def
  by (induction rule: tranclp_induct) (auto intro: edge_stamps [OF assms(1-3)] less_trans)

end

section \<open>The three clocks meet the contract\<close>

lemma u64_less_Suc: "x \<noteq> - 1 \<Longrightarrow> x < x + (1 :: u64)"
  by (metis add.commute eq_neg_iff_add_eq_0 unatSuc lessI word_less_nat_alt)

interpretation lamport: logical_clock "\<lambda>c w. lamport_Tick c" "\<lambda>c w. lamport_Update c"
  lamport_Now "(<)" "\<lambda>t. t \<noteq> - 1"
  by unfold_locales
    (auto simp: lamport_Tick_def lamport_Update_def lamport_Now_def Let_def u64_less_Suc not_less
      intro: le_less_trans less_trans)

interpretation hlc: logical_clock hlc_Now hlc_Update hlc_stamp hlc_less "\<lambda>t. snd t \<noteq> - 1"
proof unfold_locales
  fix x y z assume "hlc_less x y" "hlc_less y z"
  then show "hlc_less x z" by (auto simp: hlc_less_def)
next
  fix c w assume "snd (hlc_stamp c) \<noteq> - 1"
  then show "hlc_less (hlc_stamp c) (hlc_stamp (hlc_Now c w))"
    by (auto simp: hlc_less_def hlc_stamp_def hlc_Now_def u64_less_Suc)
next
  fix c and t :: "i64 \<times> u64" and w assume "snd (hlc_stamp c) \<noteq> - 1" "snd t \<noteq> - 1"
  then show "hlc_less (hlc_stamp c) (hlc_stamp (hlc_Update c w t))"
    by (auto simp: hlc_less_def hlc_stamp_def hlc_Update_def Let_def u64_less_Suc
        intro: less_trans [OF _ u64_less_Suc] less_le_trans le_less_trans dest: sint64_eqI)
next
  fix c and t :: "i64 \<times> u64" and w assume "snd (hlc_stamp c) \<noteq> - 1" "snd t \<noteq> - 1"
  then show "hlc_less t (hlc_stamp (hlc_Update c w t))"
    by (auto simp: hlc_less_def hlc_stamp_def hlc_Update_def Let_def u64_less_Suc not_less
        intro: less_le_trans le_less_trans sint64_eqI)
qed

text \<open>Pointwise order of vectors; an absent entry counts as zero.\<close>

definition vec_le :: "(string \<rightharpoonup> u64) \<Rightarrow> (string \<rightharpoonup> u64) \<Rightarrow> bool" where
  "vec_le a b \<longleftrightarrow> (\<forall>k. get_or 0 a k \<le> get_or 0 b k)"

definition vec_less :: "(string \<rightharpoonup> u64) \<Rightarrow> (string \<rightharpoonup> u64) \<Rightarrow> bool" where
  "vec_less a b \<longleftrightarrow> vec_le a b \<and> \<not> vec_le b a"

definition vec_fits :: "(string \<rightharpoonup> u64) \<Rightarrow> bool" where
  "vec_fits a \<longleftrightarrow> (\<forall>k. get_or 0 a k \<noteq> - 1)"

text \<open>The effect of \<open>Merge\<close>'s loop, whatever the order of iteration.\<close>

definition vec_join :: "(string \<rightharpoonup> u64) \<Rightarrow> (string \<rightharpoonup> u64) \<Rightarrow> (string \<rightharpoonup> u64)" where
  "vec_join m other = (\<lambda>k. if get_or 0 other k > get_or 0 m k then other k else m k)"

definition vc_Receive :: "vector_clock \<Rightarrow> (string \<rightharpoonup> u64) \<Rightarrow> vector_clock" where
  "vc_Receive v other = vc_Tick (v\<lparr>vc_vec := vec_join (vc_vec v) other\<rparr>)"

lemma get_vec_join: "get_or 0 (vec_join m other) k = max (get_or 0 m k) (get_or 0 other k)"
  by (auto simp: vec_join_def get_or_def max_def split: option.splits)

lemma get_or_pos: "d < get_or d m k \<Longrightarrow> m k = Some (get_or d m k)"
  for d :: u64
  by (auto simp: get_or_def split: option.splits)

lemma fold_vec_max:
  assumes "distinct ks"
  shows "fold (vec_max_step other) ks m k =
    (if k \<in> set ks \<and> get_or 0 other k > get_or 0 m k then other k else m k)"
  using assms
proof (induction ks arbitrary: m)
  case (Cons x ks)
  have "get_or 0 other x > get_or 0 m x \<Longrightarrow> other x = Some (get_or 0 other x)"
    by (rule get_or_pos) (metis word_zero_le le_less_trans)
  with Cons show ?case
    by (auto simp: vec_max_step_def get_or_upd)
qed simp

lemma vc_Merge_Receive:
  assumes "enumerates ks other"
  shows "vc_Merge ks v other = vc_Receive v other"
proof -
  have "fold (vec_max_step other) ks (vc_vec v) = vec_join (vc_vec v) other"
  proof
    fix k
    have "k \<notin> set ks \<Longrightarrow> get_or 0 other k = 0"
      using enumerates_set [OF assms] by (auto simp: get_or_def split: option.splits)
    then show "fold (vec_max_step other) ks (vc_vec v) k = vec_join (vc_vec v) other k"
      using fold_vec_max [OF enumerates_distinct [OF assms]] by (auto simp: vec_join_def)
  qed
  then show ?thesis by (simp add: vc_Merge_def vc_Receive_def)
qed

lemma get_vc_Tick: "get_or 0 (vc_vec (vc_Tick v)) k =
    (if k = vc_node v then get_or 0 (vc_vec v) k + 1 else get_or 0 (vc_vec v) k)"
  by (simp add: vc_Tick_def get_or_upd)

lemma vec_less_Tick: "vec_fits (vc_vec c) \<Longrightarrow> vec_less (vc_vec c) (vc_vec (vc_Tick c))"
  using u64_less_Suc
  by (auto simp: vec_less_def vec_le_def vec_fits_def get_vc_Tick less_imp_le not_le
      intro!: exI [of _ "vc_node c"])

interpretation vector: logical_clock "\<lambda>c w. vc_Tick c" "\<lambda>c w. vc_Receive c" vc_vec vec_less vec_fits
proof unfold_locales
  fix x y z assume "vec_less x y" "vec_less y z"
  then show "vec_less x z" unfolding vec_less_def vec_le_def by (meson order_trans)
next
  fix c :: vector_clock assume "vec_fits (vc_vec c)"
  then show "vec_less (vc_vec c) (vc_vec (vc_Tick c))" by (rule vec_less_Tick)
next
  fix c :: vector_clock and t assume f: "vec_fits (vc_vec c)" "vec_fits t"
  let ?c = "c\<lparr>vc_vec := vec_join (vc_vec c) t\<rparr>"
  have "vec_fits (vc_vec ?c)"
    using f by (simp add: vec_fits_def get_vec_join max_def)
  then have "vec_less (vc_vec ?c) (vc_vec (vc_Receive c t))"
    unfolding vc_Receive_def by (rule vec_less_Tick)
  moreover have "vec_le (vc_vec c) (vc_vec ?c)" "vec_le t (vc_vec ?c)"
    by (simp_all add: vec_le_def get_vec_join)
  ultimately show "vec_less (vc_vec c) (vc_vec (vc_Receive c t))" "vec_less t (vc_vec (vc_Receive c t))"
    unfolding vec_less_def vec_le_def by (meson order_trans)+
qed

section \<open>Comparison of vectors\<close>

lemma Compare_flags:
  "fold (\<lambda>k (ag, bg). if get_or 0 a k > get_or 0 b k then (True, bg)
       else if get_or 0 a k < get_or 0 b k then (ag, True) else (ag, bg)) ks (x, y) =
   (x \<or> (\<exists>k \<in> set ks. get_or 0 a k > get_or 0 b k), y \<or> (\<exists>k \<in> set ks. get_or 0 a k < get_or 0 b k))"
  for a b :: "string \<rightharpoonup> u64"
  by (induction ks arbitrary: x y) auto

lemma ex_greater:
  assumes "set ks = dom a \<union> dom b"
  shows "(\<exists>k \<in> set ks. get_or 0 a k > get_or 0 b k) \<longleftrightarrow> \<not> vec_le a b"
proof -
  have "get_or 0 a k \<le> get_or 0 b k" if "k \<notin> set ks" for k
    using that assms by (auto simp: get_or_def split: option.splits)
  then show ?thesis unfolding vec_le_def by (meson not_le)
qed

lemma Compare_eq:
  assumes "set ks = dom a \<union> dom b"
  shows "Compare ks a b =
    (if vec_le a b then (if vec_le b a then Equal else Before)
     else (if vec_le b a then After else Concurrent))"
proof -
  have "set ks = dom b \<union> dom a" using assms by blast
  then show ?thesis
    using ex_greater [OF assms] ex_greater [of ks b a] by (simp add: Compare_def Compare_flags)
qed

section \<open>Vector clocks decide causality\<close>

text \<open>
  The converse direction: a vector entry is the stamp of an event in the causal past. Processes
  are named by strings and each owns the entry of its name.
\<close>

abbreviation vc_exec :: "string event list \<Rightarrow> (string \<Rightarrow> vector_clock) \<times> (string \<rightharpoonup> u64) list" where
  "vc_exec \<equiv> exec (\<lambda>c w. vc_Tick c) (\<lambda>c w. vc_Receive c) vc_vec NewVectorClock"

lemma vc_node_Receive [simp]: "vc_node (vc_Tick c) = vc_node c" "vc_node (vc_Receive c t) = vc_node c"
  by (simp_all add: vc_Tick_def vc_Receive_def)

lemma vc_exec_node: "vc_node (fst (vc_exec evs) p) = p"
proof (induction evs arbitrary: p rule: rev_induct)
  case Nil
  then show ?case by (simp add: NewVectorClock_def)
next
  case (snoc ev evs)
  then show ?case
    by (cases ev) (auto simp: exec_snoc exec_step_def Let_def split: prod.splits)
qed

lemma vc_exec_snoc:
  assumes "vc_exec evs = (clk, st)" "q \<noteq> ev_proc ev" "causal (evs @ [ev])"
    "0 < get_or 0 (snd (vc_exec (evs @ [ev])) ! length evs) q"
  shows "\<exists>l. edge (evs @ [ev]) l (length evs) \<and>
    get_or 0 (st ! l) q = get_or 0 (snd (vc_exec (evs @ [ev])) ! length evs) q"
proof -
  let ?p = "ev_proc ev" and ?v = "snd (vc_exec (evs @ [ev])) ! length evs"
  have len: "length st = length evs"
    using length_exec [of "\<lambda>c w. vc_Tick c" "\<lambda>c w. vc_Receive c" vc_vec NewVectorClock evs] assms(1)
    by simp
  have node: "vc_node (clk ?p) = ?p" using vc_exec_node [of evs ?p] assms(1) by simp
  have v: "get_or 0 ?v q = (case ev_from ev of
      None \<Rightarrow> get_or 0 (vc_vec (clk ?p)) q
    | Some e \<Rightarrow> max (get_or 0 (vc_vec (clk ?p)) q) (get_or 0 (st ! e) q))"
    using assms(2) node len
    by (cases ev) (simp_all add: exec_snoc assms(1) exec_step_def Let_def nth_append get_vc_Tick
        vc_Receive_def get_vec_join)
  then consider "get_or 0 ?v q = get_or 0 (vc_vec (clk ?p)) q"
    | e where "ev_from ev = Some e" "get_or 0 ?v q = get_or 0 (st ! e) q"
    by (cases "ev_from ev") (auto simp: max_def split: if_splits)
  then show ?thesis
  proof cases
    case 1
    from assms(1) show ?thesis
    proof (cases rule: exec_clock_cases [where p = ?p])
      case fresh
      with 1 assms(4) show ?thesis by (simp add: NewVectorClock_def)
    next
      case (last l)
      with 1 show ?thesis by (intro exI [of _ l]) (auto simp: edge_snoc)
    qed
  next
    case (2 e)
    with assms(3) show ?thesis by (intro exI [of _ e]) (auto simp: edge_snoc causal_snoc)
  qed
qed

lemma vec_entry_origin:
  assumes "causal evs" "f < length evs" "0 < get_or 0 (snd (vc_exec evs) ! f) q"
  shows "\<exists>g < length evs. ev_proc (evs ! g) = q \<and> (g = f \<or> hb evs g f) \<and>
    get_or 0 (snd (vc_exec evs) ! g) q = get_or 0 (snd (vc_exec evs) ! f) q"
  using assms
proof (induction evs arbitrary: f rule: rev_induct)
  case (snoc ev evs)
  let ?S = "snd (vc_exec (evs @ [ev]))" and ?s = "snd (vc_exec evs)"
  have old: "\<exists>g < length evs. ev_proc (evs ! g) = q \<and> (g = l \<or> hb (evs @ [ev]) g l) \<and>
      get_or 0 (?S ! g) q = get_or 0 (?S ! l) q" if "l < length evs" "0 < get_or 0 (?S ! l) q" for l
    using snoc.IH [of l] snoc.prems(1) that hb_mono [of evs _ l ev]
    by (auto simp: causal_snoc exec_prefix)
  consider "f < length evs" | "f = length evs" "ev_proc ev = q" | "f = length evs" "ev_proc ev \<noteq> q"
    using snoc.prems(2) by (auto simp: less_Suc_eq)
  then show ?case
  proof cases
    case 1
    with old [OF 1] snoc.prems(3) show ?thesis by (auto simp: nth_append intro: less_SucI)
  next
    case 2
    then show ?thesis by (intro exI [of _ f]) simp
  next
    case 3
    obtain clk st where ex: "vc_exec evs = (clk, st)" by fastforce
    obtain l where l: "edge (evs @ [ev]) l f" "get_or 0 (st ! l) q = get_or 0 (?S ! f) q"
      using vc_exec_snoc [OF ex _ snoc.prems(1), of q] 3 snoc.prems(3) by auto
    then have "l < length evs" using 3 by (auto simp: edge_def)
    moreover have "st ! l = ?S ! l" using exec_prefix \<open>l < length evs\<close> ex by (metis snd_conv)
    ultimately obtain g where "g < length evs" "ev_proc (evs ! g) = q"
      "g = l \<or> hb (evs @ [ev]) g l" "get_or 0 (?S ! g) q = get_or 0 (?S ! f) q"
      using old [of l] l(2) snoc.prems(3) by auto
    then show ?thesis
      using hb_edge [OF l(1)] by (intro exI [of _ g]) (auto simp: nth_append intro: hb_trans)
  qed
qed simp

text \<open>A process's own entry grows with every event.\<close>

lemma own_step:
  assumes "vc_exec evs = (clk, st)" "causal (evs @ [ev])" "\<forall>t \<in> set st. vec_fits t"
  shows "\<exists>v. snd (vc_exec (evs @ [ev])) = st @ [v] \<and>
    get_or 0 (vc_vec (clk (ev_proc ev))) (ev_proc ev) < get_or 0 v (ev_proc ev)"
proof -
  let ?p = "ev_proc ev"
  have len: "length st = length evs"
    using length_exec [of "\<lambda>c w. vc_Tick c" "\<lambda>c w. vc_Receive c" vc_vec NewVectorClock evs] assms(1) by simp
  have node: "vc_node (clk ?p) = ?p" using vc_exec_node [of evs ?p] assms(1) by simp
  have "vec_fits (vc_vec (clk ?p))"
    by (rule vector.clock_fits [OF assms(1,3)]) (simp add: NewVectorClock_def vec_fits_def)
  then have own: "x < x + 1" if "x = get_or 0 (vc_vec (clk ?p)) ?p" for x
    using that by (simp add: vec_fits_def u64_less_Suc)
  show ?thesis
  proof (cases ev)
    case (Local p w)
    with node own show ?thesis by (simp add: exec_snoc assms(1) exec_step_def Let_def get_vc_Tick)
  next
    case (Receive p e w)
    then have "vec_fits (st ! e)" using assms(2,3) len by (simp add: causal_snoc)
    then have "max (get_or 0 (vc_vec (clk p)) p) (get_or 0 (st ! e) p) \<noteq> - 1"
      using \<open>vec_fits (vc_vec (clk ?p))\<close> Receive by (auto simp: vec_fits_def max_def)
    then have "get_or 0 (vc_vec (clk p)) p < max (get_or 0 (vc_vec (clk p)) p) (get_or 0 (st ! e) p) + 1"
      using u64_less_Suc by (meson le_less_trans max.cobounded1)
    with Receive node show ?thesis
      by (simp add: exec_snoc assms(1) exec_step_def Let_def get_vc_Tick vc_Receive_def get_vec_join)
  qed
qed

lemma own_entry_mono:
  assumes "causal evs" "\<forall>t \<in> set (snd (vc_exec evs)). vec_fits t" "f < length evs"
  shows "0 < get_or 0 (snd (vc_exec evs) ! f) (ev_proc (evs ! f)) \<and>
    (\<forall>e < f. ev_proc (evs ! e) = ev_proc (evs ! f) \<longrightarrow>
       get_or 0 (snd (vc_exec evs) ! e) (ev_proc (evs ! f)) < get_or 0 (snd (vc_exec evs) ! f) (ev_proc (evs ! f)))"
  using assms
proof (induction evs arbitrary: f rule: rev_induct)
  case (snoc ev evs)
  obtain clk st where ex: "vc_exec evs = (clk, st)" by fastforce
  have len: "length st = length evs"
    using length_exec [of "\<lambda>c w. vc_Tick c" "\<lambda>c w. vc_Receive c" vc_vec NewVectorClock evs] ex by simp
  have fit: "\<forall>t \<in> set st. vec_fits t"
    using snoc.prems(2) by (auto simp: exec_snoc ex exec_step_def Let_def)
  obtain v where step: "snd (vc_exec (evs @ [ev])) = st @ [v]"
    and v: "get_or 0 (vc_vec (clk (ev_proc ev))) (ev_proc ev) < get_or 0 v (ev_proc ev)"
    using own_step [OF ex snoc.prems(1) fit] by blast
  have IH: "0 < get_or 0 (st ! l) (ev_proc (evs ! l)) \<and> (\<forall>e < l. ev_proc (evs ! e) = ev_proc (evs ! l) \<longrightarrow>
      get_or 0 (st ! e) (ev_proc (evs ! l)) < get_or 0 (st ! l) (ev_proc (evs ! l)))" if "l < length evs" for l
    using snoc.IH [of l] snoc.prems(1) fit ex that by (simp add: causal_snoc)
  show ?case
  proof (cases "f < length evs")
    case True
    with IH [OF True] step len show ?thesis by (simp add: nth_append)
  next
    case False
    then have f: "f = length evs" using snoc.prems(3) by simp
    have "get_or 0 (st ! e) (ev_proc ev) < get_or 0 v (ev_proc ev)"
      if "e < f" "ev_proc (evs ! e) = ev_proc ev" for e
      using ex
    proof (cases rule: exec_clock_cases [where p = "ev_proc ev"])
      case (last l)
      then have "e = l \<or> e < l" using that f by (metis le_neq_implies_less)
      then have "get_or 0 (st ! e) (ev_proc ev) \<le> get_or 0 (st ! l) (ev_proc ev)"
        using IH [OF last(1)] that(2) last(2) by (auto intro: less_imp_le)
      with v last(3) show ?thesis by simp
    qed (use that f in auto)
    moreover have "0 < get_or 0 v (ev_proc ev)" using v by (metis word_gt_0 not_less word_zero_le)
    ultimately show ?thesis using f step len by (simp add: nth_append)
  qed
qed simp

lemma vec_le_hb:
  assumes "causal evs" "\<forall>t \<in> set (snd (vc_exec evs)). vec_fits t" "e < length evs" "f < length evs"
  shows "vec_le (snd (vc_exec evs) ! e) (snd (vc_exec evs) ! f) \<longleftrightarrow> e = f \<or> hb evs e f"
proof
  let ?s = "snd (vc_exec evs)" and ?p = "ev_proc (evs ! e)"
  assume le: "vec_le (?s ! e) (?s ! f)"
  then have le_p: "get_or 0 (?s ! e) ?p \<le> get_or 0 (?s ! f) ?p" by (simp add: vec_le_def)
  have "0 < get_or 0 (?s ! e) ?p" using own_entry_mono [OF assms(1-3)] by blast
  then have "0 < get_or 0 (?s ! f) ?p" using le_p by (rule less_le_trans)
  then obtain g where g: "g < length evs" "ev_proc (evs ! g) = ?p" "g = f \<or> hb evs g f"
    "get_or 0 (?s ! g) ?p = get_or 0 (?s ! f) ?p"
    using vec_entry_origin [OF assms(1,4), of ?p] by blast
  have "e \<le> g"
  proof (rule ccontr)
    assume "\<not> e \<le> g"
    then have "get_or 0 (?s ! g) ?p < get_or 0 (?s ! e) ?p"
      using own_entry_mono [OF assms(1-3)] g(2) by simp
    with g(4) le_p show False by simp
  qed
  then have "e = g \<or> hb evs e g" using g assms(3) by (auto simp: edge_def intro!: hb_edge)
  then show "e = f \<or> hb evs e f" using g(3) hb_trans by blast
next
  show "e = f \<or> hb evs e f \<Longrightarrow> vec_le (snd (vc_exec evs) ! e) (snd (vc_exec evs) ! f)"
    using vector.hb_stamps [OF assms(1,2)] by (auto simp: vec_le_def vec_less_def NewVectorClock_def vec_fits_def)
qed

lemma dom_vc_Tick: "dom (vc_vec (vc_Tick v)) = insert (vc_node v) (dom (vc_vec v))"
  by (simp add: vc_Tick_def)

text \<open>Merging in any iteration order stamps an execution alike.\<close>

lemma vc_exec_Merge:
  assumes "\<forall>m. finite (dom m) \<longrightarrow> enumerates (ord m) m" "causal evs"
  shows "exec (\<lambda>c w. vc_Tick c) (\<lambda>c w t. vc_Merge (ord t) c t) vc_vec NewVectorClock evs = vc_exec evs \<and>
    (\<forall>p. finite (dom (vc_vec (fst (vc_exec evs) p)))) \<and>
    (\<forall>t \<in> set (snd (vc_exec evs)). finite (dom t))"
  using assms(2)
proof (induction evs rule: rev_induct)
  case Nil
  then show ?case by (simp add: NewVectorClock_def)
next
  case (snoc ev evs)
  obtain clk st where ex: "vc_exec evs = (clk, st)" by fastforce
  have len: "length st = length evs"
    using length_exec [of "\<lambda>c w. vc_Tick c" "\<lambda>c w. vc_Receive c" vc_vec NewVectorClock evs] ex by simp
  have IH: "exec (\<lambda>c w. vc_Tick c) (\<lambda>c w t. vc_Merge (ord t) c t) vc_vec NewVectorClock evs = (clk, st)"
    "finite (dom (vc_vec (clk p)))" "\<forall>t \<in> set st. finite (dom t)" for p
    using snoc ex by (simp_all add: causal_snoc)
  have join: "dom (vec_join m t) \<subseteq> dom m \<union> dom t" for m t
    by (auto simp: vec_join_def split: if_splits)
  show ?case
  proof (cases ev)
    case (Local p w)
    with IH show ?thesis by (simp add: exec_snoc ex exec_step_def Let_def dom_vc_Tick)
  next
    case (Receive p e w)
    then have fin: "finite (dom (st ! e))" using IH(3) snoc.prems len by (simp add: causal_snoc)
    then have "vc_Merge (ord (st ! e)) (clk p) (st ! e) = vc_Receive (clk p) (st ! e)"
      using assms(1) by (simp add: vc_Merge_Receive)
    moreover have "finite (dom (vec_join (vc_vec (clk p)) (st ! e)))"
      using finite_subset [OF join] IH(2) fin by blast
    then have "finite (dom (vc_vec (vc_Receive (clk p) (st ! e))))"
      by (simp add: vc_Receive_def dom_vc_Tick)
    ultimately show ?thesis
      using IH Receive by (simp add: exec_snoc ex exec_step_def Let_def)
  qed
qed

section \<open>Properties\<close>

text \<open>C9. Vector clocks decide causality: in every execution in which no counter reaches its
  maximum, comparing the vectors stamped on two events by \<open>Tick\<close> and \<open>Merge\<close> gives \<open>Before\<close>
  exactly when the first happened before the second, \<open>After\<close> exactly when the second happened
  before the first, \<open>Equal\<close> only for the same event and \<open>Concurrent\<close> otherwise. The order in
  which the range loops visit the maps does not matter.\<close>

theorem vector_clock_decides_causality:
  assumes "\<forall>m. finite (dom m) \<longrightarrow> enumerates (ord m) m" and "causal evs"
    and "st = snd (exec (\<lambda>c w. vc_Tick c) (\<lambda>c w t. vc_Merge (ord t) c t) vc_vec NewVectorClock evs)"
    and "\<forall>t \<in> set st. vec_fits t" and "e < length evs" "f < length evs"
    and "set ks = dom (st ! e) \<union> dom (st ! f)"
  shows "Compare ks (st ! e) (st ! f) =
    (if e = f then Equal else if hb evs e f then Before else if hb evs f e then After else Concurrent)"
proof -
  have st: "st = snd (vc_exec evs)"
    using vc_exec_Merge [OF assms(1,2)] assms(3) by simp
  have "vec_le (st ! e) (st ! f) \<longleftrightarrow> e = f \<or> hb evs e f" "vec_le (st ! f) (st ! e) \<longleftrightarrow> f = e \<or> hb evs f e"
    using vec_le_hb [OF assms(2), of e f] vec_le_hb [OF assms(2), of f e] assms(4-6) st by auto
  moreover have "\<not> (hb evs e f \<and> hb evs f e)"
    using hb_less [of evs e f] hb_less [of evs f e] by auto
  ultimately show ?thesis by (auto simp: Compare_eq [OF assms(7)])
qed

text \<open>Two processes: \<open>a\<close> sends to \<open>b\<close> while \<open>c\<close> works alone.\<close>

definition demo_events :: "string event list" where
  "demo_events = [Local ''a'' 10, Local ''c'' 5, Receive ''b'' 0 3]"

definition demo_stamps :: "(string \<rightharpoonup> u64) list" where
  "demo_stamps = [[''a'' \<mapsto> 1], [''c'' \<mapsto> 1], [''a'' \<mapsto> 1, ''b'' \<mapsto> 1]]"

lemma demo_vc_exec: "snd (vc_exec demo_events) = demo_stamps"
  by (simp add: demo_events_def demo_stamps_def exec_def exec_step_def vc_Tick_def vc_Receive_def
      vec_join_def NewVectorClock_def get_or_def fun_eq_iff Let_def)

lemma demo_fits: "\<forall>t \<in> set demo_stamps. vec_fits t"
  by (simp add: demo_stamps_def vec_fits_def get_or_def)

lemma demo_causal: "causal demo_events"
  by (auto simp: causal_def demo_events_def less_Suc_eq)

theorem vector_clock_decides_causality_witness:
  "\<exists>ord st. (\<forall>m :: string \<rightharpoonup> u64. finite (dom m) \<longrightarrow> enumerates (ord m) m) \<and>
     st = snd (exec (\<lambda>c w. vc_Tick c) (\<lambda>c w t. vc_Merge (ord t) c t) vc_vec NewVectorClock demo_events) \<and>
     Compare [''a'', ''b''] (st ! 0) (st ! 2) = Before \<and> Compare [''a'', ''c''] (st ! 0) (st ! 1) = Concurrent"
proof -
  have "\<forall>m :: string \<rightharpoonup> u64. \<exists>ks. finite (dom m) \<longrightarrow> enumerates ks m"
    by (metis enumerates_exists)
  then obtain ord where ord: "\<forall>m :: string \<rightharpoonup> u64. finite (dom m) \<longrightarrow> enumerates (ord m) m" by metis
  let ?st = "snd (exec (\<lambda>c w. vc_Tick c) (\<lambda>c w t. vc_Merge (ord t) c t) vc_vec NewVectorClock demo_events)"
  have st: "?st = demo_stamps"
    using vc_exec_Merge [OF ord demo_causal] demo_vc_exec by simp
  note T = vector_clock_decides_causality [OF ord demo_causal refl, unfolded st, OF demo_fits]
  have hb: "hb demo_events 0 2" by (rule hb_edge) (simp add: edge_def demo_events_def)
  have e: "edge demo_events x 1 \<longleftrightarrow> False" for x
    by (auto simp: edge_def demo_events_def)
  have "\<not> hb demo_events x 1" for x unfolding hb_def by (metis e tranclp.cases)
  moreover have "\<not> hb demo_events 1 0" using hb_less [of demo_events 1 0] by auto
  ultimately have "Compare [''a'', ''c''] (demo_stamps ! 0) (demo_stamps ! 1) = Concurrent"
    using T [of 0 1 "[''a'', ''c'']"] by (auto simp: demo_events_def demo_stamps_def)
  moreover have "Compare [''a'', ''b''] (demo_stamps ! 0) (demo_stamps ! 2) = Before"
    using T [of 0 2 "[''a'', ''b'']"] hb by (auto simp: demo_events_def demo_stamps_def numeral_2_eq_2)
  ultimately show ?thesis
    using ord st [symmetric] by (intro exI [of _ ord] exI [of _ demo_stamps] conjI)
qed

text \<open>C10. Lamport and hybrid clocks respect causality: when an event happened before another, its
  Lamport timestamp is smaller, and so is its hybrid timestamp in the lexicographic order of
  physical and logical part, whatever the wall clocks read - stalled, skewed or running
  backwards - as long as no logical counter is at its maximum.\<close>

theorem clocks_respect_causality:
  assumes "causal evs" "hb evs e f"
    and "l = snd (exec (\<lambda>c w. lamport_Tick c) (\<lambda>c w. lamport_Update c) lamport_Now (\<lambda>_. 0) evs)"
    and "h = snd (exec hlc_Now hlc_Update hlc_stamp (\<lambda>_. NewHLC) evs)"
    and "\<forall>t \<in> set l. t \<noteq> - 1" "\<forall>t \<in> set h. snd t \<noteq> - 1"
  shows "l ! e < l ! f \<and> hlc_less (h ! e) (h ! f)"
  using lamport.hb_stamps [OF assms(1) _ _ assms(2), of "\<lambda>_. 0"]
    hlc.hb_stamps [OF assms(1) _ _ assms(2), of "\<lambda>_. NewHLC"] assms(3-6)
  by (simp add: lamport_Now_def hlc_stamp_def NewHLC_def)

theorem clocks_respect_causality_witness:
  "hlc_less (snd (exec hlc_Now hlc_Update hlc_stamp (\<lambda>_. NewHLC) demo_events) ! 0)
     (snd (exec hlc_Now hlc_Update hlc_stamp (\<lambda>_. NewHLC) demo_events) ! 2)"
proof -
  have hb: "hb demo_events 0 2" by (rule hb_edge) (simp add: edge_def demo_events_def)
  show ?thesis
    by (rule clocks_respect_causality [OF demo_causal hb refl refl, THEN conjunct2])
      (simp_all add: demo_events_def exec_def exec_step_def lamport_Tick_def lamport_Update_def
        lamport_Now_def hlc_Now_def hlc_Update_def hlc_stamp_def NewHLC_def Let_def)
qed

end
