(* ===== verification/Replication.thy ===== *)
theory Replication
  imports Clocks
begin

text \<open>
  \<open>distributed-primitives-go/replication\<close>: the last-writer-wins register and the grow-only
  counter behind the contract of a state-based replicated data type, and a system of counters
  that increment and exchange states.
\<close>

section \<open>Last-writer-wins register\<close>

record lww =
  lww_Value :: string
  lww_TS :: i64
  lww_Node :: string

definition lww_Set :: "lww \<Rightarrow> string \<Rightarrow> i64 \<Rightarrow> string \<Rightarrow> lww" where
  "lww_Set r v ts node = \<lparr>lww_Value = v, lww_TS = ts, lww_Node = node\<rparr>"

definition lww_Merge :: "lww \<Rightarrow> lww \<Rightarrow> bool \<times> lww" where
  "lww_Merge r other =
     (if sint (lww_TS other) > sint (lww_TS r) \<or>
         (lww_TS other = lww_TS r \<and> lww_Node other > lww_Node r)
      then (True, other) else (False, r))"

definition LWWOutcome :: "lww \<Rightarrow> lww \<Rightarrow> lww" where
  "LWWOutcome a b = snd (lww_Merge a b)"

section \<open>Grow-only counter\<close>

type_synonym gcounter = "string \<rightharpoonup> u64"

definition NewGCounter :: gcounter where
  "NewGCounter = Map.empty"

definition gc_Inc :: "gcounter \<Rightarrow> string \<Rightarrow> u64 \<Rightarrow> gcounter" where
  "gc_Inc g node n = g(node \<mapsto> get_or 0 g node + n)"

text \<open>\<open>ks\<close> is the order in which the range loop visits the entries.\<close>

definition gc_Value :: "string list \<Rightarrow> gcounter \<Rightarrow> u64" where
  "gc_Value ks g = fold (\<lambda>k sum. sum + get_or 0 g k) ks 0"

definition gc_Merge :: "string list \<Rightarrow> gcounter \<Rightarrow> gcounter \<Rightarrow> gcounter" where
  "gc_Merge ks g other = fold (vec_max_step other) ks g"

definition CRDTOutcome :: "string list \<Rightarrow> string list \<Rightarrow> string list \<Rightarrow> gcounter \<Rightarrow> gcounter \<Rightarrow> u64" where
  "CRDTOutcome ka kb km a b = gc_Value km (gc_Merge kb (gc_Merge ka NewGCounter a) b)"

lemma gc_Merge_join: "enumerates ks other \<Longrightarrow> gc_Merge ks g other = vec_join g other"
  unfolding gc_Merge_def
proof
  fix k assume e: "enumerates ks other"
  have "k \<notin> set ks \<Longrightarrow> get_or 0 other k = 0"
    using enumerates_set [OF e] by (auto simp: get_or_def split: option.splits)
  then show "fold (vec_max_step other) ks g k = vec_join g other k"
    using fold_vec_max [OF enumerates_distinct [OF e]] by (auto simp: vec_join_def)
qed

section \<open>The contract of a replicated state\<close>

text \<open>
  States are compared by what a reader sees of them (\<open>view\<close>); merging is idempotent, commutative
  and associative on the \<open>valid\<close> states.
\<close>

locale state_crdt =
  fixes merge :: "'s \<Rightarrow> 's \<Rightarrow> 's"
    and view :: "'s \<Rightarrow> 'v"
    and valid :: "'s \<Rightarrow> bool"
  assumes merge_valid: "valid a \<Longrightarrow> valid b \<Longrightarrow> valid (merge a b)"
    and merge_cong: "valid a \<Longrightarrow> valid b \<Longrightarrow> valid a' \<Longrightarrow> valid b' \<Longrightarrow> view a = view a' \<Longrightarrow> view b = view b' \<Longrightarrow>
      view (merge a b) = view (merge a' b')"
    and merge_idem: "valid a \<Longrightarrow> view (merge a a) = view a"
    and merge_comm: "valid a \<Longrightarrow> valid b \<Longrightarrow> view (merge a b) = view (merge b a)"
    and merge_assoc: "valid a \<Longrightarrow> valid b \<Longrightarrow> valid c \<Longrightarrow>
      view (merge (merge a b) c) = view (merge a (merge b c))"
begin

definition below :: "'s \<Rightarrow> 's \<Rightarrow> bool" where
  "below a b \<longleftrightarrow> view (merge a b) = view b"

lemma below_antisym: "valid a \<Longrightarrow> valid b \<Longrightarrow> below a b \<Longrightarrow> below b a \<Longrightarrow> view a = view b"
  using merge_comm by (simp add: below_def)

lemma below_trans:
  assumes "valid a" "valid b" "valid c" "below a b" "below b c"
  shows "below a c"
proof -
  have "view (merge a c) = view (merge a (merge b c))"
    using assms merge_cong [of a c a "merge b c"] merge_valid by (simp add: below_def)
  also have "\<dots> = view (merge (merge a b) c)" using assms merge_assoc by simp
  also have "\<dots> = view (merge b c)"
    using assms merge_cong [of "merge a b" c b c] merge_valid by (simp add: below_def)
  finally show ?thesis using assms by (simp add: below_def)
qed

lemma below_merge: "valid a \<Longrightarrow> valid b \<Longrightarrow> below a (merge a b) \<and> below b (merge a b)"
proof -
  assume v: "valid a" "valid b"
  have "view (merge a (merge a b)) = view (merge (merge a a) b)"
    using merge_assoc v by simp
  also have "\<dots> = view (merge a b)"
    using merge_cong [of "merge a a" b a b] merge_idem merge_valid v by simp
  finally have one: "below a (merge a b)" by (simp add: below_def)
  have "view (merge b (merge a b)) = view (merge (merge a b) b)"
    using merge_comm merge_valid v by simp
  also have "\<dots> = view (merge a (merge b b))" using merge_assoc v by simp
  also have "\<dots> = view (merge a b)"
    using merge_cong [of a "merge b b" a b] merge_idem merge_valid v by simp
  finally show ?thesis using one by (simp add: below_def)
qed

lemma merge_least: "valid a \<Longrightarrow> valid b \<Longrightarrow> valid u \<Longrightarrow> below a u \<Longrightarrow> below b u \<Longrightarrow> below (merge a b) u"
proof -
  assume v: "valid a" "valid b" "valid u" and b: "below a u" "below b u"
  have "view (merge (merge a b) u) = view (merge a (merge b u))" using merge_assoc v by simp
  also have "\<dots> = view (merge a u)"
    using merge_cong [of a "merge b u" a u] merge_valid v b by (simp add: below_def)
  finally show ?thesis using b by (simp add: below_def)
qed

definition deliver :: "'s list \<Rightarrow> 's \<Rightarrow> 's" where
  "deliver xs a = foldl merge a xs"

lemma deliver_Cons [simp]: "deliver (x # xs) a = deliver xs (merge a x)" "deliver [] a = a"
  by (simp_all add: deliver_def)

lemma deliver_valid: "valid a \<Longrightarrow> \<forall>x \<in> set xs. valid x \<Longrightarrow> valid (deliver xs a)"
  by (induction xs arbitrary: a) (auto intro: merge_valid)

lemma deliver_upper:
  "valid a \<Longrightarrow> \<forall>x \<in> set xs. valid x \<Longrightarrow> x \<in> insert a (set xs) \<Longrightarrow> below x (deliver xs a)"
proof (induction xs arbitrary: a x)
  case Nil
  then show ?case using merge_idem by (simp add: below_def)
next
  case (Cons y xs)
  have v: "valid (merge a y)" "valid (deliver xs (merge a y))"
    using Cons.prems merge_valid deliver_valid by auto
  have m: "below (merge a y) (deliver xs (merge a y))" by (rule Cons.IH [OF v(1)]) (use Cons.prems(2) in auto)
  consider "x = a \<or> x = y" | "x \<in> set xs" using Cons.prems(3) by auto
  then show ?case
  proof cases
    case 1
    then have "valid x" "below x (merge a y)" using below_merge Cons.prems by auto
    with below_trans [OF _ v this(2) m] show ?thesis by simp
  next
    case 2
    have "below x (deliver xs (merge a y))"
      by (rule Cons.IH [OF v(1)]) (use Cons.prems(2) 2 in auto)
    then show ?thesis by simp
  qed
qed

lemma deliver_least:
  "valid a \<Longrightarrow> \<forall>x \<in> set xs. valid x \<Longrightarrow> valid u \<Longrightarrow> \<forall>x \<in> insert a (set xs). below x u \<Longrightarrow> below (deliver xs a) u"
  by (induction xs arbitrary: a) (auto intro: merge_least merge_valid)

text \<open>Strong eventual consistency: the same states, in any order and any number of times.\<close>

lemma converge:
  assumes "\<forall>x \<in> insert a (set xs). valid x" "insert a (set xs) = insert b (set ys)"
  shows "view (deliver xs a) = view (deliver ys b)"
proof -
  have v: "valid a" "\<forall>x \<in> set xs. valid x" "valid b" "\<forall>x \<in> set ys. valid x"
    using assms by auto
  have "below (deliver xs a) (deliver ys b)"
    using deliver_least [OF v(1,2) deliver_valid [OF v(3,4)]] deliver_upper [OF v(3,4)] assms(2) by blast
  moreover have "below (deliver ys b) (deliver xs a)"
    using deliver_least [OF v(3,4) deliver_valid [OF v(1,2)]] deliver_upper [OF v(1,2)] assms(2) by blast
  ultimately show ?thesis using below_antisym deliver_valid v by blast
qed

end

text \<open>
  The register meets the contract on writes identified by timestamp and node: \<open>W\<close> gives the
  value written by a node at a time.
\<close>

definition lww_valid :: "(i64 \<times> string \<Rightarrow> string) \<Rightarrow> lww \<Rightarrow> bool" where
  "lww_valid W r \<longleftrightarrow> lww_Value r = W (lww_TS r, lww_Node r)"

lemma lww_eqI:
  "lww_valid W a \<Longrightarrow> lww_valid W b \<Longrightarrow> sint (lww_TS a) = sint (lww_TS b) \<Longrightarrow> lww_Node a = lww_Node b \<Longrightarrow> a = b"
  for a b :: lww
  using sint64_eqI [of "lww_TS a" "lww_TS b"] by (simp add: lww_valid_def)

text \<open>The order in which writes win.\<close>

definition lww_before :: "lww \<Rightarrow> lww \<Rightarrow> bool" where
  "lww_before a b \<longleftrightarrow> sint (lww_TS a) < sint (lww_TS b) \<or>
     sint (lww_TS a) = sint (lww_TS b) \<and> lww_Node a < lww_Node b"

lemma LWWOutcome_eq: "LWWOutcome a b = (if lww_before a b then b else a)"
  using sint64_eqI [of "lww_TS a" "lww_TS b"] by (auto simp: LWWOutcome_def lww_Merge_def lww_before_def)

lemma lww_before_trans: "lww_before a b \<Longrightarrow> lww_before b c \<Longrightarrow> lww_before a c"
  unfolding lww_before_def by (elim disjE) (auto intro: order_less_trans)

lemma lww_before_asym: "lww_before a b \<Longrightarrow> \<not> lww_before b a"
  unfolding lww_before_def by auto

lemma lww_before_weak: "\<not> lww_before a b \<Longrightarrow> \<not> lww_before b c \<Longrightarrow> \<not> lww_before a c"
  unfolding lww_before_def by (auto simp: not_less)

lemma lww_before_total: "lww_valid W a \<Longrightarrow> lww_valid W b \<Longrightarrow> a = b \<or> lww_before a b \<or> lww_before b a"
  using lww_eqI [of W a b] unfolding lww_before_def by (metis linorder_cases)

interpretation lww: state_crdt LWWOutcome "\<lambda>r. r" "lww_valid W" for W
proof unfold_locales
  fix a b :: lww assume "lww_valid W a" "lww_valid W b"
  then show "LWWOutcome a b = LWWOutcome b a"
    using lww_before_total [of W a b] lww_before_asym [of a b] lww_before_asym [of b a]
    by (auto simp: LWWOutcome_eq)
next
  fix a b c :: lww
  show "LWWOutcome (LWWOutcome a b) c = LWWOutcome a (LWWOutcome b c)"
    using lww_before_trans [of a b c] lww_before_weak [of a b c] by (auto simp: LWWOutcome_eq)
qed (simp_all add: LWWOutcome_eq)

text \<open>The counter meets it on all finite states, seen through its slots.\<close>

definition gc_view :: "gcounter \<Rightarrow> string \<Rightarrow> u64" where
  "gc_view g = get_or 0 g"

lemma gc_view_join: "gc_view (vec_join a b) = (\<lambda>k. max (gc_view a k) (gc_view b k))"
  by (simp add: gc_view_def fun_eq_iff get_vec_join)

interpretation gcounter: state_crdt vec_join gc_view "\<lambda>_. True"
  by unfold_locales (simp_all add: gc_view_join ac_simps)

section \<open>Replicas that increment and synchronise\<close>

text \<open>
  Every replica is named by its node and increments its own slot only; \<open>GSync d s\<close> merges the
  current state of \<open>s\<close> into \<open>d\<close>. \<open>ord\<close> gives the iteration orders.
\<close>

datatype gop = GInc string u64 | GSync string string

definition gop_exec :: "(gcounter \<Rightarrow> string list) \<Rightarrow> gop \<Rightarrow> (string \<Rightarrow> gcounter) \<Rightarrow> (string \<Rightarrow> gcounter)" where
  "gop_exec ord op g =
     (case op of
        GInc n k \<Rightarrow> g(n := gc_Inc (g n) n k)
      | GSync d s \<Rightarrow> g(d := gc_Merge (ord (g s)) (g d) (g s)))"

definition gops :: "(gcounter \<Rightarrow> string list) \<Rightarrow> gop list \<Rightarrow> string \<Rightarrow> gcounter" where
  "gops ord ops = fold (gop_exec ord) ops (\<lambda>_. NewGCounter)"

fun inc_of :: "gop \<Rightarrow> string \<Rightarrow> nat" where
  "inc_of (GInc n k) m = (if m = n then unat k else 0)"
| "inc_of (GSync d s) m = 0"

definition incs :: "gop list \<Rightarrow> string \<Rightarrow> nat" where
  "incs ops n = (\<Sum>op \<leftarrow> ops. inc_of op n)"

definition good_order :: "(gcounter \<Rightarrow> string list) \<Rightarrow> bool" where
  "good_order ord \<longleftrightarrow> (\<forall>m. finite (dom m) \<longrightarrow> enumerates (ord m) m)"

definition replicas_inv :: "gop list \<Rightarrow> (string \<Rightarrow> gcounter) \<Rightarrow> bool" where
  "replicas_inv ops g \<longleftrightarrow> (\<forall>i. finite (dom (g i))) \<and>
     (\<forall>i n. unat (get_or 0 (g i) n) \<le> incs ops n) \<and> (\<forall>n. unat (get_or 0 (g n) n) = incs ops n)"

lemma incs_snoc: "incs (ops @ [op]) n = incs ops n + inc_of op n"
  by (simp add: incs_def)

lemma incs_append: "incs (ops @ ops') n = incs ops n + incs ops' n"
  by (simp add: incs_def)

lemma incs_sync [simp]: "incs (map (GSync i) ns) n = 0"
  by (induction ns) (simp_all add: incs_def)

lemma unat_max: "unat (max a b) = max (unat a) (unat b)"
  for a b :: u64
  by (simp add: max_def word_le_nat_alt)

lemma unat_add_small: "unat a + unat b < 2 ^ 64 \<Longrightarrow> unat (a + b) = unat a + unat b"
  for a b :: u64
  by (simp add: unat_word_ariths)

lemma gc_Merge_finite:
  assumes "good_order ord" "finite (dom s)" "finite (dom d)"
  shows "gc_Merge (ord s) d s = vec_join d s" "finite (dom (vec_join d s))"
proof -
  show "gc_Merge (ord s) d s = vec_join d s"
    using assms(1,2) by (simp add: good_order_def gc_Merge_join)
  show "finite (dom (vec_join d s))"
    by (rule finite_subset [of _ "dom d \<union> dom s"]) (use assms(2,3) in \<open>auto simp: vec_join_def split: if_splits\<close>)
qed

lemma gc_deliver:
  "good_order ord \<Longrightarrow> \<forall>x \<in> set xs. finite (dom x) \<Longrightarrow>
   foldl (\<lambda>g x. gc_Merge (ord x) g x) a xs = foldl vec_join a xs"
  by (induction xs arbitrary: a) (simp_all add: good_order_def gc_Merge_join)

lemma replicas_step:
  assumes "replicas_inv ops g" "good_order ord" "\<forall>n. incs (ops @ [op]) n < 2 ^ 64"
  shows "replicas_inv (ops @ [op]) (gop_exec ord op g)"
proof (cases op)
  case (GInc n k)
  have "unat (get_or 0 (g n) n + k) = incs ops n + unat k"
    using assms(1,3) [unfolded replicas_inv_def incs_snoc] GInc
    by (metis inc_of.simps(1) unat_add_small)
  then show ?thesis
    using assms(1) GInc
    by (auto simp: replicas_inv_def gop_exec_def gc_Inc_def incs_snoc trans_le_add1)
next
  case (GSync d s)
  then show ?thesis
    using assms(1) gc_Merge_finite [OF assms(2), of "g s" "g d"]
    by (auto simp: replicas_inv_def gop_exec_def incs_snoc get_vec_join unat_max max_absorb1)
qed

lemma replicas_reach:
  assumes "good_order ord" "\<forall>n. incs ops n < 2 ^ 64"
  shows "replicas_inv ops (gops ord ops)"
  using assms(2)
proof (induction ops rule: rev_induct)
  case Nil
  then show ?case by (simp add: replicas_inv_def gops_def NewGCounter_def incs_def)
next
  case (snoc op ops)
  then have "\<forall>n. incs ops n < 2 ^ 64" by (metis add_lessD1 incs_snoc)
  with snoc have "replicas_inv ops (gops ord ops)" by blast
  from replicas_step [OF this assms(1) snoc.prems] show ?case by (simp add: gops_def)
qed

lemma gops_append: "gops ord (ops @ ops') = fold (gop_exec ord) ops' (gops ord ops)"
  by (simp add: gops_def)

lemma sync_all:
  assumes "good_order ord" "\<forall>n. incs ops n < 2 ^ 64"
  shows "\<forall>n \<in> set ns. unat (get_or 0 (gops ord (ops @ map (GSync i) ns) i) n) = incs ops n"
proof (induction ns rule: rev_induct)
  case (snoc s ns)
  let ?g = "gops ord (ops @ map (GSync i) ns)"
  have inv: "replicas_inv ops ?g"
    using replicas_reach [OF assms(1), of "ops @ map (GSync i) ns"] assms(2)
    by (simp add: replicas_inv_def incs_append)
  have "gops ord (ops @ map (GSync i) (ns @ [s])) = gop_exec ord (GSync i s) ?g"
    by (simp add: gops_def)
  then have "get_or 0 (gops ord (ops @ map (GSync i) (ns @ [s])) i) n = max (get_or 0 (?g i) n) (get_or 0 (?g s) n)" for n
    using inv gc_Merge_finite [OF assms(1), of "?g s" "?g i"]
    by (simp add: gop_exec_def replicas_inv_def get_vec_join)
  with inv snoc show ?case
    by (auto simp: unat_max replicas_inv_def max_absorb1 max_absorb2)
qed simp

lemma of_nat_sum_unat: "(\<Sum>k \<in> A. f k) = (of_nat (\<Sum>k \<in> A. unat (f k)) :: u64)"
  by simp

lemma gc_Value_sum:
  assumes "enumerates ks g"
  shows "gc_Value ks g = (\<Sum>k \<in> dom g. get_or 0 g k)"
  using assms by (simp add: gc_Value_def fold_plus_eq_sum enumerates_def)

section \<open>Properties\<close>

text \<open>C11. No increment is lost: after any sequence of local increments and pairwise merges, in any
  order and with any repetitions, a replica that then merges every replica's state reports
  exactly the total of all increments ever made (as long as no slot exceeds 64 bits).\<close>

theorem GCounter_no_lost_increment:
  assumes "good_order ord" "\<forall>n. incs ops n < 2 ^ 64" "distinct ns" "\<forall>n. 0 < incs ops n \<longrightarrow> n \<in> set ns"
    and "g = gops ord (ops @ map (GSync i) ns) i" "enumerates ks g"
  shows "gc_Value ks g = of_nat (\<Sum>n \<leftarrow> ns. incs ops n)"
proof -
  have inv: "replicas_inv (ops @ map (GSync i) ns) (gops ord (ops @ map (GSync i) ns))"
    by (rule replicas_reach [OF assms(1)]) (use assms(2) in \<open>simp add: incs_append\<close>)
  have slot: "unat (get_or 0 g n) = incs ops n" for n
  proof (cases "n \<in> set ns")
    case True
    with sync_all [OF assms(1,2), of ns i] assms(5) show ?thesis by simp
  next
    case False
    with assms(4) have "incs ops n = 0" by auto
    moreover have "unat (get_or 0 g n) \<le> incs ops n"
      using inv assms(5) by (simp add: replicas_inv_def incs_append)
    ultimately show ?thesis by simp
  qed
  have "gc_Value ks g = (\<Sum>k \<in> dom g \<union> set ns. get_or 0 g k)"
    unfolding gc_Value_sum [OF assms(6)]
    using enumerates_finite [OF assms(6)]
    by (intro sum.mono_neutral_left) (auto simp: get_or_def split: option.splits)
  also have "\<dots> = of_nat (\<Sum>k \<in> dom g \<union> set ns. incs ops k)"
    by (simp add: slot [symmetric])
  also have "(\<Sum>k \<in> dom g \<union> set ns. incs ops k) = (\<Sum>k \<in> set ns. incs ops k)"
    using enumerates_finite [OF assms(6)] assms(4) by (intro sum.mono_neutral_right) auto
  also have "\<dots> = (\<Sum>n \<leftarrow> ns. incs ops n)"
    using assms(3) by (simp add: sum_list_distinct_conv_sum_set)
  finally show ?thesis .
qed

definition demo_gops :: "gop list" where
  "demo_gops = [GInc ''us'' 3, GInc ''eu'' 4, GSync ''us'' ''eu'', GInc ''eu'' 1]"

theorem GCounter_no_lost_increment_witness:
  "\<exists>ord ks. good_order ord \<and> enumerates ks (gops ord (demo_gops @ map (GSync ''us'') [''us'', ''eu'']) ''us'') \<and>
     gc_Value ks (gops ord (demo_gops @ map (GSync ''us'') [''us'', ''eu'']) ''us'') = 8"
proof -
  have "\<forall>m :: gcounter. \<exists>ks. finite (dom m) \<longrightarrow> enumerates ks m" by (metis enumerates_exists)
  then obtain ord where ord: "good_order ord" unfolding good_order_def by metis
  have incs: "incs demo_gops n = (if n = ''us'' then 3 else if n = ''eu'' then 5 else 0)" for n
    by (simp add: incs_def demo_gops_def)
  let ?g = "gops ord (demo_gops @ map (GSync ''us'') [''us'', ''eu'']) ''us''"
  have "finite (dom ?g)"
    using replicas_reach [OF ord, of "demo_gops @ map (GSync ''us'') [''us'', ''eu'']"]
    by (simp add: incs_append incs replicas_inv_def del: list.map)
  then obtain ks where ks: "enumerates ks ?g" by (rule enumerates_exists)
  have "gc_Value ks ?g = of_nat (\<Sum>n \<leftarrow> [''us'', ''eu'']. incs demo_gops n)"
    by (rule GCounter_no_lost_increment [OF ord _ _ _ refl ks]) (simp_all add: incs)
  also have "of_nat (\<Sum>n \<leftarrow> [''us'', ''eu'']. incs demo_gops n) = (8 :: u64)" by (simp add: incs)
  finally show ?thesis using ord ks by blast
qed

text \<open>C12. Replicas converge: delivering the same set of states, in any order and with any
  repetitions, leaves two counters with the same slots, and two registers equal - the latter when
  a node never writes two values with the same timestamp.\<close>

theorem replicas_converge:
  assumes "good_order ord" "\<forall>x \<in> insert a (set xs). finite (dom x)"
    and "insert a (set xs) = insert b (set ys)" "insert r (set rs) = insert q (set qs)"
    and "\<forall>x \<in> insert r (set rs). lww_valid W x"
  shows "gc_view (foldl (\<lambda>g x. gc_Merge (ord x) g x) a xs) = gc_view (foldl (\<lambda>g x. gc_Merge (ord x) g x) b ys) \<and>
    foldl LWWOutcome r rs = foldl LWWOutcome q qs"
proof -
  have "\<forall>x \<in> set xs. finite (dom x)" "\<forall>x \<in> set ys. finite (dom x)"
    using assms(2,3) by auto
  then have "foldl (\<lambda>g x. gc_Merge (ord x) g x) a xs = foldl vec_join a xs"
    "foldl (\<lambda>g x. gc_Merge (ord x) g x) b ys = foldl vec_join b ys"
    using gc_deliver [OF assms(1)] by blast+
  then show ?thesis
    using gcounter.converge [OF _ assms(3)] lww.converge [OF assms(5,4)]
    by (simp add: gcounter.deliver_def lww.deliver_def)
qed

theorem replicas_converge_witness:
  "foldl LWWOutcome \<lparr>lww_Value = ''x'', lww_TS = 1, lww_Node = ''us''\<rparr>
      [\<lparr>lww_Value = ''y'', lww_TS = 1, lww_Node = ''eu''\<rparr>] =
   foldl LWWOutcome \<lparr>lww_Value = ''y'', lww_TS = 1, lww_Node = ''eu''\<rparr>
      [\<lparr>lww_Value = ''x'', lww_TS = 1, lww_Node = ''us''\<rparr>]"
proof -
  have "\<forall>m :: gcounter. \<exists>ks. finite (dom m) \<longrightarrow> enumerates ks m" by (metis enumerates_exists)
  then obtain ord where ord: "good_order ord" unfolding good_order_def by metis
  show ?thesis
    by (rule replicas_converge [OF ord, of Map.empty "[]" Map.empty "[]" _ _ _ _
          "\<lambda>(t, n). if n = ''us'' then ''x'' else ''y''", THEN conjunct2])
      (auto simp: lww_valid_def)
qed

text \<open>Two writes of one node with the same timestamp never converge: each replica keeps its own.\<close>

lemma lww_same_stamp_diverges:
  "LWWOutcome \<lparr>lww_Value = ''x'', lww_TS = 1, lww_Node = ''n''\<rparr> \<lparr>lww_Value = ''y'', lww_TS = 1, lww_Node = ''n''\<rparr> \<noteq>
   LWWOutcome \<lparr>lww_Value = ''y'', lww_TS = 1, lww_Node = ''n''\<rparr> \<lparr>lww_Value = ''x'', lww_TS = 1, lww_Node = ''n''\<rparr>"
  by (simp add: LWWOutcome_def lww_Merge_def)

end
