(* ===== verification/Raft.thy ===== *)
theory Raft
  imports Go_Prelude
begin

text \<open>
  \<open>distributed-primitives-go/raft\<close>: leader election by majority in a partitionable cluster and
  fencing of stale leaders (\<open>node.go\<close>, \<open>cluster.go\<close>, \<open>fencing.go\<close>).
\<close>

datatype state = Follower | Candidate | Leader

record node =
  n_ID :: nat
  n_Term :: u64
  n_State :: state
  n_group :: nat

record cluster =
  nodes :: "node list"
  nextGroup :: nat
  committedTrm :: u64

datatype raft_err = ErrNoQuorum | ErrFenced

definition NewCluster :: "nat \<Rightarrow> cluster" where
  "NewCluster n = \<lparr>nodes = map (\<lambda>i. \<lparr>n_ID = i, n_Term = 0, n_State = Follower, n_group = 0\<rparr>) [0..<n],
     nextGroup = 1, committedTrm = 0\<rparr>"

definition majority :: "cluster \<Rightarrow> nat" where
  "majority c = length (nodes c) div 2 + 1"

definition Partition :: "nat list \<Rightarrow> cluster \<Rightarrow> cluster" where
  "Partition ids c =
     (let g = nextGroup c in
      c\<lparr>nextGroup := nextGroup c + 1,
        nodes := map (\<lambda>n. if n_ID n \<in> set ids then n\<lparr>n_group := g\<rparr> else n) (nodes c)\<rparr>)"

definition Heal :: "cluster \<Rightarrow> cluster" where
  "Heal c = c\<lparr>nodes := map (\<lambda>n. n\<lparr>n_group := 0\<rparr>) (nodes c)\<rparr>"

definition reachable :: "cluster \<Rightarrow> node \<Rightarrow> nat" where
  "reachable c candidate = length (filter (\<lambda>n. n_group n = n_group candidate) (nodes c))"

definition max_term :: "node list \<Rightarrow> u64" where
  "max_term ns = foldl (\<lambda>m n. if n_Term n > m then n_Term n else m) 0 ns"

text \<open>\<open>Elect\<close>: indexing outside the cluster panics (\<open>None\<close>).\<close>

definition Elect :: "nat \<Rightarrow> cluster \<Rightarrow> ((raft_err + node) \<times> cluster) option" where
  "Elect nid c =
     (if length (nodes c) \<le> nid then None
      else
        let cand = (nodes c ! nid)\<lparr>n_State := Candidate, n_Term := max_term (nodes c) + 1\<rparr>;
            c1 = c\<lparr>nodes := (nodes c)[nid := cand]\<rparr>
        in if reachable c1 cand < majority c1
           then Some (Inl ErrNoQuorum, c1\<lparr>nodes := (nodes c1)[nid := cand\<lparr>n_State := Follower\<rparr>]\<rparr>)
           else
             let ns = map (\<lambda>n. if n_group n = n_group cand \<and> n_ID n \<noteq> n_ID cand
                                then n\<lparr>n_State := Follower, n_Term := n_Term cand\<rparr> else n) (nodes c1);
                 ldr = cand\<lparr>n_State := Leader\<rparr>
             in Some (Inr ldr, c1\<lparr>nodes := ns[nid := ldr], committedTrm := n_Term cand\<rparr>))"

definition Leaders :: "cluster \<Rightarrow> node list" where
  "Leaders c = filter (\<lambda>n. n_State n = Leader) (nodes c)"

fun state_String :: "state \<Rightarrow> string" where
  "state_String Follower = ''Follower''"
| "state_String Candidate = ''Candidate''"
| "state_String Leader = ''Leader''"

text \<open>\<open>Snapshot\<close>: ID, term, role and group of every node, and the committed term.\<close>

definition raft_Snapshot :: "cluster \<Rightarrow> (nat \<times> u64 \<times> string \<times> nat) list \<times> u64" where
  "raft_Snapshot c =
     (map (\<lambda>n. (n_ID n, n_Term n, state_String (n_State n), n_group n)) (nodes c), committedTrm c)"

text \<open>\<open>Write\<close> applies a change to some state \<open>s\<close> on behalf of a node.\<close>

definition raft_Write :: "cluster \<Rightarrow> nat \<Rightarrow> ('s \<Rightarrow> 's) \<Rightarrow> 's \<Rightarrow> (raft_err option \<times> 's) option" where
  "raft_Write c leaderID apply_fn s =
     (if length (nodes c) \<le> leaderID then None
      else let n = nodes c ! leaderID in
           if n_State n \<noteq> Leader \<or> n_Term n < committedTrm c then Some (Some ErrFenced, s)
           else Some (None, apply_fn s))"

section \<open>Runs of a cluster\<close>

datatype raft_op = RPartition "nat list" | RHeal | RElect nat

text \<open>An election of a node that does not exist is not performed.\<close>

definition raft_exec :: "raft_op \<Rightarrow> cluster \<Rightarrow> cluster" where
  "raft_exec op c =
     (case op of
        RPartition ids \<Rightarrow> Partition ids c
      | RHeal \<Rightarrow> Heal c
      | RElect nid \<Rightarrow> (case Elect nid c of None \<Rightarrow> c | Some (_, c') \<Rightarrow> c'))"

definition raft_run :: "nat \<Rightarrow> raft_op list \<Rightarrow> cluster" where
  "raft_run n ops = fold raft_exec ops (NewCluster n)"

text \<open>
  After \<open>k\<close> operations: IDs are positions, no term exceeds \<open>k\<close>, no leader is ahead of the fence,
  and two leaders never share a term.
\<close>

definition raft_inv :: "nat \<Rightarrow> nat \<Rightarrow> cluster \<Rightarrow> bool" where
  "raft_inv n k c \<longleftrightarrow> length (nodes c) = n \<and>
     (\<forall>i < n. n_ID (nodes c ! i) = i \<and> unat (n_Term (nodes c ! i)) \<le> k) \<and>
     (\<forall>i < n. n_State (nodes c ! i) = Leader \<longrightarrow> n_Term (nodes c ! i) \<le> committedTrm c) \<and>
     (\<forall>i < n. \<forall>j < n. n_State (nodes c ! i) = Leader \<longrightarrow> n_State (nodes c ! j) = Leader \<longrightarrow>
        n_Term (nodes c ! i) = n_Term (nodes c ! j) \<longrightarrow> i = j)"

lemma max_term_bounds:
  "m \<le> foldl (\<lambda>m n. if n_Term n > m then n_Term n else m) m ns \<and>
   (\<forall>n \<in> set ns. n_Term n \<le> foldl (\<lambda>m n. if n_Term n > m then n_Term n else m) m ns) \<and>
   (foldl (\<lambda>m n. if n_Term n > m then n_Term n else m) m ns = m \<or>
    (\<exists>n \<in> set ns. foldl (\<lambda>m n. if n_Term n > m then n_Term n else m) m ns = n_Term n))"
proof (induction ns arbitrary: m)
  case (Cons n ns)
  show ?case
    using Cons.IH [of m] Cons.IH [of "n_Term n"]
    by (cases "m < n_Term n") (simp_all, auto intro: order_trans)
qed simp

lemma max_term_ge: "n \<in> set ns \<Longrightarrow> n_Term n \<le> max_term ns"
  using max_term_bounds [of 0 ns] by (simp add: max_term_def)

lemma max_term_le: "\<forall>n \<in> set ns. unat (n_Term n) \<le> k \<Longrightarrow> unat (max_term ns) \<le> k"
  using max_term_bounds [of 0 ns] by (auto simp: max_term_def)

lemma new_term:
  assumes "raft_inv n k c" "Suc k < 2 ^ 64"
  shows "unat (max_term (nodes c) + 1) \<le> Suc k"
    and "i < n \<Longrightarrow> n_Term (nodes c ! i) < max_term (nodes c) + 1"
proof -
  have "unat (max_term (nodes c)) \<le> k"
    using assms(1) by (intro max_term_le) (auto simp: raft_inv_def in_set_conv_nth)
  then have u: "unat (max_term (nodes c) + 1) = unat (max_term (nodes c)) + 1"
    using assms(2) by (simp add: unat_word_ariths)
  then show "unat (max_term (nodes c) + 1) \<le> Suc k"
    using \<open>unat (max_term (nodes c)) \<le> k\<close> by simp
  show "n_Term (nodes c ! i) < max_term (nodes c) + 1" if "i < n"
  proof -
    have "n_Term (nodes c ! i) \<le> max_term (nodes c)"
      using assms(1) that by (intro max_term_ge) (simp add: raft_inv_def)
    then show ?thesis using u by (simp add: word_le_nat_alt word_less_nat_alt)
  qed
qed

lemma Elect_cases:
  assumes "Elect nid c = Some (r, c')"
  obtains (lost) "nid < length (nodes c)" "r = Inl ErrNoQuorum" "committedTrm c' = committedTrm c"
      "nodes c' = (nodes c)[nid := (nodes c ! nid)\<lparr>n_Term := max_term (nodes c) + 1, n_State := Follower\<rparr>]"
      "reachable c (nodes c ! nid) < majority c"
  | (won) ldr where "nid < length (nodes c)" "r = Inr ldr" "committedTrm c' = max_term (nodes c) + 1"
      "ldr = (nodes c ! nid)\<lparr>n_Term := max_term (nodes c) + 1, n_State := Leader\<rparr>"
      "nodes c' = (map (\<lambda>n. if n_group n = n_group ldr \<and> n_ID n \<noteq> n_ID ldr
          then n\<lparr>n_State := Follower, n_Term := max_term (nodes c) + 1\<rparr> else n) (nodes c)) [nid := ldr]"
      "majority c \<le> reachable c (nodes c ! nid)"
proof -
  define cand where "cand = (nodes c ! nid)\<lparr>n_State := Candidate, n_Term := max_term (nodes c) + 1\<rparr>"
  define c1 where "c1 = c\<lparr>nodes := (nodes c)[nid := cand]\<rparr>"
  have nid: "nid < length (nodes c)" using assms by (auto simp: Elect_def split: if_splits)
  have "map n_group ((nodes c)[nid := cand]) = map n_group (nodes c)"
    using nid by (simp add: map_update cand_def list_update_same_conv)
  then have "length (filter (\<lambda>g. g = n_group cand) (map n_group ((nodes c)[nid := cand]))) =
      length (filter (\<lambda>g. g = n_group cand) (map n_group (nodes c)))" by simp
  then have r: "reachable c1 cand = reachable c (nodes c ! nid)"
    by (simp add: reachable_def c1_def cand_def filter_map comp_def)
  have m: "majority c1 = majority c" by (simp add: majority_def c1_def)
  have t: "n_Term cand = max_term (nodes c) + 1" by (simp add: cand_def)
  note E = assms [unfolded Elect_def Let_def, folded cand_def, folded c1_def, unfolded r m t]
  show ?thesis
  proof (cases "reachable c (nodes c ! nid) < majority c")
    case True
    with E nid show ?thesis by (intro lost) (auto simp: c1_def cand_def)
  next
    case False
    with E nid show ?thesis by (intro won) (auto simp: c1_def cand_def map_update)
  qed
qed

lemma raft_inv_mono: "raft_inv n k c \<Longrightarrow> raft_inv n (Suc k) c"
  by (auto simp: raft_inv_def le_SucI)

lemma Elect_inv:
  assumes "raft_inv n k c" "Suc k < 2 ^ 64" "Elect nid c = Some (r, c')"
  shows "raft_inv n (Suc k) c'"
  using assms(3)
proof (cases rule: Elect_cases)
  case lost
  have len: "length (nodes c') = n" using lost assms(1) by (simp add: raft_inv_def)
  have at: "nodes c' ! i = (if i = nid then (nodes c ! nid)\<lparr>n_Term := max_term (nodes c) + 1, n_State := Follower\<rparr>
      else nodes c ! i)" if "i < n" for i
    using lost that assms(1) by (simp add: raft_inv_def nth_list_update)
  show ?thesis
    using assms(1) new_term(1) [OF assms(1,2)] lost(3) unfolding raft_inv_def len
    by (simp add: at le_SucI)
next
  case (won ldr)
  define T where "T = max_term (nodes c) + 1"
  have fresh: "n_Term (nodes c ! i) < T" if "i < n" for i
    using new_term(2) [OF assms(1,2) that] by (simp add: T_def)
  have bound: "unat T \<le> Suc k" using new_term(1) [OF assms(1,2)] by (simp add: T_def)
  have at: "n_ID (nodes c' ! i) = i"
    "n_Term (nodes c' ! i) = T \<or> n_Term (nodes c' ! i) = n_Term (nodes c ! i)"
    "n_State (nodes c' ! i) = Leader \<Longrightarrow> i = nid \<and> n_Term (nodes c' ! i) = T \<or>
       i \<noteq> nid \<and> n_State (nodes c ! i) = Leader \<and> n_Term (nodes c' ! i) = n_Term (nodes c ! i)"
    if "i < n" for i
    using won that assms(1) by (auto simp: raft_inv_def nth_list_update T_def split: if_splits)
  have T: "committedTrm c' = T" "length (nodes c') = n"
    using won assms(1) by (simp_all add: T_def raft_inv_def)
  have "n_Term (nodes c' ! i) \<noteq> n_Term (nodes c' ! j)"
    if "i < n" "j < n" "i \<noteq> j" "n_State (nodes c' ! i) = Leader" "n_State (nodes c' ! j) = Leader" for i j
    using at(3) [OF that(1,4)] at(3) [OF that(2,5)] fresh [OF that(1)] fresh [OF that(2)] that(1-3) assms(1)
    by (auto simp: raft_inv_def)
  moreover have "unat (n_Term (nodes c' ! i)) \<le> Suc k" if "i < n" for i
    using at(2) [OF that] bound assms(1) that by (auto simp: raft_inv_def intro: le_SucI)
  moreover have "n_Term (nodes c' ! i) \<le> T" if "i < n" for i
    using at(2) [OF that] fresh [OF that] by auto
  ultimately show ?thesis
    unfolding raft_inv_def T using at(1) by blast
qed

lemma raft_exec_inv:
  assumes "raft_inv n k c" "Suc k < 2 ^ 64"
  shows "raft_inv n (Suc k) (raft_exec op c)"
proof (cases op)
  case (RPartition ids)
  with raft_inv_mono [OF assms(1)] show ?thesis
    by (auto simp: raft_exec_def Partition_def Let_def raft_inv_def split: if_splits)
next
  case RHeal
  with raft_inv_mono [OF assms(1)] show ?thesis
    by (auto simp: raft_exec_def Heal_def raft_inv_def)
next
  case (RElect nid)
  with raft_inv_mono [OF assms(1)] Elect_inv [OF assms] show ?thesis
    by (auto simp: raft_exec_def split: option.splits)
qed

lemma raft_run_inv: "length ops < 2 ^ 64 \<Longrightarrow> raft_inv n (length ops) (raft_run n ops)"
proof (induction ops rule: rev_induct)
  case Nil
  then show ?case by (simp add: raft_inv_def raft_run_def NewCluster_def)
next
  case (snoc op ops)
  then show ?case using raft_exec_inv [of n "length ops" "raft_run n ops" op] by (simp add: raft_run_def)
qed

text \<open>A node may write exactly when it leads with the committed term.\<close>

lemma raft_Write_iff:
  assumes "raft_inv n k c"
  shows "raft_Write c i f s = Some (None, s') \<longleftrightarrow>
    i < n \<and> n_State (nodes c ! i) = Leader \<and> n_Term (nodes c ! i) = committedTrm c \<and> s' = f s"
proof -
  have "i < n \<Longrightarrow> n_State (nodes c ! i) = Leader \<Longrightarrow> n_Term (nodes c ! i) \<le> committedTrm c"
    using assms by (simp add: raft_inv_def)
  then show ?thesis
    using assms by (auto simp: raft_Write_def raft_inv_def Let_def not_less not_le split: if_splits)
qed

section \<open>Properties\<close>

text \<open>C13. No split brain: after any sequence of partitions, healings and elections (fewer than
  \<open>2^64\<close>), at most one node's writes are accepted; a won election had a strict majority of the
  whole cluster behind it, lets exactly the new leader write and fences every other node; an
  election without quorum fails with \<open>ErrNoQuorum\<close>, leaves the fence where it was and lets no new
  node write; and a rejected write changes nothing.\<close>

theorem raft_single_writer:
  assumes "length ops < 2 ^ 64 - 1" and "c = raft_run n ops"
  shows "(\<forall>i j f s. raft_Write c i f s = Some (None, f s) \<longrightarrow> raft_Write c j f s = Some (None, f s) \<longrightarrow> i = j) \<and>
    (\<forall>nid ldr c'. Elect nid c = Some (Inr ldr, c') \<longrightarrow>
       n < 2 * reachable c (nodes c ! nid) \<and>
       (\<forall>i < n. \<forall>f s. raft_Write c' i f s = (if i = nid then Some (None, f s) else Some (Some ErrFenced, s)))) \<and>
    (\<forall>nid e c'. Elect nid c = Some (Inl e, c') \<longrightarrow>
       e = ErrNoQuorum \<and> 2 * reachable c (nodes c ! nid) \<le> n + 1 \<and> committedTrm c' = committedTrm c \<and>
       (\<forall>i f s. raft_Write c' i f s = Some (None, f s) \<longrightarrow> raft_Write c i f s = Some (None, f s))) \<and>
    (\<forall>i f s e s'. raft_Write c i f s = Some (Some e, s') \<longrightarrow> e = ErrFenced \<and> s' = s)"
proof (intro conjI allI impI)
  have inv: "raft_inv n (length ops) c" using raft_run_inv assms by simp
  then have len: "length (nodes c) = n" by (simp add: raft_inv_def)
  note W = raft_Write_iff [OF inv]
  show "i = j" if "raft_Write c i f s = Some (None, f s)" "raft_Write c j f s = Some (None, f s)" for i j f s
    using that inv W [of i f s] W [of j f s] by (simp add: raft_inv_def)
  {
    fix nid ldr c' assume E: "Elect nid c = Some (Inr ldr, c')"
    have inv': "raft_inv n (Suc (length ops)) c'" using Elect_inv [OF inv _ E] assms(1) by simp
    from E obtain "nid < n" "n_State (nodes c' ! nid) = Leader" "n_Term (nodes c' ! nid) = committedTrm c'"
      "majority c \<le> reachable c (nodes c ! nid)"
      by (cases rule: Elect_cases) (auto simp: len)
    then show "n < 2 * reachable c (nodes c ! nid)" by (auto simp: majority_def len)
    fix i f s assume "i < n"
    with inv' \<open>nid < n\<close> \<open>n_State (nodes c' ! nid) = Leader\<close> \<open>n_Term (nodes c' ! nid) = committedTrm c'\<close>
    show "raft_Write c' i f s = (if i = nid then Some (None, f s) else Some (Some ErrFenced, s))"
      by (auto simp: raft_Write_def raft_inv_def Let_def)
  }
  {
    fix nid e c' assume E: "Elect nid c = Some (Inl e, c')"
    then show "e = ErrNoQuorum" "committedTrm c' = committedTrm c" "2 * reachable c (nodes c ! nid) \<le> n + 1"
      by (auto elim!: Elect_cases simp: majority_def len)
    fix i f s assume "raft_Write c' i f s = Some (None, f s)"
    with E show "raft_Write c i f s = Some (None, f s)"
      by (auto elim!: Elect_cases simp: raft_Write_def Let_def nth_list_update split: if_splits)
  }
  show "e = ErrFenced" "s' = s" if "raft_Write c i f s = Some (Some e, s')" for i f s e s'
    using that by (auto simp: raft_Write_def Let_def split: if_splits)
qed

text \<open>A leader cut off from the majority, before and after the majority elects another.\<close>

definition demo_split :: "raft_op list" where
  "demo_split = [RElect 0, RPartition [0], RElect 1, RHeal]"

lemma demo_split_run:
  "raft_Write (raft_run 3 demo_split) 1 (\<lambda>s. s + 1) (0 :: nat) = Some (None, 1)"
  "raft_Write (raft_run 3 demo_split) 0 (\<lambda>s. s + 1) (0 :: nat) = Some (Some ErrFenced, 0)"
  by code_simp+

theorem raft_single_writer_witness:
  "raft_Write (raft_run 3 demo_split) 1 (\<lambda>s. s + 1) (0 :: nat) = Some (None, 1) \<and>
   raft_Write (raft_run 3 demo_split) 0 (\<lambda>s. s + 1) (0 :: nat) \<noteq> Some (None, 1)"
  using raft_single_writer [of demo_split _ 3, OF _ refl, THEN conjunct1, rule_format, of 0 "\<lambda>s. s + 1" "0 :: nat" 1]
    demo_split_run(1)
  by (auto simp: demo_split_def)

text \<open>Writes do not check the quorum: a leader alone in its partition goes on writing until the
  other side elects a leader.\<close>

lemma minority_leader_writes:
  "raft_Write (raft_run 3 [RElect 0, RPartition [0]]) 0 (\<lambda>s. s + 1) (0 :: nat) = Some (None, 1) \<and>
   2 * reachable (raft_run 3 [RElect 0, RPartition [0]]) (nodes (raft_run 3 [RElect 0, RPartition [0]]) ! 0) \<le> 3"
  by code_simp

end
