(* ===== verification/Encoding.thy ===== *)
theory Encoding
  imports Go_Prelude
begin

text \<open>
  What the services use of \<open>encoding/base64\<close> and \<open>encoding/hex\<close>: the 64-letter alphabets, encoding
  and decoding of bytes with and without padding, and that decoding inverts encoding. As in Go's
  decoder, carriage returns and newlines are skipped and unused trailing bits are not checked.
\<close>

section \<open>Six-bit groups\<close>

definition byte_of :: "char \<Rightarrow> nat" where
  "byte_of c = of_char c"

lemma byte_of_less [simp]: "byte_of c < 256"
  by (simp add: byte_of_def)

lemma char_of_byte_of [simp]: "char_of (byte_of c) = c"
  by (simp add: byte_of_def)

fun sixes :: "nat list \<Rightarrow> nat list" where
  "sixes [] = []"
| "sixes [a] = [a div 4, (a mod 4) * 16]"
| "sixes [a, b] = [a div 4, (a mod 4) * 16 + b div 16, (b mod 16) * 4]"
| "sixes (a # b # c # r) =
     a div 4 # ((a mod 4) * 16 + b div 16) # ((b mod 16) * 4 + c div 64) # (c mod 64) # sixes r"

fun bytes_of_sixes :: "nat list \<Rightarrow> nat list option" where
  "bytes_of_sixes [] = Some []"
| "bytes_of_sixes [a] = None"
| "bytes_of_sixes [a, b] = Some [a * 4 + b div 16]"
| "bytes_of_sixes [a, b, c] = Some [a * 4 + b div 16, (b mod 16) * 16 + c div 4]"
| "bytes_of_sixes (a # b # c # d # r) =
     map_option (\<lambda>bs. (a * 4 + b div 16) # ((b mod 16) * 16 + c div 4) # ((c mod 4) * 64 + d) # bs)
       (bytes_of_sixes r)"

lemma six1: "a div 4 * 4 + ((a mod 4) * 16 + b) div 16 = (a :: nat)" if "b < 16"
  using that by (simp add: div_mult_self3)

lemma six2: "((a mod 4) * 16 + b div 16) mod 16 * 16 + ((b mod 16) * 4 + c) div 4 = (b :: nat)" if "b < 256" "c < 4"
proof -
  have "b div 16 < 16" using that(1) by simp
  then have "((a mod 4) * 16 + b div 16) mod 16 = b div 16" by simp
  moreover have "((b mod 16) * 4 + c) div 4 = b mod 16" using that(2) by simp
  ultimately show ?thesis by simp
qed

lemma six3: "((b mod 16) * 4 + c div 64) mod 4 * 64 + c mod 64 = (c :: nat)" if "c < 256"
proof -
  have "c div 64 < 4" using that by simp
  then have "((b mod 16) * 4 + c div 64) mod 4 = c div 64" by simp
  then show ?thesis by simp
qed

lemma bytes_of_sixes_sixes: "\<forall>b \<in> set bs. b < 256 \<Longrightarrow> bytes_of_sixes (sixes bs) = Some bs"
proof (induction bs rule: sixes.induct)
  case (2 a)
  then show ?case using six1 [of 0 a] by simp
next
  case (3 a b)
  then show ?case using six1 [of "b div 16" a] six2 [of b 0 a] by simp
next
  case (4 a b c r)
  then have "b div 16 < 16" "c div 64 < 4" by auto
  then have "a div 4 * 4 + ((a mod 4) * 16 + b div 16) div 16 = a"
    "((a mod 4) * 16 + b div 16) mod 16 * 16 + ((b mod 16) * 4 + c div 64) div 4 = b"
    "((b mod 16) * 4 + c div 64) mod 4 * 64 + c mod 64 = c"
    using 4(2) by (auto simp only: six1 six2 six3 list.set insert_iff)
  with 4 show ?case by (simp del: mod_mult_self1 mod_mult_self2 mod_mult_self3 div_mult_self1 div_mult_self2 div_mult_self3)
qed simp

lemma six_bounds:
  "(a :: nat) < 256 \<Longrightarrow> a div 4 < 64"
  "(b :: nat) < 16 \<Longrightarrow> (a mod 4) * 16 + b < 64"
  "(c :: nat) < 4 \<Longrightarrow> (b mod 16) * 4 + c < 64"
  using mod_less_divisor [of 4 a] mod_less_divisor [of 16 b] by linarith+

lemma sixes_less: "\<forall>b \<in> set bs. b < 256 \<Longrightarrow> \<forall>v \<in> set (sixes bs). v < 64"
proof (induction bs rule: sixes.induct)
  case (2 a)
  then show ?case using six_bounds(1) [of a] six_bounds(2) [of 0 a] by simp
next
  case (3 a b)
  then have "b div 16 < 16" by auto
  then show ?case
    using 3 six_bounds(1) [of a] six_bounds(2) [of "b div 16" a] six_bounds(3) [of 0 b] by simp
next
  case (4 a b c r)
  then have "b div 16 < 16" "c div 64 < 4" by auto
  then show ?case
    using 4 six_bounds(1) [of a] six_bounds(2) [of "b div 16" a] six_bounds(3) [of "c div 64" b] by simp
qed simp

section \<open>Alphabets\<close>

definition std_alphabet :: string where
  "std_alphabet = ''ABCDEFGHIJKLMNOPQRSTUVWXYZabcdefghijklmnopqrstuvwxyz0123456789+/''"

definition url_alphabet :: string where
  "url_alphabet = ''ABCDEFGHIJKLMNOPQRSTUVWXYZabcdefghijklmnopqrstuvwxyz0123456789-_''"

lemma alphabets:
  "distinct std_alphabet" "length std_alphabet = 64" "distinct url_alphabet" "length url_alphabet = 64"
  by (simp_all add: std_alphabet_def url_alphabet_def)

fun mapM_opt :: "('a \<Rightarrow> 'b option) \<Rightarrow> 'a list \<Rightarrow> 'b list option" where
  "mapM_opt f [] = Some []"
| "mapM_opt f (x # xs) =
     (case f x of None \<Rightarrow> None | Some y \<Rightarrow> map_option (Cons y) (mapM_opt f xs))"

lemma mapM_opt_map: "(\<And>x. x \<in> set xs \<Longrightarrow> f (g x) = Some x) \<Longrightarrow> mapM_opt f (map g xs) = Some xs"
  by (induction xs) auto

section \<open>\<open>RawURLEncoding\<close>\<close>

definition no_newlines :: "string \<Rightarrow> string" where
  "no_newlines s = filter (\<lambda>c. c \<noteq> CHR 0x0A \<and> c \<noteq> CHR 0x0D) s"

definition b64url_encode :: "string \<Rightarrow> string" where
  "b64url_encode s = map ((!) url_alphabet) (sixes (map byte_of s))"

definition b64url_decode :: "string \<Rightarrow> string option" where
  "b64url_decode s =
     (case mapM_opt (\<lambda>c. index_of c url_alphabet) (no_newlines s) of
        None \<Rightarrow> None
      | Some vs \<Rightarrow> map_option (map char_of) (bytes_of_sixes vs))"

lemma url_alphabet_clean: "c \<in> set url_alphabet \<Longrightarrow> c \<noteq> CHR 0x0A \<and> c \<noteq> CHR 0x0D \<and> c \<noteq> CHR ''.''"
  by (auto simp: url_alphabet_def)

lemma b64url_encode_set: "set (b64url_encode s) \<subseteq> set url_alphabet"
proof -
  have "v < 64" if "v \<in> set (sixes (map byte_of s))" for v
    using sixes_less [of "map byte_of s"] that by simp
  then show ?thesis using alphabets by (auto simp: b64url_encode_def)
qed

lemma b64url_no_dot: "CHR ''.'' \<notin> set (b64url_encode s)"
  using b64url_encode_set [of s] url_alphabet_clean by blast

lemma map_char_of_byte [simp]: "map (char_of \<circ> byte_of) s = s"
  by (simp add: comp_def)

lemma b64url_round_trip [simp]: "b64url_decode (b64url_encode s) = Some s"
proof -
  have v: "v < 64" if "v \<in> set (sixes (map byte_of s))" for v
    using sixes_less [of "map byte_of s"] that by simp
  have "no_newlines (b64url_encode s) = b64url_encode s"
    using b64url_encode_set [of s] url_alphabet_clean by (auto simp: no_newlines_def filter_id_conv)
  moreover have "mapM_opt (\<lambda>c. index_of c url_alphabet) (b64url_encode s) = Some (sixes (map byte_of s))"
    unfolding b64url_encode_def by (rule mapM_opt_map) (use v alphabets in \<open>auto intro: index_of_nth\<close>)
  moreover have "bytes_of_sixes (sixes (map byte_of s)) = Some (map byte_of s)"
    by (rule bytes_of_sixes_sixes) simp
  ultimately show ?thesis by (simp add: b64url_decode_def)
qed

section \<open>\<open>StdEncoding\<close>\<close>

text \<open>Padding to a multiple of four letters, and its removal.\<close>

definition b64_pad :: "string \<Rightarrow> string" where
  "b64_pad s = s @ replicate ((4 - length s mod 4) mod 4) (CHR ''='')"

definition b64_unpad :: "string \<Rightarrow> string option" where
  "b64_unpad s =
     (if length s mod 4 \<noteq> 0 then None
      else if length s \<ge> 2 \<and> drop (length s - 2) s = ''=='' then Some (take (length s - 2) s)
      else if s \<noteq> [] \<and> last s = CHR ''='' then Some (butlast s)
      else Some s)"

definition b64_encode :: "string \<Rightarrow> string" where
  "b64_encode s = b64_pad (map ((!) std_alphabet) (sixes (map byte_of s)))"

definition b64_decode :: "string \<Rightarrow> string option" where
  "b64_decode s =
     (case b64_unpad (no_newlines s) of
        None \<Rightarrow> None
      | Some u \<Rightarrow>
          (case mapM_opt (\<lambda>c. index_of c std_alphabet) u of
             None \<Rightarrow> None
           | Some vs \<Rightarrow> map_option (map char_of) (bytes_of_sixes vs)))"

lemma length_sixes_mod: "length (sixes bs) mod 4 \<noteq> 1"
  by (induction bs rule: sixes.induct) (simp_all add: mod_Suc)

lemma b64_unpad_two: "length s mod 4 = 2 \<Longrightarrow> b64_unpad (s @ ''=='') = Some s"
  by (simp add: b64_unpad_def) presburger

lemma b64_unpad_one:
  assumes "CHR ''='' \<notin> set s" "length s mod 4 = 3"
  shows "b64_unpad (s @ ''='') = Some s"
proof -
  obtain t x where s: "s = t @ [x]" using assms(2) by (cases s rule: rev_cases) auto
  have "drop (length (s @ ''='') - 2) (s @ ''='') = [x, CHR ''='']" by (simp add: s)
  moreover have "x \<noteq> CHR ''=''" using assms(1) s by auto
  moreover have "length (s @ ''='') mod 4 = 0" using assms(2) by simp presburger
  ultimately show ?thesis unfolding b64_unpad_def by simp
qed

lemma b64_unpad_none:
  assumes "CHR ''='' \<notin> set s" "length s mod 4 = 0"
  shows "b64_unpad s = Some s"
proof (cases s rule: rev_cases)
  case (snoc t x)
  then have x: "x \<noteq> CHR ''=''" using assms(1) by auto
  have "drop (length s - 2) s \<noteq> ''==''"
  proof
    assume "drop (length s - 2) s = ''==''"
    then have "CHR ''='' \<in> set (drop (length s - 2) s)" by simp
    with assms(1) show False using set_drop_subset [of "length s - 2" s] by blast
  qed
  with x snoc assms(2) show ?thesis unfolding b64_unpad_def by simp
qed (simp add: b64_unpad_def)

lemma b64_unpad_pad:
  assumes "CHR ''='' \<notin> set s" "length s mod 4 \<noteq> 1"
  shows "b64_unpad (b64_pad s) = Some s"
proof -
  have "length s mod 4 < 4" by simp
  then consider "length s mod 4 = 0" | "length s mod 4 = 2" | "length s mod 4 = 3"
    using assms(2) by linarith
  then show ?thesis
  proof cases
    case 1
    then show ?thesis using b64_unpad_none [OF assms(1)] by (simp add: b64_pad_def)
  next
    case 2
    have two: "replicate 2 (CHR ''='') = ''==''" by (simp add: numeral_2_eq_2)
    have "b64_pad s = s @ replicate 2 (CHR ''='')" using 2 by (simp only: b64_pad_def) simp
    then show ?thesis using b64_unpad_two [OF 2] by (simp only: two)
  next
    case 3
    then have "b64_pad s = s @ ''=''" by (simp only: b64_pad_def) simp
    then show ?thesis using b64_unpad_one [OF assms(1) 3] by (simp only:)
  qed
qed

lemma b64_round_trip [simp]: "b64_decode (b64_encode s) = Some s"
proof -
  let ?l = "map ((!) std_alphabet) (sixes (map byte_of s))"
  have v: "v < 64" if "v \<in> set (sixes (map byte_of s))" for v
    using sixes_less [of "map byte_of s"] that by simp
  then have sub: "set ?l \<subseteq> set std_alphabet" using alphabets by auto
  have clean: "CHR ''='' \<notin> set ?l" "\<forall>c \<in> set ?l. c \<noteq> CHR 0x0A \<and> c \<noteq> CHR 0x0D"
    using sub by (auto simp: std_alphabet_def)
  have "no_newlines (b64_encode s) = b64_encode s"
    using clean(2) by (auto simp: no_newlines_def b64_encode_def b64_pad_def filter_id_conv)
  moreover have "b64_unpad (b64_encode s) = Some ?l"
    unfolding b64_encode_def by (rule b64_unpad_pad [OF clean(1)]) (use length_sixes_mod in simp)
  moreover have "mapM_opt (\<lambda>c. index_of c std_alphabet) ?l = Some (sixes (map byte_of s))"
    by (rule mapM_opt_map) (use v alphabets in \<open>auto intro: index_of_nth\<close>)
  moreover have "bytes_of_sixes (sixes (map byte_of s)) = Some (map byte_of s)"
    by (rule bytes_of_sixes_sixes) simp
  ultimately show ?thesis by (simp add: b64_decode_def)
qed

section \<open>\<open>encoding/hex\<close>\<close>

definition hex_alphabet :: string where
  "hex_alphabet = ''0123456789abcdef''"

definition hex_encode :: "string \<Rightarrow> string" where
  "hex_encode s = concat (map (\<lambda>c. [hex_alphabet ! (byte_of c div 16), hex_alphabet ! (byte_of c mod 16)]) s)"

lemma hex_encode_set: "set (hex_encode s) \<subseteq> set hex_alphabet"
proof -
  have "byte_of c div 16 < 16" for c using byte_of_less [of c] by (simp only: less_mult_imp_div_less)
  moreover have "length hex_alphabet = 16" by (simp add: hex_alphabet_def)
  ultimately show ?thesis by (auto simp: hex_encode_def)
qed

lemma hex_no_dot: "CHR ''.'' \<notin> set (hex_encode s)"
  using hex_encode_set [of s] by (auto simp: hex_alphabet_def)

lemma hex_encode_eq_Nil [simp]: "hex_encode s = [] \<longleftrightarrow> s = []"
  by (cases s) (auto simp: hex_encode_def)

end
