(* ===== verification/Http.thy ===== *)
theory Http
  imports Encoding
begin

text \<open>
  What the handlers use of \<open>net/http\<close>: requests, header maps, the error helpers, and the response
  a client sees. A header map is a list of keys with their values; keys are distinct.
\<close>

type_synonym http_header = "(string \<times> string list) list"

record request =
  rq_method :: string
  rq_url :: string
  rq_path :: string
  rq_query :: "(string \<times> string list) list"
  rq_header :: http_header
  rq_remote :: string
  rq_body :: "string option"
  rq_bodyLimit :: "int option"

definition header_get :: "http_header \<Rightarrow> string \<Rightarrow> string" where
  "header_get h k = (case map_of h k of Some (v # vs) \<Rightarrow> v | _ \<Rightarrow> [])"

text \<open>\<open>Header.Add\<close>.\<close>

fun header_add :: "string \<Rightarrow> string \<Rightarrow> http_header \<Rightarrow> http_header" where
  "header_add k v [] = [(k, [v])]"
| "header_add k v ((k', vs) # h) = (if k' = k then (k', vs @ [v]) # h else (k', vs) # header_add k v h)"

record response =
  rs_status :: int
  rs_header :: http_header
  rs_body :: string

definition http_Error :: "string \<Rightarrow> int \<Rightarrow> response" where
  "http_Error msg code =
     \<lparr>rs_status = code,
      rs_header = [(''Content-Type'', [''text/plain; charset=utf-8'']), (''X-Content-Type-Options'', [''nosniff''])],
      rs_body = msg @ [CHR 0x0A]\<rparr>"

definition http_NotFound :: response where
  "http_NotFound = http_Error ''404 page not found'' 404"

text \<open>
  \<open>w.WriteHeader(status); w.Write(body)\<close> on a server's writer: an informational status (other
  than 101) is sent ahead, and the response itself then goes out with status 200.
\<close>

definition server_write :: "int \<Rightarrow> http_header \<Rightarrow> string \<Rightarrow> response" where
  "server_write status h body =
     \<lparr>rs_status = (if 100 \<le> status \<and> status \<le> 199 \<and> status \<noteq> 101 then 200 else status),
      rs_header = h, rs_body = body\<rparr>"

lemma header_add_get:
  "header_get (header_add k v h) k' =
     (if k' = k \<and> header_get h k = [] \<and> map_of h k \<in> {None, Some []} then v else header_get h k')"
  by (induction k v h rule: header_add.induct) (auto simp: header_get_def split: list.splits)

lemma header_add_new: "k \<notin> fst ` set h \<Longrightarrow> header_add k v h = h @ [(k, [v])]"
  by (induction k v h rule: header_add.induct) auto

text \<open>Copying a header map into an empty one value by value.\<close>

definition header_copy :: "http_header \<Rightarrow> http_header" where
  "header_copy h = fold (\<lambda>(k, vs) acc. fold (header_add k) vs acc) h []"

lemma header_add_last: "k \<notin> fst ` set a \<Longrightarrow> header_add k v (a @ [(k, vs)]) = a @ [(k, vs @ [v])]"
  by (induction a) auto

lemma header_add_vals:
  "k \<notin> fst ` set a \<Longrightarrow> fold (header_add k) ws (a @ [(k, vs)]) = a @ [(k, vs @ ws)]"
  by (induction ws arbitrary: vs) (simp_all add: header_add_last)

lemma header_add_all:
  assumes "k \<notin> fst ` set a" "vs \<noteq> []"
  shows "fold (header_add k) vs a = a @ [(k, vs)]"
  using assms by (cases vs) (simp_all add: header_add_new header_add_vals)

lemma header_copy_fold:
  "distinct (map fst (a @ h)) \<Longrightarrow> \<forall>p \<in> set h. snd p \<noteq> [] \<Longrightarrow>
    fold (\<lambda>(k, vs) acc. fold (header_add k) vs acc) h a = a @ h"
proof (induction h arbitrary: a)
  case (Cons p h)
  obtain k vs where p: "p = (k, vs)" by (cases p)
  have "fold (header_add k) vs a = a @ [(k, vs)]"
    using Cons.prems p by (intro header_add_all) auto
  then show ?case using Cons.IH [of "a @ [(k, vs)]"] Cons.prems p by simp
qed simp

lemma header_copy_id: "distinct (map fst h) \<Longrightarrow> \<forall>p \<in> set h. snd p \<noteq> [] \<Longrightarrow> header_copy h = h"
  using header_copy_fold [of "[]" h] by (simp add: header_copy_def)

end
