(* ===== verification/Limiter.thy ===== *)
theory Limiter
  imports Go_Prelude Complex_Main
begin

text \<open>
  \<open>fintech-gateway-go/internal/ratelimit\<close>: the sharded token-bucket limiter with its idle sweeper.
  Token counts, rates and bursts are \<open>float64\<close> in the source; they are exact rationals here, so
  the rounding of the floating-point operations is not part of the model. Times are nanoseconds.
\<close>

record bucket =
  bu_tokens :: rat
  bu_lastSeen :: instant

record limiter =
  l_rate :: rat
  l_burst :: rat
  l_idleTTL :: duration
  l_shards :: "(string \<rightharpoonup> bucket) list"

definition second :: duration where "second = 1000000000"
definition minute :: duration where "minute = 60 * second"

definition secs :: "duration \<Rightarrow> rat" where
  "secs d = of_int d / of_int second"

text \<open>\<open>time.Duration(float64(burst)/ratePerSecond*4) * time.Second\<close>, at least a minute.\<close>

definition idle_ttl :: "rat \<Rightarrow> int \<Rightarrow> duration" where
  "idle_ttl ratePerSecond burst =
     (let t = \<lfloor>of_int burst / ratePerSecond * 4\<rfloor> * second in if t < minute then minute else t)"

definition New_limiter :: "rat \<Rightarrow> int \<Rightarrow> limiter" where
  "New_limiter ratePerSecond burst =
     \<lparr>l_rate = ratePerSecond, l_burst = of_int burst, l_idleTTL = idle_ttl ratePerSecond burst,
      l_shards = replicate 256 Map.empty\<rparr>"

text \<open>The body of \<open>Allow\<close> under the shard's lock.\<close>

definition bucket_allow :: "rat \<Rightarrow> rat \<Rightarrow> instant \<Rightarrow> string \<Rightarrow> (string \<rightharpoonup> bucket) \<Rightarrow> bool \<times> (string \<rightharpoonup> bucket)" where
  "bucket_allow rate burst now key m =
     (case m key of
        None \<Rightarrow> (True, m(key \<mapsto> \<lparr>bu_tokens = burst - 1, bu_lastSeen = now\<rparr>))
      | Some b \<Rightarrow>
          (let elapsed = secs (now - bu_lastSeen b);
               t = bu_tokens b + elapsed * rate;
               t = (if t > burst then burst else t)
           in if t < 1 then (False, m(key \<mapsto> \<lparr>bu_tokens = t, bu_lastSeen = now\<rparr>))
              else (True, m(key \<mapsto> \<lparr>bu_tokens = t - 1, bu_lastSeen = now\<rparr>))))"

definition lim_Allow :: "instant \<Rightarrow> string \<Rightarrow> limiter \<Rightarrow> bool \<times> limiter" where
  "lim_Allow now key l =
     (case on_shard key (bucket_allow (l_rate l) (l_burst l) now key) (l_shards l) of
        (r, ss) \<Rightarrow> (r, l\<lparr>l_shards := ss\<rparr>))"

definition sweep :: "instant \<Rightarrow> limiter \<Rightarrow> limiter" where
  "sweep now l =
     (let cutoff = now - l_idleTTL l in
      l\<lparr>l_shards := map (\<lambda>m k. case m k of
           None \<Rightarrow> None
         | Some b \<Rightarrow> if bu_lastSeen b < cutoff then None else Some b) (l_shards l)\<rparr>)"

section \<open>One key\<close>

text \<open>What the limiter knows of a key, and \<open>Allow\<close> and \<open>sweep\<close> seen from one key.\<close>

definition key_allow :: "rat \<Rightarrow> rat \<Rightarrow> instant \<Rightarrow> bucket option \<Rightarrow> bool \<times> bucket" where
  "key_allow rate burst now b =
     (case b of
        None \<Rightarrow> (True, \<lparr>bu_tokens = burst - 1, bu_lastSeen = now\<rparr>)
      | Some b \<Rightarrow>
          (let t = min burst (bu_tokens b + secs (now - bu_lastSeen b) * rate)
           in (1 \<le> t, \<lparr>bu_tokens = (if 1 \<le> t then t - 1 else t), bu_lastSeen = now\<rparr>)))"

definition key_sweep :: "duration \<Rightarrow> instant \<Rightarrow> bucket option \<Rightarrow> bucket option" where
  "key_sweep idle now b =
     (case b of None \<Rightarrow> None | Some b \<Rightarrow> if bu_lastSeen b < now - idle then None else Some b)"

definition bucket_at :: "string \<Rightarrow> limiter \<Rightarrow> bucket option" where
  "bucket_at k l = shard_of k (l_shards l) k"

definition lim_ok :: "limiter \<Rightarrow> bool" where
  "lim_ok l \<longleftrightarrow> length (l_shards l) = 256"

lemma bucket_allow_key: "bucket_allow rate burst now k m =
    (case key_allow rate burst now (m k) of (r, b) \<Rightarrow> (r, m(k \<mapsto> b)))"
  by (auto simp: bucket_allow_def key_allow_def Let_def min_def split: option.splits)

lemma lim_Allow_at:
  assumes "lim_ok l"
  shows "fst (lim_Allow now k l) = fst (key_allow (l_rate l) (l_burst l) now (bucket_at k l))"
    and "bucket_at k' (snd (lim_Allow now k l)) =
      (if k' = k then Some (snd (key_allow (l_rate l) (l_burst l) now (bucket_at k l))) else bucket_at k' l)"
    and "lim_ok (snd (lim_Allow now k l))"
    and "l_rate (snd (lim_Allow now k l)) = l_rate l" "l_burst (snd (lim_Allow now k l)) = l_burst l"
      "l_idleTTL (snd (lim_Allow now k l)) = l_idleTTL l"
proof -
  let ?f = "bucket_allow (l_rate l) (l_burst l) now k"
  have len: "length (l_shards l) = 256" using assms by (simp add: lim_ok_def)
  have eq: "lim_Allow now k l = (fst (on_shard k ?f (l_shards l)), l\<lparr>l_shards := snd (on_shard k ?f (l_shards l))\<rparr>)"
    by (simp add: lim_Allow_def split: prod.splits)
  show "fst (lim_Allow now k l) = fst (key_allow (l_rate l) (l_burst l) now (bucket_at k l))"
    by (simp add: eq on_shard_result bucket_allow_key bucket_at_def split: prod.splits)
  show "bucket_at k' (snd (lim_Allow now k l)) =
      (if k' = k then Some (snd (key_allow (l_rate l) (l_burst l) now (bucket_at k l))) else bucket_at k' l)"
    using shard_of_on_shard [of "l_shards l" k' k ?f] len
    by (auto simp: eq bucket_at_def bucket_allow_key shard_of_def split: prod.splits)
qed (use assms in \<open>simp_all add: lim_Allow_def lim_ok_def split: prod.splits\<close>,
     metis length_on_shard snd_conv)

lemma sweep_at:
  assumes "lim_ok l"
  shows "bucket_at k (sweep now l) = key_sweep (l_idleTTL l) now (bucket_at k l)"
    and "lim_ok (sweep now l)" "l_rate (sweep now l) = l_rate l" "l_burst (sweep now l) = l_burst l"
      "l_idleTTL (sweep now l) = l_idleTTL l"
  using assms fnv_index_less [of 256 k]
  by (simp_all add: sweep_def Let_def bucket_at_def shard_of_def lim_ok_def key_sweep_def)

section \<open>Tokens available to a key\<close>

text \<open>What a key may spend at a time; a key without a bucket has a full one.\<close>

definition avail :: "rat \<Rightarrow> rat \<Rightarrow> instant \<Rightarrow> bucket option \<Rightarrow> rat" where
  "avail rate burst now b =
     (case b of
        None \<Rightarrow> burst
      | Some b \<Rightarrow> min burst (bu_tokens b + secs (now - bu_lastSeen b) * rate))"

definition sane :: "instant \<Rightarrow> bucket option \<Rightarrow> bool" where
  "sane now b \<longleftrightarrow> (\<forall>x. b = Some x \<longrightarrow> 0 \<le> bu_tokens x \<and> bu_lastSeen x \<le> now)"

lemma secs_0 [simp]: "secs 0 = 0"
  by (simp add: secs_def)

lemma secs_nonneg: "0 \<le> d \<Longrightarrow> 0 \<le> secs d"
  by (simp add: secs_def second_def)

lemma secs_diff: "secs (a - c) = secs (a - b) + secs (b - c)"
  by (simp add: secs_def second_def field_simps)

text \<open>Waiting earns at most \<open>rate\<close> tokens a second.\<close>

lemma avail_wait:
  assumes "now \<le> now'" "0 \<le> rate"
  shows "avail rate burst now' b \<le> avail rate burst now b + rate * secs (now' - now)"
proof (cases b)
  case None
  then show ?thesis using assms secs_nonneg [of "now' - now"] by (simp add: avail_def)
next
  case (Some x)
  have "secs (now' - bu_lastSeen x) * rate = secs (now - bu_lastSeen x) * rate + rate * secs (now' - now)"
    by (simp add: secs_diff [of now' "bu_lastSeen x" now] algebra_simps)
  moreover have "0 \<le> rate * secs (now' - now)" using assms secs_nonneg by simp
  ultimately show ?thesis
    using Some by (simp add: avail_def min_def)
qed

text \<open>A granted request spends one token, a refused one none; a request is granted when a whole
  token is available.\<close>

lemma avail_allow:
  assumes "1 \<le> burst"
  shows "avail rate burst now (Some (snd (key_allow rate burst now b))) =
      avail rate burst now b - (if fst (key_allow rate burst now b) then 1 else 0)"
    and "fst (key_allow rate burst now b) \<longleftrightarrow> 1 \<le> avail rate burst now b"
  using assms by (auto simp: avail_def key_allow_def Let_def min_def split: option.splits)

lemma sane_allow:
  assumes "sane now b" "0 \<le> rate" "1 \<le> burst"
  shows "sane now (Some (snd (key_allow rate burst now b)))"
proof (cases b)
  case None
  with assms show ?thesis by (simp add: sane_def key_allow_def)
next
  case (Some x)
  have "0 \<le> bu_tokens x + secs (now - bu_lastSeen x) * rate"
    using assms Some secs_nonneg [of "now - bu_lastSeen x"] by (simp add: sane_def)
  with Some assms(3) show ?thesis
    by (auto simp: sane_def key_allow_def Let_def)
qed

lemma sane_mono: "sane now b \<Longrightarrow> now \<le> now' \<Longrightarrow> sane now' b"
  by (auto simp: sane_def)

text \<open>A bucket is swept only when it has been idle long enough to be full.\<close>

lemma idle_ttl_full:
  assumes "0 < rate" "1 \<le> burst"
  shows "of_int burst \<le> secs (idle_ttl rate burst) * rate"
proof -
  define x where "x = of_int burst / rate * 4"
  have idle: "idle_ttl rate burst = (if \<lfloor>x\<rfloor> * second < minute then minute else \<lfloor>x\<rfloor> * second)"
    by (simp add: idle_ttl_def x_def Let_def)
  have "x / 4 \<le> secs (idle_ttl rate burst)"
  proof (cases "\<lfloor>x\<rfloor> * second < minute")
    case True
    then have "\<lfloor>x\<rfloor> < 60" by (simp add: minute_def second_def)
    then have "x < 60" by (simp add: floor_less_iff)
    with True show ?thesis
      by (simp add: idle secs_def minute_def second_def)
  next
    case False
    then have "60 \<le> \<lfloor>x\<rfloor>" by (simp add: minute_def second_def)
    then have "60 \<le> x" by (simp add: le_floor_iff)
    moreover have "x < of_int \<lfloor>x\<rfloor> + 1" by linarith
    ultimately have "x / 4 \<le> of_int \<lfloor>x\<rfloor>" by linarith
    with False show ?thesis
      by (simp add: idle secs_def second_def)
  qed
  then have "x / 4 * rate \<le> secs (idle_ttl rate burst) * rate"
    using assms(1) by (intro mult_right_mono) auto
  then show ?thesis using assms(1) by (simp add: x_def)
qed

lemma avail_sweep:
  assumes "sane now b" "0 < rate" "1 \<le> burst"
  shows "avail rate (of_int burst) now (key_sweep (idle_ttl rate burst) now b) = avail rate (of_int burst) now b"
    and "sane now (key_sweep (idle_ttl rate burst) now b)"
proof -
  show "sane now (key_sweep (idle_ttl rate burst) now b)"
    using assms(1) by (auto simp: sane_def key_sweep_def split: option.splits)
  show "avail rate (of_int burst) now (key_sweep (idle_ttl rate burst) now b) = avail rate (of_int burst) now b"
  proof (cases "b \<noteq> None \<and> bu_lastSeen (the b) < now - idle_ttl rate burst")
    case True
    then obtain x where x: "b = Some x" "idle_ttl rate burst \<le> now - bu_lastSeen x" by auto
    have "secs (idle_ttl rate burst) \<le> secs (now - bu_lastSeen x)"
      using x(2) unfolding secs_def by (intro divide_right_mono) (simp_all add: second_def)
    then have "secs (idle_ttl rate burst) * rate \<le> secs (now - bu_lastSeen x) * rate"
      using assms(2) by (intro mult_right_mono) auto
    then have "of_int burst \<le> bu_tokens x + secs (now - bu_lastSeen x) * rate"
      using idle_ttl_full [OF assms(2,3)] assms(1) x(1) by (simp add: sane_def)
    with True x show ?thesis by (simp add: avail_def key_sweep_def min_absorb1)
  next
    case False
    then show ?thesis by (auto simp: key_sweep_def split: option.splits)
  qed
qed

section \<open>Runs\<close>

datatype lop = LAllow instant string | LSweep instant

fun lop_time :: "lop \<Rightarrow> instant" where
  "lop_time (LAllow now k) = now"
| "lop_time (LSweep now) = now"

text \<open>The requests of key \<open>k\<close> granted during a run, and the limiter after it.\<close>

fun lim_run :: "string \<Rightarrow> lop list \<Rightarrow> limiter \<Rightarrow> nat \<times> limiter" where
  "lim_run k [] l = (0, l)"
| "lim_run k (LAllow now k' # ops) l =
     (case lim_Allow now k' l of (r, l1) \<Rightarrow>
        (case lim_run k ops l1 of (n, l2) \<Rightarrow> ((if r \<and> k' = k then 1 else 0) + n, l2)))"
| "lim_run k (LSweep now # ops) l = lim_run k ops (sweep now l)"

definition lim_state :: "rat \<Rightarrow> int \<Rightarrow> instant \<Rightarrow> limiter \<Rightarrow> bool" where
  "lim_state rate burst now l \<longleftrightarrow> lim_ok l \<and> l_rate l = rate \<and> l_burst l = of_int burst \<and>
     l_idleTTL l = idle_ttl rate burst \<and> (\<forall>k. sane now (bucket_at k l))"

lemma lim_state_new: "lim_state rate burst now (New_limiter rate burst)"
  using fnv_index_less [of 256]
  by (simp add: lim_state_def lim_ok_def New_limiter_def bucket_at_def shard_of_def sane_def)

lemma lim_state_mono: "lim_state rate burst now l \<Longrightarrow> now \<le> now' \<Longrightarrow> lim_state rate burst now' l"
  by (auto simp: lim_state_def intro: sane_mono)

lemma lim_state_Allow:
  assumes "lim_state rate burst now l" "0 < rate" "1 \<le> burst"
  shows "lim_state rate burst now (snd (lim_Allow now k l))"
  using assms lim_Allow_at [where l = l and now = now and k = k] sane_allow [of now "bucket_at k l" rate "of_int burst"]
  by (simp add: lim_state_def)

lemma lim_state_sweep:
  assumes "lim_state rate burst now l" "0 < rate" "1 \<le> burst"
  shows "lim_state rate burst now (sweep now l)"
  using assms avail_sweep(2) by (simp add: lim_state_def sweep_at)

lemma avail_lim_Allow:
  assumes "lim_state rate burst now l" "0 < rate" "1 \<le> burst"
  shows "(if fst (lim_Allow now k' l) \<and> k' = k then 1 else 0) +
      avail rate (of_int burst) now (bucket_at k (snd (lim_Allow now k' l)))
    = avail rate (of_int burst) now (bucket_at k l)"
  using assms lim_Allow_at [where l = l and now = now and k = k'] avail_allow(1) [of "of_int burst" rate now "bucket_at k' l"]
  by (simp add: lim_state_def)

lemma avail_lim_sweep:
  assumes "lim_state rate burst now l" "0 < rate" "1 \<le> burst"
  shows "avail rate (of_int burst) now (bucket_at k (sweep now l)) = avail rate (of_int burst) now (bucket_at k l)"
  using assms avail_sweep(1) by (simp add: lim_state_def sweep_at)

lemma lim_run_bound:
  assumes "lim_state rate burst now l" "0 < rate" "1 \<le> burst"
    "sorted (now # map lop_time ops)" "\<forall>op \<in> set ops. lop_time op \<le> t1" "now \<le> t1"
  shows "of_nat (fst (lim_run k ops l)) \<le> avail rate (of_int burst) now (bucket_at k l) + rate * secs (t1 - now)"
  using assms(1,4-6)
proof (induction ops arbitrary: now l)
  case Nil
  have "0 \<le> avail rate (of_int burst) now (bucket_at k l)"
    using Nil(1) assms(2,3) secs_nonneg
    by (auto simp: avail_def lim_state_def sane_def split: option.splits)
  with Nil assms(2) secs_nonneg [of "t1 - now"] show ?case by simp
next
  case (Cons op ops)
  let ?t = "lop_time op" and ?a = "avail rate (of_int burst)"
  have t: "now \<le> ?t" "?t \<le> t1" "sorted (?t # map lop_time ops)" using Cons.prems by auto
  have l: "lim_state rate burst ?t l" using Cons.prems(1) t(1) by (rule lim_state_mono)
  have wait: "?a ?t (bucket_at k l) + rate * secs (t1 - ?t) \<le> ?a now (bucket_at k l) + rate * secs (t1 - now)"
    using avail_wait [OF t(1), of rate "of_int burst" "bucket_at k l"] assms(2)
    by (simp add: secs_diff [of t1 now ?t] algebra_simps)
  have rest: "of_nat (fst (lim_run k ops l')) \<le> ?a ?t (bucket_at k l') + rate * secs (t1 - ?t)"
    if "lim_state rate burst ?t l'" for l'
    using Cons.IH [OF that t(3) _ t(2)] Cons.prems(3) by simp
  show ?case
  proof (cases op)
    case (LAllow now' k')
    let ?l = "snd (lim_Allow ?t k' l)"
    have "rat_of_nat (fst (lim_run k (op # ops) l)) =
        (if fst (lim_Allow ?t k' l) \<and> k' = k then 1 else 0) + of_nat (fst (lim_run k ops ?l))"
      using LAllow by (simp split: prod.splits)
    then show ?thesis
      using rest [OF lim_state_Allow [OF l assms(2,3)], of k'] avail_lim_Allow [OF l assms(2,3), of k' k] wait
      by linarith
  next
    case (LSweep now')
    then show ?thesis
      using rest [OF lim_state_sweep [OF l assms(2,3)]] avail_lim_sweep [OF l assms(2,3), of k] wait by simp
  qed
qed

lemma lim_state_run:
  assumes "lim_state rate burst now l" "0 < rate" "1 \<le> burst"
    "sorted (now # map lop_time ops)" "\<forall>op \<in> set ops. lop_time op \<le> t1" "now \<le> t1"
  shows "lim_state rate burst t1 (snd (lim_run k ops l))"
  using assms(1,4-6)
proof (induction ops arbitrary: now l)
  case Nil
  then show ?case by (auto intro: lim_state_mono)
next
  case (Cons op ops)
  have "lim_state rate burst (lop_time op) l" using Cons.prems lim_state_mono by auto
  note step = lim_state_Allow [OF this assms(2,3)] lim_state_sweep [OF this assms(2,3)]
  show ?case
  proof (cases op)
    case (LAllow now' k')
    then show ?thesis
      using Cons.IH [OF step(1) [of k']] Cons.prems by (auto split: prod.splits)
  next
    case (LSweep now')
    then show ?thesis using Cons.IH [OF step(2)] Cons.prems by simp
  qed
qed

text \<open>A configured burst of zero still admits the first request of every key.\<close>

lemma burst_zero_admits: "fst (lim_Allow now k (New_limiter rate 0))"
  using lim_Allow_at(1) [of "New_limiter rate 0" now k] fnv_index_less [of 256 k]
  by (simp add: lim_ok_def New_limiter_def bucket_at_def shard_of_def key_allow_def)



end
