(* ===== verification/Edge.thy ===== *)
theory Edge
  imports Http Limiter
begin

text \<open>
  The packages of the gateway a request passes before and around a backend call:
  \<open>fintech-gateway-go/internal/auth\<close> (HS256 tokens), \<open>waf\<close> (request shapes), \<open>pool\<close> (byte buffers)
  and \<open>gateway/recorder.go\<close> (buffered responses). The MAC and the JSON decoder are arguments.
\<close>

section \<open>Tokens\<close>

datatype auth_err =
  ErrMalformedToken | ErrBadSignature | ErrUnsupportedAlg | ErrMissingExpiry | ErrExpired | ErrEmptySecret

datatype json = JNull | JBool bool | JNum rat | JStr string | JArr "json list" | JObj "(string \<times> json) list"

text \<open>\<open>hmac_sum\<close> is the MAC of a message under a secret, \<open>json_header\<close> decodes into the header struct
  and gives its \<open>alg\<close>, \<open>json_payload\<close> decodes into a map.\<close>

record jwt_env =
  hmac_sum :: "string \<Rightarrow> string \<Rightarrow> string"
  json_header :: "string \<Rightarrow> string option"
  json_payload :: "string \<Rightarrow> (string \<rightharpoonup> json) option"

record claims =
  cl_Subject :: string
  cl_ExpiresAt :: instant
  cl_IssuedAt :: "instant option"
  cl_Raw :: "string \<rightharpoonup> json"

record verifier = v_secret :: string

definition NewVerifier :: "string \<Rightarrow> auth_err + verifier" where
  "NewVerifier secret = (if secret = [] then Inl ErrEmptySecret else Inr \<lparr>v_secret = secret\<rparr>)"

text \<open>\<open>int64(f)\<close> truncates; out of range the language leaves the result open and amd64 gives the
  least value. \<open>time.Unix\<close> counts from year one in a 64-bit integer.\<close>

definition int64_of_float :: "rat \<Rightarrow> i64" where
  "int64_of_float f =
     (let t = (if f < 0 then \<lceil>f\<rceil> else \<lfloor>f\<rfloor>) in
      if - (2 ^ 63) \<le> t \<and> t < 2 ^ 63 then word_of_int t else word_of_int (- (2 ^ 63)))"

definition time_Unix :: "i64 \<Rightarrow> instant" where
  "time_Unix sec = (sint (sec + 62135596800) - 62135596800) * second"

definition Verify :: "jwt_env \<Rightarrow> instant \<Rightarrow> verifier \<Rightarrow> string \<Rightarrow> auth_err + claims" where
  "Verify env now v token =
     (case split_on (CHR ''.'') token of
        [headerB64, payloadB64, sigB64] \<Rightarrow>
          (case b64url_decode headerB64 of
             None \<Rightarrow> Inl ErrMalformedToken
           | Some headerJSON \<Rightarrow>
          (case json_header env headerJSON of
             None \<Rightarrow> Inl ErrMalformedToken
           | Some alg \<Rightarrow>
          (if alg \<noteq> ''HS256'' then Inl ErrUnsupportedAlg
           else case b64url_decode sigB64 of
             None \<Rightarrow> Inl ErrMalformedToken
           | Some gotSig \<Rightarrow>
          (if gotSig \<noteq> hmac_sum env (v_secret v) (headerB64 @ ''.'' @ payloadB64) then Inl ErrBadSignature
           else case b64url_decode payloadB64 of
             None \<Rightarrow> Inl ErrMalformedToken
           | Some payloadJSON \<Rightarrow>
          (case json_payload env payloadJSON of
             None \<Rightarrow> Inl ErrMalformedToken
           | Some raw \<Rightarrow>
          (case raw ''exp'' of
             Some (JNum expUnix) \<Rightarrow>
               (let expiresAt = time_Unix (int64_of_float expUnix) in
                if \<not> now < expiresAt then Inl ErrExpired
                else Inr \<lparr>cl_Subject = (case raw ''sub'' of Some (JStr s) \<Rightarrow> s | _ \<Rightarrow> []),
                          cl_ExpiresAt = expiresAt,
                          cl_IssuedAt = (case raw ''iat'' of
                              Some (JNum iat) \<Rightarrow> Some (time_Unix (int64_of_float iat)) | _ \<Rightarrow> None),
                          cl_Raw = raw\<rparr>)
           | _ \<Rightarrow> Inl ErrMissingExpiry))))))
      | _ \<Rightarrow> Inl ErrMalformedToken)"

text \<open>\<open>auth.Middleware\<close>: the claims go to the next handler.\<close>

definition auth_Middleware ::
  "jwt_env \<Rightarrow> instant \<Rightarrow> verifier \<Rightarrow> (claims \<Rightarrow> request \<Rightarrow> 's \<Rightarrow> (response \<times> 's) go) \<Rightarrow> request \<Rightarrow> 's \<Rightarrow> (response \<times> 's) go" where
  "auth_Middleware env now v next r s =
     (case cut_prefix (header_get (rq_header r) ''Authorization'') ''Bearer '' of
        None \<Rightarrow> Ret (http_Error ''missing bearer token'' 401, s)
      | Some token \<Rightarrow>
          if token = [] then Ret (http_Error ''missing bearer token'' 401, s)
          else (case Verify env now v token of
              Inl e \<Rightarrow> Ret (http_Error ''invalid token'' 401, s)
            | Inr c \<Rightarrow> next c r s))"

subsection \<open>Issued tokens\<close>

text \<open>A token as an issuer that holds the secret makes it from the JSON of header and payload.\<close>

definition issue :: "jwt_env \<Rightarrow> string \<Rightarrow> string \<Rightarrow> string \<Rightarrow> string" where
  "issue env secret headerJSON payloadJSON =
     (let m = b64url_encode headerJSON @ ''.'' @ b64url_encode payloadJSON
      in m @ ''.'' @ b64url_encode (hmac_sum env secret m))"

lemma split_three:
  "split_on (CHR ''.'') token = [a, b, c] \<longleftrightarrow>
     token = a @ ''.'' @ b @ ''.'' @ c \<and> CHR ''.'' \<notin> set a \<and> CHR ''.'' \<notin> set b \<and> CHR ''.'' \<notin> set c"
proof
  assume L: "split_on (CHR ''.'') token = [a, b, c]"
  have "CHR ''.'' \<notin> set a \<and> CHR ''.'' \<notin> set b \<and> CHR ''.'' \<notin> set c"
    using split_on_no_sepD [of _ "CHR ''.''" token] L by simp
  moreover have "token = a @ ''.'' @ b @ ''.'' @ c"
    using join_split [of "CHR ''.''" token] L by simp
  ultimately show "token = a @ ''.'' @ b @ ''.'' @ c \<and> CHR ''.'' \<notin> set a \<and> CHR ''.'' \<notin> set b \<and> CHR ''.'' \<notin> set c"
    by simp
next
  assume "token = a @ ''.'' @ b @ ''.'' @ c \<and> CHR ''.'' \<notin> set a \<and> CHR ''.'' \<notin> set b \<and> CHR ''.'' \<notin> set c"
  then show "split_on (CHR ''.'') token = [a, b, c]"
    using split_on_append_sep [of "CHR ''.''" a "b @ ''.'' @ c"] split_on_append_sep [of "CHR ''.''" b c]
      split_on_no_sep [of "CHR ''.''" c] by simp
qed

lemma Verify_accepts:
  assumes "Verify env now v token = Inr c"
  shows "\<exists>h p s hj pj x. split_on (CHR ''.'') token = [h, p, s] \<and>
    b64url_decode h = Some hj \<and> json_header env hj = Some ''HS256'' \<and>
    b64url_decode s = Some (hmac_sum env (v_secret v) (h @ ''.'' @ p)) \<and>
    b64url_decode p = Some pj \<and> json_payload env pj = Some (cl_Raw c) \<and>
    cl_Raw c ''exp'' = Some (JNum x) \<and> cl_ExpiresAt c = time_Unix (int64_of_float x) \<and> now < cl_ExpiresAt c"
  using assms by (auto simp: Verify_def Let_def split: list.splits option.splits if_splits json.splits)

lemma Verify_issue:
  assumes "json_header env hj = Some ''HS256''" "json_payload env pj = Some raw"
    "raw ''exp'' = Some (JNum x)" "now < time_Unix (int64_of_float x)"
  shows "\<exists>c. Verify env now v (issue env (v_secret v) hj pj) = Inr c \<and> cl_Raw c = raw \<and>
    cl_ExpiresAt c = time_Unix (int64_of_float x)"
proof -
  let ?m = "b64url_encode hj @ ''.'' @ b64url_encode pj"
  have "split_on (CHR ''.'') (issue env (v_secret v) hj pj) =
      [b64url_encode hj, b64url_encode pj, b64url_encode (hmac_sum env (v_secret v) ?m)]"
    by (subst split_three) (simp add: issue_def Let_def b64url_no_dot)
  then show ?thesis using assms by (auto simp: Verify_def Let_def)
qed

section \<open>Request shapes\<close>

record waf_config =
  MaxBodyBytes :: int
  MaxURLLength :: int
  MaxHeaders :: int

definition waf_DefaultConfig :: waf_config where
  "waf_DefaultConfig = \<lparr>MaxBodyBytes = 1048576, MaxURLLength = 2048, MaxHeaders = 100\<rparr>"

text \<open>
  The part of \<open>regexp\<close> the patterns use: classes, word boundaries, sequences, options and
  repetitions. \<open>ends e s i\<close> are the positions where a match of \<open>e\<close> that starts at \<open>i\<close> may end. The
  text is taken to be ASCII: the Unicode case folding of \<open>(?i)\<close> is not modelled.
\<close>

datatype re = Cls "char \<Rightarrow> bool" | Boundary | Seq re re | Opt re | UpTo nat re | Many re

definition word_char :: "char \<Rightarrow> bool" where
  "word_char c \<longleftrightarrow> c \<in> set ''0123456789ABCDEFGHIJKLMNOPQRSTUVWXYZabcdefghijklmnopqrstuvwxyz_''"

definition space_char :: "char \<Rightarrow> bool" where
  "space_char c \<longleftrightarrow> c \<in> {CHR 0x09, CHR 0x0A, CHR 0x0C, CHR 0x0D, CHR 0x20}"

definition word_at :: "string \<Rightarrow> nat \<Rightarrow> bool" where
  "word_at s i \<longleftrightarrow> i < length s \<and> word_char (s ! i)"

fun reps :: "(nat \<Rightarrow> nat list) \<Rightarrow> nat \<Rightarrow> nat \<Rightarrow> nat list" where
  "reps f 0 i = [i]"
| "reps f (Suc n) i = i # concat (map (reps f n) (f i))"

fun ends :: "re \<Rightarrow> string \<Rightarrow> nat \<Rightarrow> nat list" where
  "ends (Cls P) s i = (if i < length s \<and> P (s ! i) then [Suc i] else [])"
| "ends Boundary s i = (if (0 < i \<and> word_at s (i - 1)) \<noteq> word_at s i then [i] else [])"
| "ends (Seq a b) s i = concat (map (ends b s) (ends a s i))"
| "ends (Opt a) s i = i # ends a s i"
| "ends (UpTo n a) s i = reps (ends a s) n i"
| "ends (Many a) s i = reps (ends a s) (length s) i"

definition MatchString :: "re \<Rightarrow> string \<Rightarrow> bool" where
  "MatchString e s \<longleftrightarrow> list_ex (\<lambda>i. ends e s i \<noteq> []) [0..<Suc (length s)]"

definition lower :: "char \<Rightarrow> char" where
  "lower c = (let n = of_char c :: nat in if 65 \<le> n \<and> n \<le> 90 then char_of (n + 32) else c)"

text \<open>A literal under \<open>(?i)\<close>, written in lower case.\<close>

fun lit :: "string \<Rightarrow> re" where
  "lit [] = UpTo 0 Boundary"
| "lit (c # cs) = Seq (Cls (\<lambda>x. lower x = c)) (lit cs)"

fun seqs :: "re list \<Rightarrow> re" where
  "seqs [] = UpTo 0 Boundary"
| "seqs (e # es) = Seq e (seqs es)"

definition quote_char :: "char \<Rightarrow> bool" where
  "quote_char c \<longleftrightarrow> c \<in> {CHR 0x27, CHR 0x22}"

definition injectionPatterns :: "re list" where
  "injectionPatterns =
    [seqs [Boundary, lit ''union'', Boundary, UpTo 40 (Cls (\<lambda>c. c \<noteq> CHR 0x0A)), Boundary, lit ''select'', Boundary],
     seqs [Boundary, lit ''or'', Boundary, Cls space_char, Many (Cls space_char), Opt (Cls quote_char), lit ''1'',
           Opt (Cls quote_char), Many (Cls space_char), lit ''='', Many (Cls space_char), Opt (Cls quote_char),
           lit ''1'', Opt (Cls quote_char)],
     seqs [lit '';'', Many (Cls space_char), lit ''drop'', Cls space_char, Many (Cls space_char), lit ''table'', Boundary],
     lit ''xp_cmdshell'',
     seqs [lit ''<script'', Cls (\<lambda>c. space_char c \<or> c = CHR ''>'')]]"

definition containsPathTraversal :: "string \<Rightarrow> bool" where
  "containsPathTraversal path \<longleftrightarrow> contains_sub path ''..''"

definition matchesInjectionPattern :: "string \<Rightarrow> bool" where
  "matchesInjectionPattern s \<longleftrightarrow> s \<noteq> [] \<and> list_ex (\<lambda>e. MatchString e s) injectionPatterns"

definition queryContainsInjectionPattern :: "(string \<times> string list) list \<Rightarrow> bool" where
  "queryContainsInjectionPattern vals \<longleftrightarrow>
     list_ex (\<lambda>(key, vs). matchesInjectionPattern key \<or> list_ex matchesInjectionPattern vs) vals"

definition waf_Middleware ::
  "waf_config \<Rightarrow> (request \<Rightarrow> 's \<Rightarrow> (response \<times> 's) go) \<Rightarrow> request \<Rightarrow> 's \<Rightarrow> (response \<times> 's) go" where
  "waf_Middleware cfg next r s =
     (if int (length (rq_url r)) > MaxURLLength cfg then Ret (http_Error ''request rejected'' 414, s)
      else if int (length (rq_header r)) > MaxHeaders cfg then Ret (http_Error ''request rejected'' 400, s)
      else if containsPathTraversal (rq_path r) then Ret (http_Error ''request rejected'' 400, s)
      else if matchesInjectionPattern (rq_path r) \<or> queryContainsInjectionPattern (rq_query r)
        then Ret (http_Error ''request rejected'' 400, s)
      else next (if rq_body r \<noteq> None then r\<lparr>rq_bodyLimit := Some (MaxBodyBytes cfg)\<rparr> else r) s)"

subsection \<open>The matcher\<close>

text \<open>What a pattern means, and that the matcher decides it.\<close>

inductive spans :: "re \<Rightarrow> string \<Rightarrow> nat \<Rightarrow> nat \<Rightarrow> bool" where
  span_Cls: "i < length s \<Longrightarrow> P (s ! i) \<Longrightarrow> spans (Cls P) s i (Suc i)"
| span_Boundary: "(0 < i \<and> word_at s (i - 1)) \<noteq> word_at s i \<Longrightarrow> spans Boundary s i i"
| span_Seq: "spans a s i j \<Longrightarrow> spans b s j k \<Longrightarrow> spans (Seq a b) s i k"
| span_Opt0: "spans (Opt a) s i i"
| span_Opt1: "spans a s i j \<Longrightarrow> spans (Opt a) s i j"
| span_UpTo0: "spans (UpTo n a) s i i"
| span_UpTo: "spans a s i j \<Longrightarrow> spans (UpTo n a) s j k \<Longrightarrow> spans (UpTo (Suc n) a) s i k"
| span_Many: "spans (UpTo (length s) a) s i j \<Longrightarrow> spans (Many a) s i j"

inductive_cases span_ClsE: "spans (Cls P) s i j"
inductive_cases span_BoundaryE: "spans Boundary s i j"
inductive_cases span_SeqE: "spans (Seq a b) s i j"
inductive_cases span_OptE: "spans (Opt a) s i j"
inductive_cases span_UpToE: "spans (UpTo n a) s i j"
inductive_cases span_ManyE: "spans (Many a) s i j"

lemma reps_sound:
  assumes "\<And>i j. j \<in> set (f i) \<longleftrightarrow> spans a s i j"
  shows "j \<in> set (reps f n i) \<longleftrightarrow> spans (UpTo n a) s i j"
proof (induction n arbitrary: i)
  case 0
  then show ?case by (auto intro: span_UpTo0 elim: span_UpToE)
next
  case (Suc n)
  have "j \<in> set (reps f (Suc n) i) \<longleftrightarrow> j = i \<or> (\<exists>k. spans a s i k \<and> spans (UpTo n a) s k j)"
    using assms Suc.IH by auto
  also have "\<dots> \<longleftrightarrow> spans (UpTo (Suc n) a) s i j"
    by (auto intro: span_UpTo0 span_UpTo elim: span_UpToE)
  finally show ?case .
qed

lemma ends_spans: "j \<in> set (ends e s i) \<longleftrightarrow> spans e s i j"
proof (induction e arbitrary: i j)
  case (Cls P)
  then show ?case by (auto intro: span_Cls elim: span_ClsE)
next
  case Boundary
  then show ?case by (auto intro: span_Boundary elim: span_BoundaryE)
next
  case (Seq a b)
  then show ?case by (auto intro: span_Seq elim!: span_SeqE)
next
  case (Opt a)
  then show ?case by (auto intro: span_Opt0 span_Opt1 elim: span_OptE)
next
  case (UpTo n a)
  then show ?case by (simp add: reps_sound)
next
  case (Many a)
  then show ?case by (auto simp: reps_sound intro: span_Many elim: span_ManyE)
qed

lemma MatchString_iff: "MatchString e s \<longleftrightarrow> (\<exists>i j. i \<le> length s \<and> spans e s i j)"
proof -
  have "ends e s i \<noteq> [] \<longleftrightarrow> (\<exists>j. spans e s i j)" for i
    by (metis ends_spans in_set_conv_nth length_greater_0_conv list.set_intros(1) neq_Nil_conv nth_mem list.set(1) empty_iff)
  then show ?thesis by (auto simp: MatchString_def list_ex_iff less_Suc_eq_le simp del: upt_Suc)
qed

lemma lit_spans:
  assumes "map lower (take (length cs) (drop i s)) = cs" "i + length cs \<le> length s"
  shows "spans (lit cs) s i (i + length cs)"
  using assms
proof (induction cs arbitrary: i)
  case Nil
  then show ?case by (simp add: span_UpTo0)
next
  case (Cons c cs)
  have i: "i < length s" using Cons.prems(2) by simp
  then have "drop i s = s ! i # drop (Suc i) s" by (simp add: Cons_nth_drop_Suc)
  then have "lower (s ! i) = c" "map lower (take (length cs) (drop (Suc i) s)) = cs"
    using Cons.prems(1) by simp_all
  then show ?case
    using Cons.IH [of "Suc i"] Cons.prems(2) i span_Cls [of i s "\<lambda>x. lower x = c"] by (auto intro: span_Seq)
qed

text \<open>A literal is found wherever it stands and however it is capitalised.\<close>

lemma MatchString_lit:
  assumes "map lower s = a @ cs @ b"
  shows "MatchString (lit cs) s"
proof -
  have len: "length s = length a + length cs + length b" using assms by (metis length_append length_map add.assoc)
  have "map lower (take (length cs) (drop (length a) s)) = cs"
    using assms by (simp add: take_map [symmetric] drop_map [symmetric])
  then have "spans (lit cs) s (length a) (length a + length cs)"
    using len by (intro lit_spans) simp_all
  moreover have "length a \<le> length s" using len by simp
  ultimately show ?thesis unfolding MatchString_iff by blast
qed

section \<open>Buffers and recorded responses\<close>

record buffer =
  bf_data :: string
  bf_cap :: int

definition maxPooledCapacity :: int where "maxPooledCapacity = 64 * 1024"

text \<open>\<open>sync.Pool\<close> hands out one of its buffers or a new one: \<open>sel\<close> is its choice.\<close>

definition buf_Get :: "nat option \<Rightarrow> buffer list \<Rightarrow> buffer \<times> buffer list" where
  "buf_Get sel bufs =
     (case sel of
        Some i \<Rightarrow> if i < length bufs then (bufs ! i, take i bufs @ drop (Suc i) bufs)
                  else (\<lparr>bf_data = [], bf_cap = 4096\<rparr>, bufs)
      | None \<Rightarrow> (\<lparr>bf_data = [], bf_cap = 4096\<rparr>, bufs))"

definition buf_Put :: "buffer \<Rightarrow> buffer list \<Rightarrow> buffer list" where
  "buf_Put b bufs = (if bf_cap b > maxPooledCapacity then bufs else b\<lparr>bf_data := []\<rparr> # bufs)"

text \<open>\<open>bytes.Buffer.Write\<close>; \<open>grow\<close> is the capacity the allocator gives for an old one and a need.\<close>

definition buf_Write :: "(int \<Rightarrow> int \<Rightarrow> int) \<Rightarrow> string \<Rightarrow> buffer \<Rightarrow> buffer" where
  "buf_Write grow d b =
     (let data = bf_data b @ d; need = int (length data)
      in \<lparr>bf_data = data, bf_cap = (if need \<le> bf_cap b then bf_cap b else grow (bf_cap b) need)\<rparr>)"

record recorder =
  rc_header :: http_header
  rc_status :: int
  rc_body :: buffer
  rc_wroteHeader :: bool

definition newResponseRecorder :: "buffer \<Rightarrow> recorder" where
  "newResponseRecorder b = \<lparr>rc_header = [], rc_status = 200, rc_body = b, rc_wroteHeader = False\<rparr>"

definition rec_WriteHeader :: "int \<Rightarrow> recorder \<Rightarrow> recorder" where
  "rec_WriteHeader code r = (if \<not> rc_wroteHeader r then r\<lparr>rc_status := code, rc_wroteHeader := True\<rparr> else r)"

definition rec_Write :: "(int \<Rightarrow> int \<Rightarrow> int) \<Rightarrow> string \<Rightarrow> recorder \<Rightarrow> recorder" where
  "rec_Write grow d r =
     (let r' = (if \<not> rc_wroteHeader r then rec_WriteHeader 200 r else r)
      in r'\<lparr>rc_body := buf_Write grow d (rc_body r')\<rparr>)"

definition rec_release :: "recorder \<Rightarrow> buffer list \<Rightarrow> buffer list" where
  "rec_release r bufs = buf_Put (rc_body r) bufs"

text \<open>What the reverse proxy does to the writer it is given.\<close>

datatype wcall = HeaderAdd string string | HeaderClear | CallWriteHeader int | CallWrite string

fun rec_call :: "(int \<Rightarrow> int \<Rightarrow> int) \<Rightarrow> wcall \<Rightarrow> recorder \<Rightarrow> recorder" where
  "rec_call grow (HeaderAdd k v) r = r\<lparr>rc_header := header_add k v (rc_header r)\<rparr>"
| "rec_call grow HeaderClear r = r\<lparr>rc_header := []\<rparr>"
| "rec_call grow (CallWriteHeader code) r = rec_WriteHeader code r"
| "rec_call grow (CallWrite d) r = rec_Write grow d r"

definition record_calls :: "(int \<Rightarrow> int \<Rightarrow> int) \<Rightarrow> wcall list \<Rightarrow> buffer \<Rightarrow> recorder" where
  "record_calls grow cs b = fold (rec_call grow) cs (newResponseRecorder b)"

text \<open>The status and the body the calls amount to.\<close>

fun calls_status :: "wcall list \<Rightarrow> int" where
  "calls_status [] = 200"
| "calls_status (CallWriteHeader code # cs) = code"
| "calls_status (CallWrite d # cs) = 200"
| "calls_status (c # cs) = calls_status cs"

fun calls_body :: "wcall list \<Rightarrow> string" where
  "calls_body [] = []"
| "calls_body (CallWrite d # cs) = d @ calls_body cs"
| "calls_body (c # cs) = calls_body cs"

definition clean_bufs :: "buffer list \<Rightarrow> bool" where
  "clean_bufs bufs \<longleftrightarrow> (\<forall>b \<in> set bufs. bf_data b = [] \<and> bf_cap b \<le> maxPooledCapacity)"

lemma buf_Get_clean:
  assumes "clean_bufs bufs" "buf_Get sel bufs = (b, bufs')"
  shows "bf_data b = []" "clean_bufs bufs'"
proof -
  have sub: "set (take i bufs @ drop (Suc i) bufs) \<subseteq> set bufs" for i
    using set_take_subset [of i bufs] set_drop_subset [of "Suc i" bufs] by auto
  have "set bufs' \<subseteq> set bufs"
    using assms(2) sub by (auto simp only: buf_Get_def prod.inject split: option.splits if_splits)
  with assms(1) show "clean_bufs bufs'" unfolding clean_bufs_def by blast
  show "bf_data b = []"
    using assms by (auto simp: buf_Get_def clean_bufs_def split: option.splits if_splits)
qed

lemma buf_Put_clean: "clean_bufs bufs \<Longrightarrow> clean_bufs (buf_Put b bufs)"
  by (auto simp: buf_Put_def clean_bufs_def)

lemma rec_calls_wrote:
  "rc_wroteHeader r \<Longrightarrow> rc_status (fold (rec_call grow) cs r) = rc_status r"
proof (induction cs arbitrary: r)
  case (Cons c cs)
  have "rc_wroteHeader (rec_call grow c r) \<and> rc_status (rec_call grow c r) = rc_status r"
    using Cons.prems by (cases c) (simp_all add: rec_WriteHeader_def rec_Write_def Let_def)
  with Cons.IH show ?case by simp
qed simp

lemma rec_calls_status:
  "\<not> rc_wroteHeader r \<Longrightarrow> rc_status r = 200 \<Longrightarrow> rc_status (fold (rec_call grow) cs r) = calls_status cs"
proof (induction cs arbitrary: r rule: calls_status.induct)
  case (2 code cs)
  then show ?case
    using rec_calls_wrote [of "rec_call grow (CallWriteHeader code) r" grow cs] by (simp add: rec_WriteHeader_def)
next
  case (3 d cs)
  then show ?case
    using rec_calls_wrote [of "rec_call grow (CallWrite d) r" grow cs]
    by (simp add: rec_WriteHeader_def rec_Write_def Let_def)
qed simp_all

lemma rec_calls_body: "bf_data (rc_body (fold (rec_call grow) cs r)) = bf_data (rc_body r) @ calls_body cs"
proof (induction cs arbitrary: r)
  case (Cons c cs)
  then show ?case
    by (cases c) (simp_all add: rec_WriteHeader_def rec_Write_def Let_def buf_Write_def)
qed simp

lemma record_calls_response:
  assumes "bf_data b = []"
  shows "rc_status (record_calls grow cs b) = calls_status cs"
    and "bf_data (rc_body (record_calls grow cs b)) = calls_body cs"
  using assms rec_calls_status [of "newResponseRecorder b" grow cs] rec_calls_body [of grow cs "newResponseRecorder b"]
  by (simp_all add: record_calls_def newResponseRecorder_def)

text \<open>
  A backend that announces its response with an informational status: the recorder keeps the
  announcement, a failing response counts as a success, and the client is told 200.
\<close>

lemma informational_masks_failure:
  "rc_status (record_calls grow [CallWriteHeader 103, HeaderClear, CallWriteHeader 500, CallWrite d] b) = 103"
  "rs_status (server_write 103 h d) = 200"
  by (simp_all add: record_calls_def newResponseRecorder_def rec_WriteHeader_def rec_Write_def Let_def server_write_def)

section \<open>Properties\<close>

text \<open>C22. A token is accepted only with the MAC of its first two parts under the secret, with the
  algorithm pinned to HS256 and an expiry in the future, whatever the MAC and JSON functions are;
  and every token issued with the secret, that algorithm and a future expiry is accepted, with its
  payload as the claims.\<close>

theorem jwt_Verify:
  "(\<forall>c. Verify env now v token = Inr c \<longrightarrow>
      (\<exists>h p s hj pj x. token = h @ ''.'' @ p @ ''.'' @ s \<and>
         b64url_decode h = Some hj \<and> json_header env hj = Some ''HS256'' \<and>
         b64url_decode s = Some (hmac_sum env (v_secret v) (h @ ''.'' @ p)) \<and>
         b64url_decode p = Some pj \<and> json_payload env pj = Some (cl_Raw c) \<and>
         cl_Raw c ''exp'' = Some (JNum x) \<and> cl_ExpiresAt c = time_Unix (int64_of_float x) \<and> now < cl_ExpiresAt c)) \<and>
   (\<forall>hj pj raw x. json_header env hj = Some ''HS256'' \<longrightarrow> json_payload env pj = Some raw \<longrightarrow>
      raw ''exp'' = Some (JNum x) \<longrightarrow> now < time_Unix (int64_of_float x) \<longrightarrow>
      (\<exists>c. Verify env now v (issue env (v_secret v) hj pj) = Inr c \<and> cl_Raw c = raw))"
proof (intro conjI allI impI)
  fix c assume "Verify env now v token = Inr c"
  from Verify_accepts [OF this] show "\<exists>h p s hj pj x. token = h @ ''.'' @ p @ ''.'' @ s \<and>
         b64url_decode h = Some hj \<and> json_header env hj = Some ''HS256'' \<and>
         b64url_decode s = Some (hmac_sum env (v_secret v) (h @ ''.'' @ p)) \<and>
         b64url_decode p = Some pj \<and> json_payload env pj = Some (cl_Raw c) \<and>
         cl_Raw c ''exp'' = Some (JNum x) \<and> cl_ExpiresAt c = time_Unix (int64_of_float x) \<and> now < cl_ExpiresAt c"
    unfolding split_three by blast
next
  fix hj pj raw x
  assume "json_header env hj = Some ''HS256''" "json_payload env pj = Some raw"
    "raw ''exp'' = Some (JNum x)" "now < time_Unix (int64_of_float x)"
  from Verify_issue [OF this] show "\<exists>c. Verify env now v (issue env (v_secret v) hj pj) = Inr c \<and> cl_Raw c = raw"
    by blast
qed

text \<open>A toy MAC and decoder: the message prefixed by the secret, the payload read as an expiry.\<close>

definition demo_env :: jwt_env where
  "demo_env = \<lparr>hmac_sum = (\<lambda>k m. k @ m), json_header = Some,
     json_payload = (\<lambda>j. Some [''exp'' \<mapsto> JNum 2000])\<rparr>"

theorem jwt_Verify_witness:
  "\<exists>c. Verify demo_env (1999 * second) \<lparr>v_secret = ''k''\<rparr> (issue demo_env ''k'' ''HS256'' ''p'') = Inr c"
proof -
  have f: "int64_of_float 2000 = 2000" by (simp add: int64_of_float_def)
  have "sint (2000 + 62135596800 :: i64) = 62135598800" by simp
  then have "time_Unix (int64_of_float 2000) = 2000 * second" unfolding f time_Unix_def by simp
  then have t: "1999 * second < time_Unix (int64_of_float 2000)" by (simp add: second_def)
  have "json_header demo_env ''HS256'' = Some ''HS256''"
    "json_payload demo_env ''p'' = Some [''exp'' \<mapsto> JNum 2000]"
    by (simp_all add: demo_env_def)
  with t show ?thesis
    using jwt_Verify [of demo_env "1999 * second" "\<lparr>v_secret = ''k''\<rparr>" "[]"] by fastforce
qed

end
