(* ===== verification/Balancer.thy ===== *)
theory Balancer
  imports Go_Prelude
begin

text \<open>
  \<open>fintech-gateway-go/internal/loadbalancer\<close>: backends, the four selection strategies and the
  consistent-hash ring, the pool that counts connections, and the health checker's sweep. A
  backend is identified by its position in the pool's fixed list.
\<close>

section \<open>Backends\<close>

record backend =
  bk_ID :: string
  bk_Address :: string
  bk_Weight :: int
  bk_healthy :: bool
  bk_conns :: i64

definition NewBackend :: "string \<Rightarrow> string \<Rightarrow> int \<Rightarrow> backend" where
  "NewBackend bid address weight =
     \<lparr>bk_ID = bid, bk_Address = address, bk_Weight = (if weight < 1 then 1 else weight),
      bk_healthy = True, bk_conns = 0\<rparr>"

definition SetHealthy :: "bool \<Rightarrow> backend \<Rightarrow> backend" where
  "SetHealthy v b = b\<lparr>bk_healthy := v\<rparr>"

text \<open>One tick of the health checker.\<close>

definition probe_all :: "(backend \<Rightarrow> bool) \<Rightarrow> backend list \<Rightarrow> backend list" where
  "probe_all probe bs = map (\<lambda>b. SetHealthy (probe b) b) bs"

section \<open>Strategies\<close>

text \<open>
  Round robin. \<open>c\<close> is the counter after \<open>Add(1)\<close>; \<open>int(c) % n\<close> is negative once the counter
  passes \<open>2^63\<close>, and indexing with it panics.
\<close>

fun rr_scan :: "backend list \<Rightarrow> int \<Rightarrow> nat list \<Rightarrow> nat option go" where
  "rr_scan bs start [] = Ret None"
| "rr_scan bs start (i # is) =
     (let j = tmod (start + int i) (int (length bs)) in
      if j < 0 then Panic
      else if bk_healthy (bs ! nat j) then Ret (Some (nat j))
      else rr_scan bs start is)"

definition pickRoundRobin :: "backend list \<Rightarrow> u64 \<Rightarrow> nat option go" where
  "pickRoundRobin bs c = rr_scan bs (tmod (sint c) (int (length bs))) [0..<length bs]"

text \<open>Least connections: \<open>best\<close> and \<open>bestConns\<close> as they go through the loop.\<close>

definition lc_step :: "backend list \<Rightarrow> nat option \<times> i64 \<Rightarrow> nat \<Rightarrow> nat option \<times> i64" where
  "lc_step bs s i =
     (case s of (best, bestConns) \<Rightarrow>
        if \<not> bk_healthy (bs ! i) then (best, bestConns)
        else if best = None \<or> sint (bk_conns (bs ! i)) < sint bestConns then (Some i, bk_conns (bs ! i))
        else (best, bestConns))"

definition pickLeastConnections :: "backend list \<Rightarrow> nat option go" where
  "pickLeastConnections bs = Ret (fst (foldl (lc_step bs) (None, - 1) [0..<length bs]))"

text \<open>Weighted random: \<open>rnd\<close> is \<open>rand.Intn\<close>, which panics on an argument that is not positive.\<close>

fun wr_scan :: "backend list \<Rightarrow> int \<Rightarrow> nat list \<Rightarrow> nat option" where
  "wr_scan bs r [] = None"
| "wr_scan bs r (i # is) =
     (if r < bk_Weight (bs ! i) then Some i else wr_scan bs (r - bk_Weight (bs ! i)) is)"

definition pickWeightedRandom :: "backend list \<Rightarrow> (int \<Rightarrow> int) \<Rightarrow> nat option go" where
  "pickWeightedRandom bs rnd =
     (let healthy = filter (\<lambda>i. bk_healthy (bs ! i)) [0..<length bs];
          total = (\<Sum>i \<leftarrow> healthy. bk_Weight (bs ! i))
      in if total = 0 then Ret None
         else if total < 0 then Panic
         else Ret (case wr_scan bs (rnd total) healthy of
             Some i \<Rightarrow> Some i
           | None \<Rightarrow> Some (last healthy)))"

text \<open>The hash ring: 100 points per backend, sorted by hash.\<close>

definition hashKey :: "string \<Rightarrow> u32" where
  "hashKey key = fnv32a key"

definition ring_points :: "backend list \<Rightarrow> (u32 \<times> nat) list" where
  "ring_points bs =
     concat (map (\<lambda>j. map (\<lambda>i. (hashKey (bk_ID (bs ! j) @ ''#'' @ itoa (int i)), j)) [0..<100]) [0..<length bs])"

definition newHashRing :: "backend list \<Rightarrow> (u32 \<times> nat) list" where
  "newHashRing bs = sort_key fst (ring_points bs)"

definition ring_get :: "(u32 \<times> nat) list \<Rightarrow> backend list \<Rightarrow> string \<Rightarrow> nat option" where
  "ring_get nodes bs key =
     (if nodes = [] then None
      else
        let h = hashKey key;
            start = sort_Search (length nodes) (\<lambda>i. fst (nodes ! i) \<ge> h)
        in map_option snd (find_first (\<lambda>n. bk_healthy (bs ! snd n)) (ring_order nodes start)))"

section \<open>The pool\<close>

datatype strategy = RoundRobin | LeastConnections | WeightedRandom | ConsistentHash

datatype lb_err = ErrNoHealthyBackends | ErrEmptyPool

record pool =
  p_strategy :: strategy
  p_backends :: "backend list"
  p_rrCounter :: u64
  p_ring :: "(u32 \<times> nat) list"

definition NewPool :: "strategy \<Rightarrow> backend list \<Rightarrow> lb_err + pool" where
  "NewPool s bs =
     (if bs = [] then Inl ErrEmptyPool
      else Inr \<lparr>p_strategy = s, p_backends = bs, p_rrCounter = 0,
                p_ring = (if s = ConsistentHash then newHashRing bs else [])\<rparr>)"

definition add_conns :: "nat \<Rightarrow> i64 \<Rightarrow> pool \<Rightarrow> pool" where
  "add_conns i d p =
     p\<lparr>p_backends := (p_backends p)[i := (p_backends p ! i)\<lparr>bk_conns := bk_conns (p_backends p ! i) + d\<rparr>]\<rparr>"

definition select_backend :: "pool \<Rightarrow> string \<Rightarrow> (int \<Rightarrow> int) \<Rightarrow> nat option go" where
  "select_backend p key rnd =
     (case p_strategy p of
        RoundRobin \<Rightarrow> pickRoundRobin (p_backends p) (p_rrCounter p)
      | LeastConnections \<Rightarrow> pickLeastConnections (p_backends p)
      | WeightedRandom \<Rightarrow> pickWeightedRandom (p_backends p) rnd
      | ConsistentHash \<Rightarrow> Ret (ring_get (p_ring p) (p_backends p) key))"

definition Pick :: "string \<Rightarrow> (int \<Rightarrow> int) \<Rightarrow> pool \<Rightarrow> ((lb_err + nat) \<times> pool) go" where
  "Pick key rnd p =
     (let p1 = (if p_strategy p = RoundRobin then p\<lparr>p_rrCounter := p_rrCounter p + 1\<rparr> else p)
      in case select_backend p1 key rnd of
           Panic \<Rightarrow> Panic
         | Ret None \<Rightarrow> Ret (Inl ErrNoHealthyBackends, p1)
         | Ret (Some i) \<Rightarrow> Ret (Inr i, add_conns i 1 p1))"

definition Release :: "nat \<Rightarrow> pool \<Rightarrow> pool" where
  "Release i p = add_conns i (- 1) p"

section \<open>The contract of a strategy\<close>

definition any_healthy :: "backend list \<Rightarrow> bool" where
  "any_healthy bs \<longleftrightarrow> (\<exists>i < length bs. bk_healthy (bs ! i))"

text \<open>\<open>'q\<close> is what the strategy looks at besides the backends; \<open>ok\<close> is when it may be called.\<close>

locale picker =
  fixes pick :: "backend list \<Rightarrow> 'q \<Rightarrow> nat option go"
    and ok :: "backend list \<Rightarrow> 'q \<Rightarrow> bool"
  assumes no_panic: "ok bs q \<Longrightarrow> pick bs q \<noteq> Panic"
    and sound: "ok bs q \<Longrightarrow> pick bs q = Ret (Some i) \<Longrightarrow> i < length bs \<and> bk_healthy (bs ! i)"
    and total: "ok bs q \<Longrightarrow> any_healthy bs \<Longrightarrow> pick bs q \<noteq> Ret None"
begin

lemma pick_cases:
  assumes "ok bs q"
  obtains (some) i where "pick bs q = Ret (Some i)" "i < length bs" "bk_healthy (bs ! i)"
  | (none) "pick bs q = Ret None" "\<not> any_healthy bs"
proof (cases "pick bs q")
  case Panic
  with no_panic [OF assms] show ?thesis by simp
next
  case (Ret r)
  then show ?thesis
    using sound [OF assms] total [OF assms] some none by (cases r) auto
qed

end

lemma rr_scan_eq:
  assumes "0 \<le> start" "bs \<noteq> []"
  shows "rr_scan bs start is =
    Ret (find_first (\<lambda>j. bk_healthy (bs ! j)) (map (\<lambda>i. nat ((start + int i) mod int (length bs))) is))"
proof -
  have "\<not> (start + int i) mod int (length bs) < 0" for i
    using assms(2) by (simp add: not_less)
  then show ?thesis using assms by (induction "is") (simp_all add: Let_def tmod_nonneg)
qed

lemma rr_indices:
  assumes "0 < n"
  shows "set (map (\<lambda>i. nat ((start + int i) mod int n)) [0..<n]) = {0..<n}"
proof
  show "set (map (\<lambda>i. nat ((start + int i) mod int n)) [0..<n]) \<subseteq> {0..<n}"
    using assms by (auto simp: nat_less_iff)
  show "{0..<n} \<subseteq> set (map (\<lambda>i. nat ((start + int i) mod int n)) [0..<n])"
  proof
    fix j assume j: "j \<in> {0..<n}"
    define i where "i = nat ((int j - start) mod int n)"
    have i: "int i = (int j - start) mod int n" "i < n"
      using assms by (simp_all add: i_def nat_less_iff)
    have "(start + int i) mod int n = int j"
      using j by (simp add: i(1) mod_add_right_eq)
    then have "j = nat ((start + int i) mod int n)" by simp
    with i(2) show "j \<in> set (map (\<lambda>i. nat ((start + int i) mod int n)) [0..<n])" by force
  qed
qed

definition rr_ok :: "backend list \<Rightarrow> u64 \<Rightarrow> bool" where
  "rr_ok bs c \<longleftrightarrow> bs \<noteq> [] \<and> 0 \<le> sint c"

lemma pickRoundRobin_eq:
  assumes "rr_ok bs c"
  shows "pickRoundRobin bs c = Ret (find_first (\<lambda>j. bk_healthy (bs ! j))
    (map (\<lambda>i. nat ((sint c mod int (length bs) + int i) mod int (length bs))) [0..<length bs]))"
  using assms rr_scan_eq [of "sint c mod int (length bs)" bs]
  by (simp add: pickRoundRobin_def rr_ok_def tmod_nonneg)

interpretation rr: picker pickRoundRobin rr_ok
proof unfold_locales
  fix bs :: "backend list" and c i
  assume ok: "rr_ok bs c"
  then have n: "0 < length bs" by (simp add: rr_ok_def)
  note idx = rr_indices [OF n, of "sint c mod int (length bs)"]
  show "pickRoundRobin bs c \<noteq> Panic" using pickRoundRobin_eq [OF ok] by simp
  show "i < length bs \<and> bk_healthy (bs ! i)" if "pickRoundRobin bs c = Ret (Some i)"
  proof -
    have "i \<in> set (map (\<lambda>i. nat ((sint c mod int (length bs) + int i) mod int (length bs))) [0..<length bs]) \<and>
        bk_healthy (bs ! i)"
      using that unfolding pickRoundRobin_eq [OF ok] by (intro find_first_SomeD) simp
    then show ?thesis unfolding idx by simp
  qed
  show "pickRoundRobin bs c \<noteq> Ret None" if "any_healthy bs"
  proof -
    from that obtain j where j: "j < length bs" "bk_healthy (bs ! j)" by (auto simp: any_healthy_def)
    then have "j \<in> set (map (\<lambda>i. nat ((sint c mod int (length bs) + int i) mod int (length bs))) [0..<length bs])"
      unfolding idx by simp
    with j(2) show ?thesis unfolding pickRoundRobin_eq [OF ok] by (simp only: go.inject find_first_None) blast
  qed
qed

lemma lc_fold:
  assumes "foldl (lc_step bs) (None, - 1) is = (best, c)"
  shows "(best = None \<longleftrightarrow> (\<forall>i \<in> set is. \<not> bk_healthy (bs ! i))) \<and>
    (\<forall>b. best = Some b \<longrightarrow> b \<in> set is \<and> bk_healthy (bs ! b) \<and> c = bk_conns (bs ! b) \<and>
       (\<forall>i \<in> set is. bk_healthy (bs ! i) \<longrightarrow> sint (bk_conns (bs ! b)) \<le> sint (bk_conns (bs ! i))))"
  using assms
proof (induction "is" arbitrary: best c rule: rev_induct)
  case (snoc i xs)
  obtain b0 c0 where f: "foldl (lc_step bs) (None, - 1) xs = (b0, c0)" by fastforce
  have "lc_step bs (b0, c0) i = (best, c)" using snoc.prems f by simp
  with snoc.IH [OF f] show ?case
    by (cases b0) (auto simp: lc_step_def split: if_splits)
qed simp

lemma lc_pick:
  "\<exists>r. pickLeastConnections bs = Ret r \<and> (r = None \<longleftrightarrow> \<not> any_healthy bs) \<and>
     (\<forall>b. r = Some b \<longrightarrow> b < length bs \<and> bk_healthy (bs ! b) \<and>
        (\<forall>i < length bs. bk_healthy (bs ! i) \<longrightarrow> sint (bk_conns (bs ! b)) \<le> sint (bk_conns (bs ! i))))"
proof -
  obtain best c where f: "foldl (lc_step bs) (None, - 1) [0..<length bs] = (best, c)" by fastforce
  from lc_fold [OF f] show ?thesis
    by (auto simp: pickLeastConnections_def f any_healthy_def)
qed

interpretation lc: picker "\<lambda>bs q. pickLeastConnections bs" "\<lambda>bs q. True"
proof unfold_locales
  fix bs :: "backend list" and i
  show "pickLeastConnections bs \<noteq> Panic" using lc_pick [of bs] by auto
  show "i < length bs \<and> bk_healthy (bs ! i)" if "pickLeastConnections bs = Ret (Some i)"
    using lc_pick [of bs] that by auto
  show "pickLeastConnections bs \<noteq> Ret None" if "any_healthy bs"
    using lc_pick [of bs] that by auto
qed

text \<open>The weights of a pool are positive (\<open>NewBackend\<close>) and \<open>Intn\<close> answers in range.\<close>

definition wr_ok :: "backend list \<Rightarrow> (int \<Rightarrow> int) \<Rightarrow> bool" where
  "wr_ok bs rnd \<longleftrightarrow> (\<forall>b \<in> set bs. 1 \<le> bk_Weight b) \<and> (\<forall>t > 0. 0 \<le> rnd t \<and> rnd t < t)"

lemma wr_scan_in: "wr_scan bs r is = Some i \<Longrightarrow> i \<in> set is"
  by (induction "is" arbitrary: r) (auto split: if_splits)

lemma wr_scan_total: "r < (\<Sum>i \<leftarrow> is. bk_Weight (bs ! i)) \<Longrightarrow> wr_scan bs r is \<noteq> None \<or> is = []"
proof (induction "is" arbitrary: r)
  case (Cons i xs)
  show ?case using Cons.IH [of "r - bk_Weight (bs ! i)"] Cons.prems by (cases xs) auto
qed simp

interpretation wr: picker pickWeightedRandom wr_ok
proof unfold_locales
  fix bs :: "backend list" and rnd i
  assume ok: "wr_ok bs rnd"
  let ?h = "filter (\<lambda>i. bk_healthy (bs ! i)) [0..<length bs]"
  let ?t = "\<Sum>i \<leftarrow> ?h. bk_Weight (bs ! i)"
  have w: "1 \<le> bk_Weight (bs ! i)" if "i \<in> set ?h" for i
    using ok that by (auto simp: wr_ok_def)
  have ge: "int (length xs) \<le> (\<Sum>i \<leftarrow> xs. bk_Weight (bs ! i))" if "set xs \<subseteq> set ?h" for xs
    using that
  proof (induction xs)
    case (Cons x xs)
    with w [of x] show ?case by simp
  qed simp
  have t: "int (length ?h) \<le> ?t" using ge [of ?h] by simp
  show "pickWeightedRandom bs rnd \<noteq> Panic"
    using t by (auto simp: pickWeightedRandom_def Let_def)
  show "i < length bs \<and> bk_healthy (bs ! i)" if p: "pickWeightedRandom bs rnd = Ret (Some i)"
  proof -
    have ne: "?h \<noteq> []" using p by (auto simp: pickWeightedRandom_def Let_def split: if_splits)
    then have "i \<in> set ?h"
      using p wr_scan_in [of bs "rnd ?t" ?h i] last_in_set [OF ne]
      by (auto simp: pickWeightedRandom_def Let_def simp del: set_filter split: if_splits option.splits)
    then show ?thesis by auto
  qed
  show "pickWeightedRandom bs rnd \<noteq> Ret None" if "any_healthy bs"
  proof -
    have "?h \<noteq> []" using that by (auto simp: any_healthy_def filter_empty_conv)
    then have "?t \<noteq> 0" using t by (cases ?h) auto
    then show ?thesis by (auto simp: pickWeightedRandom_def Let_def split: option.splits)
  qed
qed

section \<open>Consistent hashing\<close>

text \<open>A ring built for these backends: its points in some order sorted by hash.\<close>

definition is_ring :: "backend list \<Rightarrow> (u32 \<times> nat) list \<Rightarrow> bool" where
  "is_ring bs nodes \<longleftrightarrow> mset nodes = mset (ring_points bs) \<and> sorted (map fst nodes)"

lemma newHashRing_is_ring: "is_ring bs (newHashRing bs)"
  by (simp add: is_ring_def newHashRing_def)

lemma ring_points_backends: "snd ` set (ring_points bs) = {0..<length bs}"
  by (simp add: ring_points_def image_UN image_image image_constant_conv)

lemma is_ring_backends: "is_ring bs nodes \<Longrightarrow> snd ` set nodes = {0..<length bs}"
  using mset_eq_setD [of nodes "ring_points bs"] ring_points_backends [of bs] by (simp add: is_ring_def)

text \<open>The nodes in the order in which a lookup of \<open>key\<close> visits them.\<close>

definition ring_walk :: "(u32 \<times> nat) list \<Rightarrow> string \<Rightarrow> (u32 \<times> nat) list" where
  "ring_walk nodes key = ring_order nodes (sort_Search (length nodes) (\<lambda>i. fst (nodes ! i) \<ge> hashKey key))"

lemma ring_get_eq:
  "ring_get nodes bs key = map_option snd (find_first (\<lambda>n. bk_healthy (bs ! snd n)) (ring_walk nodes key))"
  by (simp add: ring_get_def ring_walk_def Let_def)

interpretation ch: picker "\<lambda>bs (nodes, key). Ret (ring_get nodes bs key)" "\<lambda>bs (nodes, key). is_ring bs nodes"
proof unfold_locales
  fix bs i and q :: "(u32 \<times> nat) list \<times> string"
  assume ok: "case q of (nodes, key) \<Rightarrow> is_ring bs nodes"
  obtain nodes key where q: "q = (nodes, key)" by fastforce
  note r = is_ring_backends [of bs nodes] ok q
  show "(case q of (nodes, key) \<Rightarrow> Ret (ring_get nodes bs key)) \<noteq> Panic" by (simp add: q)
  show "i < length bs \<and> bk_healthy (bs ! i)"
    if "(case q of (nodes, key) \<Rightarrow> Ret (ring_get nodes bs key)) = Ret (Some i)"
  proof -
    from that obtain n where n: "find_first (\<lambda>n. bk_healthy (bs ! snd n)) (ring_walk nodes key) = Some n" "snd n = i"
      by (auto simp: q ring_get_eq)
    from find_first_SomeD [OF n(1)] have "n \<in> set nodes" "bk_healthy (bs ! i)"
      using n(2) by (simp_all add: ring_walk_def)
    moreover have "snd ` set nodes = {0..<length bs}" using r by simp
    ultimately show ?thesis using n(2) by force
  qed
  show "(case q of (nodes, key) \<Rightarrow> Ret (ring_get nodes bs key)) \<noteq> Ret None" if "any_healthy bs"
  proof -
    from that obtain j where j: "j < length bs" "bk_healthy (bs ! j)" by (auto simp: any_healthy_def)
    then obtain n where "n \<in> set nodes" "snd n = j" using r by fastforce
    with j(2) show ?thesis by (auto simp: q ring_get_eq ring_walk_def find_first_None)
  qed
qed

text \<open>A lookup that skips fewer nodes stops no later.\<close>

lemma find_first_weaken:
  "find_first P xs = Some x \<Longrightarrow> Q x \<Longrightarrow> (\<And>y. Q y \<Longrightarrow> P y) \<Longrightarrow> find_first Q xs = Some x"
  by (induction xs) (auto split: if_splits)

text \<open>The first node of a walk is the clockwise successor of the key's hash.\<close>

lemma ring_start:
  assumes "sorted (map fst nodes)" "s = sort_Search (length nodes) (\<lambda>i. fst (nodes ! i) \<ge> h)"
  shows "s \<le> length nodes" "i < s \<Longrightarrow> \<not> h \<le> fst (nodes ! i)"
    "s \<le> i \<Longrightarrow> i < length nodes \<Longrightarrow> h \<le> fst (nodes ! i)"
proof -
  have mono: "h \<le> fst (nodes ! j)" if "i \<le> j" "j < length nodes" "h \<le> fst (nodes ! i)" for i j
    using sorted_nth_mono [OF assms(1) that(1)] that by simp
  let ?f = "\<lambda>i. h \<le> fst (nodes ! i)"
  have "\<forall>k < s. \<not> ?f k"
    unfolding assms(2) by (rule sort_Search_least(1) [of "length nodes" ?f]) (rule mono)
  moreover have "\<forall>k. s \<le> k \<longrightarrow> k < length nodes \<longrightarrow> ?f k"
    unfolding assms(2) by (rule sort_Search_least(2) [of "length nodes" ?f]) (rule mono)
  ultimately show "i < s \<Longrightarrow> \<not> h \<le> fst (nodes ! i)" "s \<le> i \<Longrightarrow> i < length nodes \<Longrightarrow> h \<le> fst (nodes ! i)"
    by blast+
  show "s \<le> length nodes" by (simp add: assms(2) sort_Search_le)
qed

lemma ring_walk_hd:
  assumes "sorted (map fst nodes)" "nodes \<noteq> []" "m \<in> set nodes" "hashKey key \<le> fst m"
  shows "hashKey key \<le> fst (hd (ring_walk nodes key))" "fst (hd (ring_walk nodes key)) \<le> fst m"
proof -
  define s where "s = sort_Search (length nodes) (\<lambda>i. fst (nodes ! i) \<ge> hashKey key)"
  note start = ring_start [OF assms(1) s_def]
  obtain i where i: "i < length nodes" "m = nodes ! i" using assms(3) by (metis in_set_conv_nth)
  have "s \<le> i" using start(2) [of i] assms(4) i(2) by (cases "i < s") auto
  then have s: "s < length nodes" using i(1) by simp
  have "hd (ring_walk nodes key) = nodes ! s"
    unfolding ring_walk_def s_def [symmetric] using assms(2) s
    by (simp add: ring_order_def hd_map)
  then show "hashKey key \<le> fst (hd (ring_walk nodes key))" "fst (hd (ring_walk nodes key)) \<le> fst m"
    using start(3) [of s] s sorted_nth_mono [OF assms(1) \<open>s \<le> i\<close>] i by simp_all
qed

lemma ring_walk_ne: "nodes \<noteq> [] \<Longrightarrow> ring_walk nodes key \<noteq> []"
  by (simp add: ring_walk_def ring_order_def)

lemma add_conns_simps [simp]:
  "length (p_backends (add_conns i d p)) = length (p_backends p)"
  "p_strategy (add_conns i d p) = p_strategy p" "p_ring (add_conns i d p) = p_ring p"
  "p_rrCounter (add_conns i d p) = p_rrCounter p"
  by (simp_all add: add_conns_def)

lemma add_conns_undo: "i < length (p_backends p) \<Longrightarrow> add_conns i (- d) (add_conns i d p) = p"
  by (simp add: add_conns_def)

text \<open>When a pool may be used: its ring is built from its backends, weights are positive, the
  random source answers in range and the counter is below \<open>2^63 - 1\<close>.\<close>

definition pool_ok :: "(int \<Rightarrow> int) \<Rightarrow> pool \<Rightarrow> bool" where
  "pool_ok rnd p \<longleftrightarrow> p_backends p \<noteq> [] \<and> wr_ok (p_backends p) rnd \<and>
     (p_strategy p = ConsistentHash \<longrightarrow> is_ring (p_backends p) (p_ring p)) \<and>
     0 \<le> sint (p_rrCounter p) \<and> sint (p_rrCounter p) < 2 ^ 63 - 1"

definition counted :: "pool \<Rightarrow> pool" where
  "counted p = (if p_strategy p = RoundRobin then p\<lparr>p_rrCounter := p_rrCounter p + 1\<rparr> else p)"

lemma counted_backends [simp]:
  "p_backends (counted p) = p_backends p" "p_strategy (counted p) = p_strategy p" "p_ring (counted p) = p_ring p"
  by (simp_all add: counted_def)

lemma select_cases:
  assumes "pool_ok rnd p"
  obtains (some) i where "select_backend (counted p) key rnd = Ret (Some i)" "i < length (p_backends p)"
      "bk_healthy (p_backends p ! i)"
  | (none) "select_backend (counted p) key rnd = Ret None" "\<not> any_healthy (p_backends p)"
proof (cases "p_strategy p")
  case RoundRobin
  have "sint (p_rrCounter p + 1) = sint (p_rrCounter p) + 1"
    using assms by (simp add: pool_ok_def sint64_add)
  then have ok: "rr_ok (p_backends p) (p_rrCounter p + 1)"
    using assms by (simp add: pool_ok_def rr_ok_def)
  show ?thesis
    by (rule rr.pick_cases [OF ok]) (use RoundRobin some none in \<open>auto simp: select_backend_def counted_def\<close>)
next
  case LeastConnections
  show ?thesis
    by (rule lc.pick_cases [of "p_backends p"]) (use LeastConnections some none in \<open>auto simp: select_backend_def\<close>)
next
  case WeightedRandom
  have ok: "wr_ok (p_backends p) rnd" using assms by (simp add: pool_ok_def)
  show ?thesis
    by (rule wr.pick_cases [OF ok]) (use WeightedRandom some none in \<open>auto simp: select_backend_def\<close>)
next
  case ConsistentHash
  then have ok: "case (p_ring p, key) of (nodes, key) \<Rightarrow> is_ring (p_backends p) nodes"
    using assms by (simp add: pool_ok_def)
  show ?thesis
    by (rule ch.pick_cases [OF ok]) (use ConsistentHash some none in \<open>auto simp: select_backend_def\<close>)
qed

lemma Pick_eq: "Pick key rnd p =
    (case select_backend (counted p) key rnd of
       Panic \<Rightarrow> Panic
     | Ret None \<Rightarrow> Ret (Inl ErrNoHealthyBackends, counted p)
     | Ret (Some i) \<Rightarrow> Ret (Inr i, add_conns i 1 (counted p)))"
  by (simp only: Pick_def counted_def Let_def)

section \<open>Properties\<close>


definition demo_pool :: pool where
  "demo_pool = \<lparr>p_strategy = RoundRobin,
     p_backends = [SetHealthy False (NewBackend ''a'' ''10.0.0.1'' 0), NewBackend ''b'' ''10.0.0.2'' 2],
     p_rrCounter = 7, p_ring = []\<rparr>"


text \<open>C18. Consistent hashing: the ring sends a key to the clockwise successor of its hash, and a
  change of one backend's health moves only the keys of that backend: when a backend becomes
  unhealthy every key routed elsewhere stays where it was, and when it recovers, a key that moves
  moves to it.\<close>

theorem ring_affinity:
  assumes "is_ring bs nodes" "j < length bs" "bk_healthy (bs ! j)"
    and "down = bs[j := SetHealthy False (bs ! j)]"
  shows "(\<forall>key i. ring_get nodes bs key = Some i \<longrightarrow> i \<noteq> j \<longrightarrow> ring_get nodes down key = Some i) \<and>
    (\<forall>key i. ring_get nodes down key = Some i \<longrightarrow> ring_get nodes bs key = Some i \<or> ring_get nodes bs key = Some j) \<and>
    (\<forall>key n. n = hd (ring_walk nodes key) \<longrightarrow> bk_healthy (bs ! snd n) \<longrightarrow> ring_get nodes bs key = Some (snd n) \<and>
       (\<forall>m \<in> set nodes. hashKey key \<le> fst m \<longrightarrow> hashKey key \<le> fst n \<and> fst n \<le> fst m))"
proof -
  have h: "bk_healthy (down ! i) \<longleftrightarrow> i \<noteq> j \<and> bk_healthy (bs ! i)" for i
    using assms(2,4) by (auto simp: nth_list_update SetHealthy_def)
  have stay: "ring_get nodes down key = Some i" if "ring_get nodes bs key = Some i" "i \<noteq> j" for key i
  proof -
    from that(1) obtain n where n: "find_first (\<lambda>n. bk_healthy (bs ! snd n)) (ring_walk nodes key) = Some n" "snd n = i"
      by (auto simp: ring_get_eq)
    have "find_first (\<lambda>n. bk_healthy (down ! snd n)) (ring_walk nodes key) = Some n"
      by (rule find_first_weaken [OF n(1)]) (use h that(2) n find_first_SomeD [OF n(1)] in auto)
    with n(2) show ?thesis by (simp add: ring_get_eq)
  qed
  have moved: "ring_get nodes bs key = Some i \<or> ring_get nodes bs key = Some j"
    if down: "ring_get nodes down key = Some i" for key i
  proof (cases "ring_get nodes bs key")
    case None
    then have "\<forall>n \<in> set (ring_walk nodes key). \<not> bk_healthy (bs ! snd n)" by (simp add: ring_get_eq find_first_None)
    with down h show ?thesis by (auto simp: ring_get_eq dest!: find_first_SomeD)
  next
    case (Some k)
    with stay [of key k] down show ?thesis by (cases "k = j") auto
  qed
  have "nodes \<noteq> []" using is_ring_backends [OF assms(1)] assms(2) by auto
  moreover have "sorted (map fst nodes)" using assms(1) by (simp add: is_ring_def)
  ultimately have walk: "ring_walk nodes key \<noteq> [] \<and> (\<forall>m \<in> set nodes. hashKey key \<le> fst m \<longrightarrow>
      hashKey key \<le> fst (hd (ring_walk nodes key)) \<and> fst (hd (ring_walk nodes key)) \<le> fst m)" for key
    using ring_walk_hd [of nodes _ key] ring_walk_ne [of nodes key] by blast
  have first: "ring_get nodes bs key = Some (snd n)" if "n = hd (ring_walk nodes key)" "bk_healthy (bs ! snd n)" for key n
    using find_first_hd [of "ring_walk nodes key" "\<lambda>n. bk_healthy (bs ! snd n)"] walk that by (simp add: ring_get_eq)
  show ?thesis using stay moved first walk by blast
qed

theorem ring_affinity_witness:
  "ring_get (newHashRing [NewBackend ''a'' ''x'' 1, NewBackend ''b'' ''y'' 1])
     [NewBackend ''a'' ''x'' 1, SetHealthy False (NewBackend ''b'' ''y'' 1)] ''k'' = Some 0"
proof -
  let ?bs = "[NewBackend ''a'' ''x'' 1, NewBackend ''b'' ''y'' 1]"
  let ?down = "[NewBackend ''a'' ''x'' 1, SetHealthy False (NewBackend ''b'' ''y'' 1)]"
  have down: "?down = ?bs[1 := SetHealthy False (?bs ! 1)]" by simp
  have ring: "is_ring ?bs (newHashRing ?bs)" by (rule newHashRing_is_ring)
  have down_ring: "is_ring ?down (newHashRing ?bs)"
  proof -
    have "ring_points ?down = ring_points ?bs" by (simp add: ring_points_def NewBackend_def SetHealthy_def)
    with ring show ?thesis by (simp add: is_ring_def)
  qed
  have healthy: "any_healthy ?bs" "any_healthy ?down"
    by (auto simp: any_healthy_def NewBackend_def intro!: exI [of _ 0])
  note A = ring_affinity [OF ring _ _ down]
  obtain k where k: "ring_get (newHashRing ?bs) ?down ''k'' = Some k"
    using ch.total [of ?down "(newHashRing ?bs, ''k'')"] down_ring healthy(2)
    by (cases "ring_get (newHashRing ?bs) ?down ''k''") auto
  have "k = 0"
    using ch.sound [of ?down "(newHashRing ?bs, ''k'')" k] down_ring k
    by (auto simp: SetHealthy_def less_Suc_eq)
  with k A show ?thesis by (simp add: NewBackend_def)
qed

fun pick_many :: "nat \<Rightarrow> string \<Rightarrow> (int \<Rightarrow> int) \<Rightarrow> pool \<Rightarrow> (lb_err + nat) list go" where
  "pick_many 0 key rnd p = Ret []"
| "pick_many (Suc n) key rnd p =
     (case Pick key rnd p of
        Panic \<Rightarrow> Panic
      | Ret (r, p') \<Rightarrow> (case pick_many n key rnd p' of Panic \<Rightarrow> Panic | Ret rs \<Rightarrow> Ret (r # rs)))"

lemma rr_pick:
  assumes "p_strategy p = RoundRobin" "p_backends p \<noteq> []" "\<forall>b \<in> set (p_backends p). bk_healthy b"
    "0 \<le> sint (p_rrCounter p)" "sint (p_rrCounter p) + 1 < 2 ^ 63"
    "i = nat ((sint (p_rrCounter p) + 1) mod int (length (p_backends p)))"
  shows "Pick key rnd p = Ret (Inr i, add_conns i 1 (counted p))" and "i < length (p_backends p)"
proof -
  let ?n = "length (p_backends p)"
  have c: "sint (p_rrCounter p + 1) = sint (p_rrCounter p) + 1"
    using assms(4,5) by (simp add: sint64_add)
  then have ok: "rr_ok (p_backends p) (p_rrCounter p + 1)" using assms by (simp add: rr_ok_def)
  have up: "[0..<?n] = 0 # [1..<?n]" using assms(2) by (simp add: upt_conv_Cons)
  show i: "i < ?n" using assms(2,6) by (simp add: nat_less_iff)
  have "pickRoundRobin (p_backends p) (p_rrCounter p + 1) = Ret (Some i)"
    using i assms(3,6) unfolding pickRoundRobin_eq [OF ok] c up by simp
  then show "Pick key rnd p = Ret (Inr i, add_conns i 1 (counted p))"
    using assms(1) by (simp add: Pick_eq select_backend_def counted_def)
qed

lemma rr_many:
  assumes "p_strategy p = RoundRobin" "p_backends p \<noteq> []" "\<forall>b \<in> set (p_backends p). bk_healthy b"
    "0 \<le> sint (p_rrCounter p)" "sint (p_rrCounter p) + int m < 2 ^ 63"
  shows "pick_many m key rnd p =
    Ret (map (\<lambda>k. Inr (nat ((sint (p_rrCounter p) + 1 + int k) mod int (length (p_backends p))))) [0..<m])"
  using assms
proof (induction m arbitrary: p)
  case (Suc m)
  let ?n = "length (p_backends p)"
  let ?i = "nat ((sint (p_rrCounter p) + 1) mod int ?n)"
  let ?q = "add_conns ?i 1 (counted p)"
  have pick: "Pick key rnd p = Ret (Inr ?i, ?q)" and i: "?i < ?n"
    using rr_pick [OF Suc.prems(1-4) _ refl] Suc.prems(5) by auto
  have q: "p_strategy ?q = RoundRobin" "length (p_backends ?q) = ?n" "sint (p_rrCounter ?q) = sint (p_rrCounter p) + 1"
    using Suc.prems(1,4,5) by (simp_all add: counted_def sint64_add)
  have "\<forall>b \<in> set (p_backends ?q). bk_healthy b"
    using Suc.prems(3) i by (auto simp: add_conns_def dest!: subsetD [OF set_update_subset_insert])
  then have "pick_many m key rnd ?q =
      Ret (map (\<lambda>k. Inr (nat ((sint (p_rrCounter p) + 1 + 1 + int k) mod int ?n))) [0..<m])"
    using Suc.IH [of ?q] q Suc.prems(2,4,5) length_0_conv [of "p_backends ?q"] by (simp add: add.assoc)
  moreover have "[0..<Suc m] = 0 # map Suc [0..<m]" by (simp add: map_Suc_upt upt_conv_Cons del: upt_Suc)
  ultimately show ?case using pick by (simp add: comp_def add.assoc)
qed simp

text \<open>Round robin is fair: over as many consecutive picks as there are backends, with all of them
  healthy, every backend is picked exactly once.\<close>

theorem round_robin_fair:
  assumes "p_strategy p = RoundRobin" "p_backends p \<noteq> []" "\<forall>b \<in> set (p_backends p). bk_healthy b"
    and "0 \<le> sint (p_rrCounter p)" "sint (p_rrCounter p) + int (length (p_backends p)) < 2 ^ 63"
  shows "\<exists>is. pick_many (length (p_backends p)) key rnd p = Ret (map Inr is) \<and>
    distinct is \<and> set is = {0..<length (p_backends p)}"
proof (intro exI conjI)
  let ?n = "length (p_backends p)"
  let ?is = "map (\<lambda>k. nat ((sint (p_rrCounter p) + 1 + int k) mod int ?n)) [0..<?n]"
  show "pick_many ?n key rnd p = Ret (map Inr ?is)"
    using rr_many [OF assms] by (simp add: comp_def)
  show img: "set ?is = {0..<?n}" using rr_indices [of ?n "sint (p_rrCounter p) + 1"] assms(2) by simp
  show "distinct ?is" by (rule card_distinct) (simp add: img del: set_map)
qed

theorem round_robin_fair_witness:
  "\<exists>is. pick_many 2 ''key'' (\<lambda>t. 0) (demo_pool\<lparr>p_backends := map (SetHealthy True) (p_backends demo_pool)\<rparr>) =
     Ret (map Inr is) \<and> set is = {0..<2}"
  using round_robin_fair [of "demo_pool\<lparr>p_backends := map (SetHealthy True) (p_backends demo_pool)\<rparr>" "''key''" "\<lambda>t. 0"]
  by (auto simp: demo_pool_def SetHealthy_def numeral_2_eq_2)

text \<open>The counter is read as a signed integer: once it passes \<open>2^63\<close> the index is negative.\<close>

lemma round_robin_counter_overflow:
  "pickRoundRobin [NewBackend ''a'' ''x'' 1, NewBackend ''b'' ''y'' 1, NewBackend ''c'' ''z'' 1] (word_of_int (2 ^ 63)) = Panic"
  by (simp add: pickRoundRobin_def NewBackend_def tmod_def tdiv_def upt_rec Let_def)

end
