(* ===== verification/Lru_Cache.thy ===== *)
theory Lru_Cache
  imports Go_Prelude
begin

text \<open>
  \<open>fintech-gateway-go/internal/cache\<close>: the sharded cache with an LRU list and a lifetime per
  entry, refined from a plain most-recently-used-first list.
\<close>

section \<open>One shard\<close>

record 'v entry =
  e_value :: 'v
  e_expiresAt :: instant

text \<open>\<open>items\<close> and the recency list \<open>order\<close> (front = most recently used) of the entries' keys.\<close>

record 'v lru_shard =
  s_items :: "string \<rightharpoonup> 'v entry"
  s_order :: "string list"
  s_capacity :: int

definition new_shard :: "int \<Rightarrow> 'v lru_shard" where
  "new_shard capacity = \<lparr>s_items = Map.empty, s_order = [], s_capacity = capacity\<rparr>"

definition MoveToFront :: "string \<Rightarrow> string list \<Rightarrow> string list" where
  "MoveToFront k order = k # remove1 k order"

definition lru_get :: "instant \<Rightarrow> string \<Rightarrow> 'v lru_shard \<Rightarrow> 'v option \<times> 'v lru_shard" where
  "lru_get now key s =
     (case s_items s key of
        None \<Rightarrow> (None, s)
      | Some e \<Rightarrow>
          if now > e_expiresAt e
          then (None, s\<lparr>s_order := remove1 key (s_order s), s_items := (s_items s)(key := None)\<rparr>)
          else (Some (e_value e), s\<lparr>s_order := MoveToFront key (s_order s)\<rparr>))"

text \<open>\<open>if s.capacity > 0 && len(s.items) > s.capacity\<close>: drop the back of the list.\<close>

definition lru_evict :: "'v lru_shard \<Rightarrow> 'v lru_shard" where
  "lru_evict s =
     (if s_capacity s > 0 \<and> int (card (dom (s_items s))) > s_capacity s \<and> s_order s \<noteq> []
      then s\<lparr>s_order := butlast (s_order s), s_items := (s_items s)(last (s_order s) := None)\<rparr>
      else s)"

definition lru_put :: "instant \<Rightarrow> duration \<Rightarrow> string \<Rightarrow> 'v \<Rightarrow> 'v lru_shard \<Rightarrow> 'v lru_shard" where
  "lru_put now ttl key value s =
     (let e = \<lparr>e_value = value, e_expiresAt = now + ttl\<rparr> in
      case s_items s key of
        Some _ \<Rightarrow> s\<lparr>s_items := (s_items s)(key \<mapsto> e), s_order := MoveToFront key (s_order s)\<rparr>
      | None \<Rightarrow> lru_evict (s\<lparr>s_order := key # s_order s, s_items := (s_items s)(key \<mapsto> e)\<rparr>))"

text \<open>
  \<open>GetOrLoad\<close> after its first lookup missed, under the shard's lock: look again (with \<open>Before\<close>
  where \<open>Get\<close> uses \<open>After\<close>), else load and store. The loader has its own state \<open>l\<close>.
\<close>

definition lru_load ::
  "instant \<Rightarrow> duration \<Rightarrow> string \<Rightarrow> ('l \<Rightarrow> ('e + 'v) \<times> 'l) \<Rightarrow> 'l \<Rightarrow> 'v lru_shard \<Rightarrow> (('e + 'v) \<times> 'l) \<times> 'v lru_shard" where
  "lru_load now ttl key load l s =
     (case s_items s key of
        Some e \<Rightarrow>
          if now < e_expiresAt e
          then ((Inr (e_value e), l), s\<lparr>s_order := MoveToFront key (s_order s)\<rparr>)
          else (case load l of
              (Inl err, l') \<Rightarrow> ((Inl err, l'), s)
            | (Inr v, l') \<Rightarrow> ((Inr v, l'), lru_put now ttl key v s))
      | None \<Rightarrow>
          (case load l of
             (Inl err, l') \<Rightarrow> ((Inl err, l'), s)
           | (Inr v, l') \<Rightarrow> ((Inr v, l'), lru_put now ttl key v s)))"

section \<open>The cache\<close>

record 'v cache =
  c_shards :: "'v lru_shard list"
  c_ttl :: duration

definition New_cache :: "int \<Rightarrow> duration \<Rightarrow> 'v cache" where
  "New_cache capacityPerShard ttl = \<lparr>c_shards = replicate 256 (new_shard capacityPerShard), c_ttl = ttl\<rparr>"

definition lift_shard :: "string \<Rightarrow> ('v lru_shard \<Rightarrow> 'r \<times> 'v lru_shard) \<Rightarrow> 'v cache \<Rightarrow> 'r \<times> 'v cache" where
  "lift_shard key f c = (case on_shard key f (c_shards c) of (r, ss) \<Rightarrow> (r, c\<lparr>c_shards := ss\<rparr>))"

definition Cache_Get :: "instant \<Rightarrow> string \<Rightarrow> 'v cache \<Rightarrow> 'v option \<times> 'v cache" where
  "Cache_Get now key c = lift_shard key (lru_get now key) c"

definition Cache_Set :: "instant \<Rightarrow> string \<Rightarrow> 'v \<Rightarrow> 'v cache \<Rightarrow> 'v cache" where
  "Cache_Set now key value c = snd (lift_shard key (\<lambda>s. ((), lru_put now (c_ttl c) key value s)) c)"

definition Cache_load ::
  "instant \<Rightarrow> string \<Rightarrow> ('l \<Rightarrow> ('e + 'v) \<times> 'l) \<Rightarrow> 'l \<Rightarrow> 'v cache \<Rightarrow> (('e + 'v) \<times> 'l) \<times> 'v cache" where
  "Cache_load now key load l c = lift_shard key (lru_load now (c_ttl c) key load l) c"

text \<open>\<open>GetOrLoad\<close> without interference; it reads the clock twice.\<close>

definition GetOrLoad ::
  "instant \<Rightarrow> instant \<Rightarrow> string \<Rightarrow> ('l \<Rightarrow> ('e + 'v) \<times> 'l) \<Rightarrow> 'l \<Rightarrow> 'v cache \<Rightarrow> (('e + 'v) \<times> 'l) \<times> 'v cache" where
  "GetOrLoad now1 now2 key load l c =
     (case Cache_Get now1 key c of
        (Some v, c') \<Rightarrow> ((Inr v, l), c')
      | (None, c') \<Rightarrow> Cache_load now2 key load l c')"

section \<open>The abstract cache: a list of entries, the most recently used first\<close>

type_synonym 'v mru = "(string \<times> 'v entry) list"

definition drop_key :: "string \<Rightarrow> 'v mru \<Rightarrow> 'v mru" where
  "drop_key k l = filter (\<lambda>p. fst p \<noteq> k) l"

definition mru_get :: "instant \<Rightarrow> string \<Rightarrow> 'v mru \<Rightarrow> 'v option \<times> 'v mru" where
  "mru_get now k l =
     (case map_of l k of
        None \<Rightarrow> (None, l)
      | Some e \<Rightarrow> if now > e_expiresAt e then (None, drop_key k l) else (Some (e_value e), (k, e) # drop_key k l))"

definition mru_put :: "int \<Rightarrow> string \<Rightarrow> 'v entry \<Rightarrow> 'v mru \<Rightarrow> 'v mru" where
  "mru_put cap k e l =
     (let l' = (k, e) # drop_key k l in if 0 < cap then take (nat cap) l' else l')"

definition mru_of :: "'v lru_shard \<Rightarrow> 'v mru" where
  "mru_of s = map (\<lambda>k. (k, the (s_items s k))) (s_order s)"

text \<open>The recency list holds exactly the stored keys, once each, and respects the capacity.\<close>

definition lru_inv :: "'v lru_shard \<Rightarrow> bool" where
  "lru_inv s \<longleftrightarrow> distinct (s_order s) \<and> set (s_order s) = dom (s_items s) \<and>
     (0 < s_capacity s \<longrightarrow> int (length (s_order s)) \<le> s_capacity s)"

lemma lru_inv_new [simp]: "lru_inv (new_shard cap)"
  by (simp add: lru_inv_def new_shard_def)

lemma map_of_mru: "lru_inv s \<Longrightarrow> map_of (mru_of s) k = s_items s k"
  by (cases "k \<in> dom (s_items s)")
    (auto simp: lru_inv_def mru_of_def map_of_map_restrict restrict_map_def map_of_eq_None_iff
      image_iff domIff)

lemma drop_key_map: "drop_key k (map (\<lambda>k. (k, f k)) ks) = map (\<lambda>k. (k, f k)) (filter (\<lambda>x. x \<noteq> k) ks)"
  by (simp add: drop_key_def filter_map comp_def)

lemma remove1_filter: "distinct ks \<Longrightarrow> remove1 k ks = filter (\<lambda>x. x \<noteq> k) ks"
  by (rule distinct_remove1_removeAll [THEN trans]) (simp_all add: removeAll_filter_not_eq neq_commute)

lemma mru_of_upd:
  "k \<notin> set ks \<Longrightarrow> mru_of (s\<lparr>s_order := ks, s_items := (s_items s)(k := x)\<rparr>) = map (\<lambda>x. (x, the (s_items s x))) ks"
  "k \<notin> set ks \<Longrightarrow> mru_of (s\<lparr>s_order := k # ks, s_items := (s_items s)(k := Some e)\<rparr>) =
     (k, e) # map (\<lambda>x. (x, the (s_items s x))) ks"
  by (auto simp: mru_of_def)

lemma mru_drop: "lru_inv s \<Longrightarrow> drop_key k (mru_of s) = map (\<lambda>x. (x, the (s_items s x))) (remove1 k (s_order s))"
  by (simp add: mru_of_def drop_key_map remove1_filter lru_inv_def)

lemma lru_get_refines:
  assumes "lru_inv s"
  shows "fst (lru_get now k s) = fst (mru_get now k (mru_of s)) \<and>
    mru_of (snd (lru_get now k s)) = snd (mru_get now k (mru_of s)) \<and>
    lru_inv (snd (lru_get now k s)) \<and> s_capacity (snd (lru_get now k s)) = s_capacity s"
proof (cases "s_items s k")
  case None
  with assms show ?thesis by (simp add: lru_get_def mru_get_def map_of_mru)
next
  case (Some e)
  have k: "k \<in> set (s_order s)" "distinct (s_order s)" using assms Some by (auto simp: lru_inv_def)
  have len: "length (remove1 k (s_order s)) + 1 = length (s_order s)"
    using length_pos_if_in_set [OF k(1)] k(1) by (simp add: length_remove1)
  have nk: "k \<notin> set (remove1 k (s_order s))" using k(2) by simp
  show ?thesis
  proof (cases "now > e_expiresAt e")
    case True
    have "lru_inv (s\<lparr>s_order := remove1 k (s_order s), s_items := (s_items s)(k := None)\<rparr>)"
      using assms len k by (auto simp: lru_inv_def)
    with True Some assms nk show ?thesis
      by (simp add: lru_get_def mru_get_def map_of_mru mru_drop mru_of_upd(1))
  next
    case False
    have "lru_inv (s\<lparr>s_order := MoveToFront k (s_order s)\<rparr>)"
      using assms len k by (auto simp: lru_inv_def MoveToFront_def)
    moreover have "mru_of (s\<lparr>s_order := MoveToFront k (s_order s)\<rparr>) = (k, e) # drop_key k (mru_of s)"
      using Some assms by (simp add: mru_drop) (simp add: mru_of_def MoveToFront_def)
    ultimately show ?thesis
      using False Some assms by (simp add: lru_get_def mru_get_def map_of_mru)
  qed
qed

text \<open>Storing a new key, before and after the eviction.\<close>

lemma lru_evict_refines:
  assumes "distinct (s_order s)" "set (s_order s) = dom (s_items s)"
    "0 < s_capacity s \<longrightarrow> int (length (s_order s)) \<le> s_capacity s + 1"
  shows "mru_of (lru_evict s) = (if 0 < s_capacity s then take (nat (s_capacity s)) (mru_of s) else mru_of s) \<and>
    lru_inv (lru_evict s) \<and> s_capacity (lru_evict s) = s_capacity s"
proof -
  have card: "card (dom (s_items s)) = length (s_order s)"
    using assms(1,2) by (metis distinct_card)
  show ?thesis
  proof (cases "0 < s_capacity s \<and> int (length (s_order s)) > s_capacity s")
    case False
    then show ?thesis using assms card by (auto simp: lru_evict_def lru_inv_def mru_of_def)
  next
    case True
    then have len: "length (s_order s) = Suc (nat (s_capacity s))" using assms(3) by auto
    then obtain ks z where o: "s_order s = ks @ [z]" by (metis length_Suc_conv_rev)
    then have ks: "distinct ks" "z \<notin> set ks" "length ks = nat (s_capacity s)"
      using assms(1) len by auto
    have "set ks = dom ((s_items s)(z := None))" using assms(2) ks o by auto
    with True card ks o show ?thesis
      by (auto simp: lru_evict_def lru_inv_def mru_of_def)
  qed
qed

lemma lru_put_refines:
  assumes "lru_inv s"
  shows "mru_of (lru_put now ttl k v s) = mru_put (s_capacity s) k \<lparr>e_value = v, e_expiresAt = now + ttl\<rparr> (mru_of s) \<and>
    lru_inv (lru_put now ttl k v s) \<and> s_capacity (lru_put now ttl k v s) = s_capacity s"
proof -
  let ?e = "\<lparr>e_value = v, e_expiresAt = now + ttl\<rparr>"
  have d: "distinct (s_order s)" "set (s_order s) = dom (s_items s)"
    "0 < s_capacity s \<longrightarrow> int (length (s_order s)) \<le> s_capacity s"
    using assms by (auto simp: lru_inv_def)
  show ?thesis
  proof (cases "s_items s k")
    case None
    let ?s = "s\<lparr>s_order := k # s_order s, s_items := (s_items s)(k \<mapsto> ?e)\<rparr>"
    have k: "k \<notin> set (s_order s)" using None d by auto
    then have "mru_of ?s = (k, ?e) # drop_key k (mru_of s)"
      using mru_of_upd(2) [OF k] assms by (simp add: mru_drop remove1_idem)
    moreover have "mru_of (lru_evict ?s) = (if 0 < s_capacity ?s then take (nat (s_capacity ?s)) (mru_of ?s) else mru_of ?s) \<and>
        lru_inv (lru_evict ?s) \<and> s_capacity (lru_evict ?s) = s_capacity ?s"
      by (rule lru_evict_refines) (use d k in auto)
    ultimately show ?thesis using None by (simp add: lru_put_def mru_put_def Let_def)
  next
    case (Some e0)
    have k: "k \<in> set (s_order s)" using Some d by auto
    let ?s = "s\<lparr>s_items := (s_items s)(k \<mapsto> ?e), s_order := MoveToFront k (s_order s)\<rparr>"
    have "?s = s\<lparr>s_order := k # remove1 k (s_order s), s_items := (s_items s)(k \<mapsto> ?e)\<rparr>"
      by (simp add: MoveToFront_def)
    then have m: "mru_of ?s = (k, ?e) # drop_key k (mru_of s)"
      using mru_of_upd(2) [of k "remove1 k (s_order s)" s ?e] d(1) assms by (simp add: mru_drop)
    have len: "length (MoveToFront k (s_order s)) = length (s_order s)"
      using length_pos_if_in_set [OF k] k by (simp add: MoveToFront_def length_remove1)
    then have "length (mru_of ?s) = length (s_order s)" by (simp add: mru_of_def)
    then have "take (nat (s_capacity s)) (mru_of ?s) = mru_of ?s" if "0 < s_capacity s"
      using that d(3) by simp
    moreover have "lru_inv ?s"
      using d k len by (auto simp: lru_inv_def MoveToFront_def)
    ultimately show ?thesis
      using Some m by (simp add: lru_put_def mru_put_def Let_def)
  qed
qed

section \<open>Recency\<close>

text \<open>How many entries have been used more recently than \<open>k\<close>.\<close>

definition rank :: "string \<Rightarrow> 'v mru \<Rightarrow> nat" where
  "rank k l = length (takeWhile (\<lambda>p. fst p \<noteq> k) l)"

lemma rank_Cons: "rank k (p # l) = (if fst p = k then 0 else Suc (rank k l))"
  by (simp add: rank_def)

lemma rank_drop: "k \<noteq> k' \<Longrightarrow> rank k (drop_key k' l) \<le> rank k l"
  by (induction l) (auto simp: drop_key_def rank_Cons)

lemma map_of_drop: "k \<noteq> k' \<Longrightarrow> map_of (drop_key k' l) k = map_of l k"
  by (induction l) (auto simp: drop_key_def)

lemma map_of_take: "rank k l < n \<Longrightarrow> map_of (take n l) k = map_of l k"
  by (induction l arbitrary: n) (auto simp: rank_Cons take_Cons' split: if_splits)

lemma rank_take: "rank k (take n l) \<le> rank k l"
  by (induction l arbitrary: n) (auto simp: rank_Cons take_Cons' rank_def)

lemma mru_get_other:
  assumes "k \<noteq> k'"
  shows "map_of (snd (mru_get now k' l)) k = map_of l k" "rank k (snd (mru_get now k' l)) \<le> Suc (rank k l)"
  using assms rank_drop [OF assms, of l]
  by (auto simp: mru_get_def rank_Cons map_of_drop split: option.splits)

lemma mru_put_other:
  assumes "k \<noteq> k'" "0 < cap \<longrightarrow> Suc (rank k l) < nat cap"
  shows "map_of (mru_put cap k' e l) k = map_of l k" "rank k (mru_put cap k' e l) \<le> Suc (rank k l)"
proof -
  have r: "rank k ((k', e) # drop_key k' l) \<le> Suc (rank k l)"
    using assms(1) rank_drop [OF assms(1), of l] by (simp add: rank_Cons)
  then have "0 < cap \<Longrightarrow> map_of (take (nat cap) ((k', e) # drop_key k' l)) k = map_of ((k', e) # drop_key k' l) k"
    using assms(2) by (intro map_of_take) auto
  then show "map_of (mru_put cap k' e l) k = map_of l k"
    using assms(1) by (simp add: mru_put_def Let_def map_of_drop)
  show "rank k (mru_put cap k' e l) \<le> Suc (rank k l)"
    using r rank_take [of k "nat cap" "(k', e) # drop_key k' l"] by (auto simp: mru_put_def Let_def)
qed

section \<open>The whole cache\<close>

definition cache_inv :: "int \<Rightarrow> 'v cache \<Rightarrow> bool" where
  "cache_inv cap c \<longleftrightarrow> length (c_shards c) = 256 \<and> (\<forall>s \<in> set (c_shards c). lru_inv s \<and> s_capacity s = cap)"

definition mru_at :: "string \<Rightarrow> 'v cache \<Rightarrow> 'v mru" where
  "mru_at k c = mru_of (shard_of k (c_shards c))"

definition same_shard :: "string \<Rightarrow> string \<Rightarrow> bool" where
  "same_shard k k' \<longleftrightarrow> fnv_index k 256 = fnv_index k' 256"

lemma cache_inv_new [simp]: "cache_inv cap (New_cache cap ttl)"
  by (simp add: cache_inv_def New_cache_def) (simp add: new_shard_def)

lemma cache_inv_shard:
  assumes "cache_inv cap c"
  shows "lru_inv (shard_of k (c_shards c))" "s_capacity (shard_of k (c_shards c)) = cap"
  using assms fnv_index_less [of 256 k] by (auto simp: cache_inv_def shard_of_def)

lemma lift_shard_at:
  assumes "cache_inv cap c"
    "\<And>s. lru_inv s \<Longrightarrow> s_capacity s = cap \<Longrightarrow> lru_inv (snd (f s)) \<and> s_capacity (snd (f s)) = cap"
  shows "fst (lift_shard k f c) = fst (f (shard_of k (c_shards c)))"
    and "cache_inv cap (snd (lift_shard k f c))"
    and "c_ttl (snd (lift_shard k f c)) = c_ttl c"
    and "mru_at k' (snd (lift_shard k f c)) =
      (if same_shard k' k then mru_of (snd (f (shard_of k (c_shards c)))) else mru_at k' c)"
proof -
  have len: "length (c_shards c) = 256" using assms(1) by (simp add: cache_inv_def)
  have eq: "snd (lift_shard k f c) = c\<lparr>c_shards := snd (on_shard k f (c_shards c))\<rparr>"
    by (simp add: lift_shard_def split: prod.splits)
  show "fst (lift_shard k f c) = fst (f (shard_of k (c_shards c)))"
    using on_shard_result [of k f "c_shards c"]
    by (cases "on_shard k f (c_shards c)") (simp add: lift_shard_def)
  have "\<forall>s \<in> set (snd (on_shard k f (c_shards c))). lru_inv s \<and> s_capacity s = cap"
    using assms len by (intro on_shard_all) (auto simp: cache_inv_def)
  then show "cache_inv cap (snd (lift_shard k f c))" using eq len by (simp add: cache_inv_def)
  show "c_ttl (snd (lift_shard k f c)) = c_ttl c" by (simp add: eq)
  show "mru_at k' (snd (lift_shard k f c)) =
      (if same_shard k' k then mru_of (snd (f (shard_of k (c_shards c)))) else mru_at k' c)"
    using shard_of_on_shard [of "c_shards c" k' k f] len by (simp add: eq mru_at_def same_shard_def)
qed

lemma Cache_Get_at:
  assumes "cache_inv cap c"
  shows "fst (Cache_Get now k c) = fst (mru_get now k (mru_at k c))"
    and "cache_inv cap (snd (Cache_Get now k c))" "c_ttl (snd (Cache_Get now k c)) = c_ttl c"
    and "mru_at k' (snd (Cache_Get now k c)) = (if same_shard k' k then snd (mru_get now k (mru_at k c)) else mru_at k' c)"
proof -
  have f: "lru_inv (snd (lru_get now k s)) \<and> s_capacity (snd (lru_get now k s)) = cap"
    if "lru_inv s" "s_capacity s = cap" for s
    using lru_get_refines [OF that(1), of now k] that(2) by simp
  note L = lift_shard_at [where f = "lru_get now k" and k = k, OF assms f]
    and R = lru_get_refines [OF cache_inv_shard(1) [OF assms, of k], of now k]
  show "fst (Cache_Get now k c) = fst (mru_get now k (mru_at k c))"
    using L(1) R by (simp add: Cache_Get_def mru_at_def)
  show "cache_inv cap (snd (Cache_Get now k c))" "c_ttl (snd (Cache_Get now k c)) = c_ttl c"
    using L(2,3) by (simp_all add: Cache_Get_def)
  show "mru_at k' (snd (Cache_Get now k c)) = (if same_shard k' k then snd (mru_get now k (mru_at k c)) else mru_at k' c)"
    using L(4) [where k' = k'] R by (simp add: Cache_Get_def) (simp add: mru_at_def)
qed

lemma Cache_Set_at:
  assumes "cache_inv cap c"
  shows "cache_inv cap (Cache_Set now k v c)" "c_ttl (Cache_Set now k v c) = c_ttl c"
    and "mru_at k' (Cache_Set now k v c) =
      (if same_shard k' k then mru_put cap k \<lparr>e_value = v, e_expiresAt = now + c_ttl c\<rparr> (mru_at k c) else mru_at k' c)"
proof -
  let ?f = "\<lambda>s. ((), lru_put now (c_ttl c) k v s)"
  have f: "lru_inv (snd (?f s)) \<and> s_capacity (snd (?f s)) = cap"
    if "lru_inv s" "s_capacity s = cap" for s
    using lru_put_refines [OF that(1), of now "c_ttl c" k v] that(2) by simp
  note L = lift_shard_at [where f = ?f and k = k, OF assms f]
    and R = lru_put_refines [OF cache_inv_shard(1) [OF assms, of k], of now "c_ttl c" k v]
  show "cache_inv cap (Cache_Set now k v c)" "c_ttl (Cache_Set now k v c) = c_ttl c"
    using L(2,3) by (simp_all add: Cache_Set_def)
  show "mru_at k' (Cache_Set now k v c) =
      (if same_shard k' k then mru_put cap k \<lparr>e_value = v, e_expiresAt = now + c_ttl c\<rparr> (mru_at k c) else mru_at k' c)"
    using L(4) [where k' = k'] R cache_inv_shard(2) [OF assms, of k] by (simp add: Cache_Set_def) (simp add: mru_at_def)
qed

text \<open>Operations of other callers.\<close>

datatype 'v cop = CGet instant string | CSet instant string 'v

fun cop_key :: "'v cop \<Rightarrow> string" where
  "cop_key (CGet now k) = k"
| "cop_key (CSet now k v) = k"

fun cop_exec :: "'v cop \<Rightarrow> 'v cache \<Rightarrow> 'v cache" where
  "cop_exec (CGet now k) c = snd (Cache_Get now k c)"
| "cop_exec (CSet now k v) c = Cache_Set now k v c"

lemma cop_exec_inv: "cache_inv cap c \<Longrightarrow> cache_inv cap (cop_exec op c)"
  by (cases op) (simp_all add: Cache_Get_at Cache_Set_at)

lemma cops_inv: "cache_inv cap c \<Longrightarrow> cache_inv cap (fold cop_exec ops c)"
  by (induction ops arbitrary: c) (simp_all add: cop_exec_inv)

text \<open>An operation on another key ages an entry by at most one.\<close>

lemma cop_exec_other:
  assumes "cache_inv cap c" "cop_key op \<noteq> k" "map_of (mru_at k c) k = Some e"
    "0 < cap \<longrightarrow> Suc (rank k (mru_at k c)) < nat cap"
  shows "map_of (mru_at k (cop_exec op c)) k = Some e" "rank k (mru_at k (cop_exec op c)) \<le> Suc (rank k (mru_at k c))"
proof -
  have eq: "mru_at (cop_key op) c = mru_at k c" if "same_shard k (cop_key op)"
    using that assms(1) by (simp add: mru_at_def shard_of_def same_shard_def cache_inv_def)
  have ne: "k \<noteq> cop_key op" using assms(2) by simp
  have "map_of (mru_at k (cop_exec op c)) k = Some e \<and> rank k (mru_at k (cop_exec op c)) \<le> Suc (rank k (mru_at k c))"
  proof (cases op)
    case (CGet now k')
    with ne eq have k': "k \<noteq> k'" "same_shard k k' \<Longrightarrow> mru_at k' c = mru_at k c" by simp_all
    show ?thesis
      using CGet Cache_Get_at(4) [OF assms(1), of k now k'] k'(2) assms(3)
        mru_get_other [OF k'(1), of now "mru_at k c"] by (cases "same_shard k k'") simp_all
  next
    case (CSet now k' v)
    with ne eq have k': "k \<noteq> k'" "same_shard k k' \<Longrightarrow> mru_at k' c = mru_at k c" by simp_all
    show ?thesis
      using CSet Cache_Set_at(3) [OF assms(1), of k now k' v] k'(2) assms(3)
        mru_put_other [OF k'(1) assms(4)] by (cases "same_shard k k'") simp_all
  qed
  then show "map_of (mru_at k (cop_exec op c)) k = Some e" "rank k (mru_at k (cop_exec op c)) \<le> Suc (rank k (mru_at k c))"
    by simp_all
qed

lemma cops_other:
  assumes "cache_inv cap c" "\<forall>op \<in> set ops. cop_key op \<noteq> k" "map_of (mru_at k c) k = Some e"
    "0 < cap \<longrightarrow> rank k (mru_at k c) + length ops < nat cap"
  shows "map_of (mru_at k (fold cop_exec ops c)) k = Some e"
  using assms
proof (induction ops arbitrary: c)
  case (Cons op ops)
  have step: "map_of (mru_at k (cop_exec op c)) k = Some e"
    "rank k (mru_at k (cop_exec op c)) \<le> Suc (rank k (mru_at k c))"
    using cop_exec_other [OF Cons.prems(1) _ Cons.prems(3), of op] Cons.prems(2,4) by auto
  show ?case
    using Cons.IH [OF cop_exec_inv [OF Cons.prems(1)] _ step(1)] step(2) Cons.prems(2,4) by auto
qed simp

lemma mru_put_head:
  "map_of (mru_put cap k e l) k = Some e" "rank k (mru_put cap k e l) = 0"
  by (cases "nat cap"; auto simp: mru_put_def Let_def rank_Cons)+

lemma mru_load:
  assumes "cache_inv cap c" "map_of (mru_at k c) k = Some e" "now < e_expiresAt e"
  shows "fst (Cache_load now k load l c) = (Inr (e_value e), l)"
proof -
  let ?s = "shard_of k (c_shards c)"
  have "s_items ?s k = Some e"
    using assms(2) map_of_mru [OF cache_inv_shard(1) [OF assms(1), of k], of k] by (simp add: mru_at_def)
  then have "fst (lru_load now (c_ttl c) k load l ?s) = (Inr (e_value e), l)"
    using assms(3) by (simp add: lru_load_def)
  then show ?thesis
    using on_shard_result [of k "lru_load now (c_ttl c) k load l" "c_shards c"]
    by (cases "on_shard k (lru_load now (c_ttl c) k load l) (c_shards c)") (simp add: Cache_load_def lift_shard_def)
qed

text \<open>A load that is performed stores its value like \<open>Set\<close>.\<close>

lemma Cache_load_stores:
  assumes "cache_inv cap c" "fst (Cache_load now k load l c) = (Inr v, l')" "load l = (Inr v, l')"
    "\<And>e. map_of (mru_at k c) k = Some e \<Longrightarrow> e_expiresAt e \<le> now"
  shows "snd (Cache_load now k load l c) = Cache_Set now k v c"
proof -
  let ?s = "shard_of k (c_shards c)"
  have "s_items ?s k = Some e \<Longrightarrow> \<not> now < e_expiresAt e" for e
    using assms(4) [of e] map_of_mru [OF cache_inv_shard(1) [OF assms(1), of k], of k] by (simp add: mru_at_def)
  then have "snd (lru_load now (c_ttl c) k load l ?s) = lru_put now (c_ttl c) k v ?s"
    using assms(3) by (auto simp: lru_load_def split: option.splits)
  then show ?thesis
    by (cases "lru_load now (c_ttl c) k load l ?s")
      (simp add: Cache_load_def Cache_Set_def lift_shard_def on_shard_def Let_def shard_of_def)
qed

section \<open>Properties\<close>

text \<open>C19. The cache implements a family of recency lists, one per shard: in every cache whose shards
  satisfy the invariant, \<open>Get\<close> and \<open>Set\<close> answer and change the list of the key's shard exactly as the
  abstract most-recently-used list does (capacity enforced by dropping the least recently used
  entry, expired entries dropped on access), leave every other shard alone, and keep the invariant.\<close>

theorem cache_refines:
  assumes "cache_inv cap c"
  shows "fst (Cache_Get now k c) = fst (mru_get now k (mru_at k c)) \<and>
    cache_inv cap (snd (Cache_Get now k c)) \<and> cache_inv cap (Cache_Set now k v c) \<and>
    (\<forall>k'. mru_at k' (snd (Cache_Get now k c)) =
        (if same_shard k' k then snd (mru_get now k (mru_at k c)) else mru_at k' c)) \<and>
    (\<forall>k'. mru_at k' (Cache_Set now k v c) =
        (if same_shard k' k then mru_put cap k \<lparr>e_value = v, e_expiresAt = now + c_ttl c\<rparr> (mru_at k c)
         else mru_at k' c))"
  using Cache_Get_at [OF assms] Cache_Set_at [OF assms] by blast

theorem cache_refines_witness:
  "fst (Cache_Get 5 ''k'' (Cache_Set 3 ''k'' (7 :: nat) (New_cache 2 10))) = Some 7"
  using cache_refines [OF cache_inv_new, of 3 "''k''" 2 10 "7 :: nat"]
    cache_refines [of 2 "Cache_Set 3 ''k'' (7 :: nat) (New_cache 2 10)" 5 "''k''"]
  by (auto simp: same_shard_def mru_get_def mru_put_head New_cache_def)

text \<open>Entries are kept for their lifetime while they are in use: after \<open>Set(k, v)\<close> and fewer
  operations on other keys than the capacity of a shard (any number when the capacity is not
  positive), a lookup of \<open>k\<close> within the lifetime returns \<open>v\<close>, and one after it misses.\<close>

theorem cache_retention:
  assumes "cache_inv cap c" "\<forall>op \<in> set ops. cop_key op \<noteq> k" "0 < cap \<longrightarrow> length ops < nat cap"
  shows "fst (Cache_Get now' k (fold cop_exec ops (Cache_Set now k v c))) =
    (if now' \<le> now + c_ttl c then Some v else None)"
proof -
  let ?e = "\<lparr>e_value = v, e_expiresAt = now + c_ttl c\<rparr>"
  let ?c = "Cache_Set now k v c"
  have at: "mru_at k ?c = mru_put cap k ?e (mru_at k c)"
    using Cache_Set_at(3) [OF assms(1), of k now k v] by (simp add: same_shard_def)
  have "map_of (mru_at k (fold cop_exec ops ?c)) k = Some ?e"
    using cops_other [OF Cache_Set_at(1) [OF assms(1)] assms(2), of now k v ?e] at assms(3)
    by (simp add: mru_put_head)
  then show ?thesis
    using Cache_Get_at(1) [OF cops_inv [OF Cache_Set_at(1) [OF assms(1)]]] by (simp add: mru_get_def)
qed

theorem cache_retention_witness:
  "fst (Cache_Get 9 ''k'' (fold cop_exec [CSet 4 ''a'' (1 :: nat)] (Cache_Set 3 ''k'' 7 (New_cache 2 10)))) = Some 7"
  using cache_retention [OF cache_inv_new, of "[CSet 4 ''a'' (1 :: nat)]" "''k''" 2 9 3 7 10]
  by (simp add: New_cache_def)

text \<open>C20. Concurrent misses load once: when one caller has loaded and stored a key under the shard's
  lock, a caller that missed as well and enters after it - with fewer operations on other keys in
  between than the capacity, and within the lifetime - gets the stored value without calling the
  loader again.\<close>

theorem load_once:
  assumes "cache_inv cap c" "load l = (Inr v, l')" "fst (Cache_load now k load l c) = (Inr v, l')"
    and "\<forall>e. map_of (mru_at k c) k = Some e \<longrightarrow> e_expiresAt e \<le> now"
    and "\<forall>op \<in> set ops. cop_key op \<noteq> k" "0 < cap \<longrightarrow> length ops < nat cap" "now' < now + c_ttl c"
  shows "fst (Cache_load now' k load l' (fold cop_exec ops (snd (Cache_load now k load l c)))) = (Inr v, l')"
proof -
  let ?e = "\<lparr>e_value = v, e_expiresAt = now + c_ttl c\<rparr>"
  let ?c = "Cache_Set now k v c"
  have eq: "snd (Cache_load now k load l c) = ?c"
    by (rule Cache_load_stores [OF assms(1,3,2)]) (use assms(4) in blast)
  have at: "mru_at k ?c = mru_put cap k ?e (mru_at k c)"
    using Cache_Set_at(3) [OF assms(1), of k now k v] by (simp add: same_shard_def)
  have "map_of (mru_at k (fold cop_exec ops ?c)) k = Some ?e"
    using cops_other [OF Cache_Set_at(1) [OF assms(1)] assms(5), of now k v ?e] at assms(6)
    by (simp add: mru_put_head)
  from mru_load [OF cops_inv [OF Cache_Set_at(1) [OF assms(1)]] this, of now' load l'] assms(7) eq
  show ?thesis by simp
qed

theorem load_once_witness:
  "fst (Cache_load 4 ''k'' (\<lambda>n. (Inr (10 * n) :: string + nat, n + 1)) 2
     (snd (Cache_load 3 ''k'' (\<lambda>n. (Inr (10 * n) :: string + nat, n + 1)) 1 (New_cache 2 10)))) = (Inr 10, 2)"
proof -
  let ?load = "\<lambda>n. (Inr (10 * n) :: string + nat, n + 1)"
  let ?c = "New_cache 2 10 :: nat cache"
  have empty: "shard_of ''k'' (c_shards ?c) = new_shard 2"
    using fnv_index_less [of 256 "''k''"] by (simp add: shard_of_def New_cache_def)
  then have m: "mru_at ''k'' ?c = []" by (simp add: mru_at_def mru_of_def new_shard_def)
  have "fst (Cache_load 3 ''k'' ?load 1 ?c) = (Inr 10, 2)"
    using on_shard_result [of "''k''" "lru_load 3 10 ''k'' ?load 1" "c_shards ?c"] empty
    by (cases "on_shard ''k'' (lru_load 3 10 ''k'' ?load 1) (c_shards ?c)")
      (simp add: Cache_load_def lift_shard_def lru_load_def new_shard_def New_cache_def)
  with load_once [OF cache_inv_new, of ?load 1 10 2 3 "''k''" 2 10 "[]" 4] m show ?thesis
    by (simp add: New_cache_def)
qed

end
