(* ===== verification/Breaker.thy ===== *)
theory Breaker
  imports Go_Prelude
begin

text \<open>
  \<open>fintech-gateway-go/internal/breaker\<close>: the circuit breaker with its \<open>int32\<close> counters and
  \<open>int64\<close> clock, an abstract breaker with unbounded counters, and the proof that the first
  implements the second. Each method is one step: the transitions happen under \<open>mu\<close> or in a
  single atomic operation.
\<close>

section \<open>The breaker\<close>

datatype bstate = Closed | Open | HalfOpen

record bconfig =
  FailureThreshold :: int
  OpenDuration :: i64
  HalfOpenSuccessThreshold :: int
  MaxHalfOpenRequests :: int

definition DefaultConfig :: bconfig where
  "DefaultConfig = \<lparr>FailureThreshold = 5, OpenDuration = 10 * 1000000000,
     HalfOpenSuccessThreshold = 2, MaxHalfOpenRequests = 5\<rparr>"

record breaker =
  b_cfg :: bconfig
  b_state :: bstate
  consecutiveFail :: i32
  consecutiveOK :: i32
  halfOpenIssued :: i32
  openedAt :: i64

definition newWithClock :: "bconfig \<Rightarrow> breaker" where
  "newWithClock cfg =
     (let cfg' = (if MaxHalfOpenRequests cfg < HalfOpenSuccessThreshold cfg
                  then cfg\<lparr>MaxHalfOpenRequests := HalfOpenSuccessThreshold cfg\<rparr> else cfg)
      in \<lparr>b_cfg = cfg', b_state = Closed, consecutiveFail = 0, consecutiveOK = 0,
          halfOpenIssued = 0, openedAt = 0\<rparr>)"

text \<open>\<open>int32(x)\<close> of a Go int keeps the low 32 bits.\<close>

definition int32 :: "int \<Rightarrow> i32" where
  "int32 x = word_of_int x"

definition tryTransitionToHalfOpen :: "breaker \<Rightarrow> bool \<times> breaker" where
  "tryTransitionToHalfOpen b =
     (if b_state b \<noteq> Open then (False, b)
      else (True, b\<lparr>consecutiveOK := 0, halfOpenIssued := 1, b_state := HalfOpen\<rparr>))"

definition brk_Allow :: "i64 \<Rightarrow> breaker \<Rightarrow> bool \<times> breaker" where
  "brk_Allow now b =
     (case b_state b of
        Closed \<Rightarrow> (True, b)
      | HalfOpen \<Rightarrow>
          (let i = halfOpenIssued b + 1
           in (sint i \<le> sint (int32 (MaxHalfOpenRequests (b_cfg b))), b\<lparr>halfOpenIssued := i\<rparr>))
      | Open \<Rightarrow>
          if sint now < sint (openedAt b + OpenDuration (b_cfg b)) then (False, b)
          else tryTransitionToHalfOpen b)"

definition trip :: "i64 \<Rightarrow> breaker \<Rightarrow> breaker" where
  "trip now b = b\<lparr>b_state := Open, openedAt := now, consecutiveFail := 0\<rparr>"

definition brk_Success :: "breaker \<Rightarrow> breaker" where
  "brk_Success b =
     (case b_state b of
        Closed \<Rightarrow> b\<lparr>consecutiveFail := 0\<rparr>
      | HalfOpen \<Rightarrow>
          (let k = consecutiveOK b + 1; b' = b\<lparr>consecutiveOK := k\<rparr>
           in if sint k \<ge> sint (int32 (HalfOpenSuccessThreshold (b_cfg b)))
              then b'\<lparr>b_state := Closed, consecutiveFail := 0\<rparr> else b')
      | Open \<Rightarrow> b)"

definition brk_Failure :: "i64 \<Rightarrow> breaker \<Rightarrow> breaker" where
  "brk_Failure now b =
     (case b_state b of
        Closed \<Rightarrow>
          (let k = consecutiveFail b + 1; b' = b\<lparr>consecutiveFail := k\<rparr>
           in if sint k \<ge> sint (int32 (FailureThreshold (b_cfg b))) then trip now b' else b')
      | HalfOpen \<Rightarrow> trip now b
      | Open \<Rightarrow> b)"

text \<open>The calls a gateway makes, each with the clock reading it takes.\<close>

datatype bop = OpAllow i64 | OpSuccess | OpFailure i64

definition brk_exec :: "bop \<Rightarrow> breaker \<Rightarrow> bool option \<times> breaker" where
  "brk_exec op b =
     (case op of
        OpAllow now \<Rightarrow> (case brk_Allow now b of (r, b') \<Rightarrow> (Some r, b'))
      | OpSuccess \<Rightarrow> (None, brk_Success b)
      | OpFailure now \<Rightarrow> (None, brk_Failure now b))"

fun brk_run :: "bop list \<Rightarrow> breaker \<Rightarrow> bool option list \<times> breaker" where
  "brk_run [] b = ([], b)"
| "brk_run (op # ops) b =
     (case brk_exec op b of (r, b1) \<Rightarrow> (case brk_run ops b1 of (rs, b2) \<Rightarrow> (r # rs, b2)))"

section \<open>What a circuit breaker promises\<close>

text \<open>
  Closed with the length of the current failure streak; open since a moment; half-open with the
  number of trial successes and of trial requests issued.
\<close>

datatype bspec = SClosed nat | SOpen int | SHalf nat nat

definition spec_Allow :: "bconfig \<Rightarrow> int \<Rightarrow> bspec \<Rightarrow> bool \<times> bspec" where
  "spec_Allow cfg now s =
     (case s of
        SClosed n \<Rightarrow> (True, s)
      | SOpen t \<Rightarrow> if now < t + sint (OpenDuration cfg) then (False, s) else (True, SHalf 0 1)
      | SHalf k i \<Rightarrow> (int i < MaxHalfOpenRequests cfg, SHalf k (i + 1)))"

definition spec_Success :: "bconfig \<Rightarrow> bspec \<Rightarrow> bspec" where
  "spec_Success cfg s =
     (case s of
        SClosed n \<Rightarrow> SClosed 0
      | SOpen t \<Rightarrow> s
      | SHalf k i \<Rightarrow> if HalfOpenSuccessThreshold cfg \<le> int k + 1 then SClosed 0 else SHalf (k + 1) i)"

definition spec_Failure :: "bconfig \<Rightarrow> int \<Rightarrow> bspec \<Rightarrow> bspec" where
  "spec_Failure cfg now s =
     (case s of
        SClosed n \<Rightarrow> if FailureThreshold cfg \<le> int n + 1 then SOpen now else SClosed (n + 1)
      | SOpen t \<Rightarrow> s
      | SHalf k i \<Rightarrow> SOpen now)"

definition spec_exec :: "bconfig \<Rightarrow> bop \<Rightarrow> bspec \<Rightarrow> bool option \<times> bspec" where
  "spec_exec cfg op s =
     (case op of
        OpAllow now \<Rightarrow> (case spec_Allow cfg (sint now) s of (r, s') \<Rightarrow> (Some r, s'))
      | OpSuccess \<Rightarrow> (None, spec_Success cfg s)
      | OpFailure now \<Rightarrow> (None, spec_Failure cfg (sint now) s))"

fun spec_run :: "bconfig \<Rightarrow> bop list \<Rightarrow> bspec \<Rightarrow> bool option list \<times> bspec" where
  "spec_run cfg [] s = ([], s)"
| "spec_run cfg (op # ops) s =
     (case spec_exec cfg op s of (r, s1) \<Rightarrow> (case spec_run cfg ops s1 of (rs, s2) \<Rightarrow> (r # rs, s2)))"

section \<open>Refinement\<close>

text \<open>The configuration fits 32 bits and no clock reading plus the open duration overflows.\<close>

definition cfg_ok :: "bconfig \<Rightarrow> bool" where
  "cfg_ok cfg \<longleftrightarrow> (\<forall>x \<in> {FailureThreshold cfg, HalfOpenSuccessThreshold cfg, MaxHalfOpenRequests cfg}.
      - (2 ^ 31) \<le> x \<and> x < 2 ^ 31)"

definition clock_ok :: "bconfig \<Rightarrow> i64 \<Rightarrow> bool" where
  "clock_ok cfg now \<longleftrightarrow> - (2 ^ 63) \<le> sint now + sint (OpenDuration cfg) \<and>
     sint now + sint (OpenDuration cfg) < 2 ^ 63"

fun op_ok :: "bconfig \<Rightarrow> bop \<Rightarrow> bool" where
  "op_ok cfg (OpFailure now) \<longleftrightarrow> clock_ok cfg now"
| "op_ok cfg _ \<longleftrightarrow> True"

text \<open>The simulation after \<open>n\<close> steps: no counter can exceed \<open>n\<close>.\<close>

definition sim :: "bconfig \<Rightarrow> nat \<Rightarrow> breaker \<Rightarrow> bspec \<Rightarrow> bool" where
  "sim cfg n b s \<longleftrightarrow> b_cfg b = cfg \<and>
     (case s of
        SClosed f \<Rightarrow> b_state b = Closed \<and> sint (consecutiveFail b) = int f \<and> f \<le> n
      | SOpen t \<Rightarrow> b_state b = Open \<and> sint (openedAt b) = t \<and> clock_ok cfg (openedAt b)
      | SHalf k i \<Rightarrow> b_state b = HalfOpen \<and> sint (consecutiveOK b) = int k \<and>
          sint (halfOpenIssued b) = int i \<and> k \<le> n \<and> i \<le> n + 1)"

lemma sint32_Suc: "0 \<le> sint (x :: i32) \<Longrightarrow> sint x + 1 < 2 ^ 31 \<Longrightarrow> sint (x + 1) = sint x + 1"
  by (simp add: sint_word_add signed_take_bit_int_eq_self)

lemma sint_int32: "- (2 ^ 31) \<le> x \<Longrightarrow> x < 2 ^ 31 \<Longrightarrow> sint (int32 x) = x"
  by (simp add: int32_def sint_sbintrunc' signed_take_bit_int_eq_self)

lemma sim_exec:
  assumes "sim cfg n b s" "cfg_ok cfg" "op_ok cfg op" "n + 2 < 2 ^ 31"
  shows "fst (brk_exec op b) = fst (spec_exec cfg op s) \<and>
    sim cfg (Suc n) (snd (brk_exec op b)) (snd (spec_exec cfg op s))"
proof -
  have c: "sint (int32 (FailureThreshold cfg)) = FailureThreshold cfg"
    "sint (int32 (HalfOpenSuccessThreshold cfg)) = HalfOpenSuccessThreshold cfg"
    "sint (int32 (MaxHalfOpenRequests cfg)) = MaxHalfOpenRequests cfg"
    using assms(2) by (simp_all add: cfg_ok_def sint_int32)
  show ?thesis
  proof (cases s)
    case (SClosed f)
    then have f: "b_cfg b = cfg" "b_state b = Closed" "sint (consecutiveFail b) = int f" "f \<le> n"
      using assms(1) by (simp_all add: sim_def)
    then have "sint (consecutiveFail b + 1) = int f + 1"
      using sint32_Suc [of "consecutiveFail b"] assms(4) by simp
    with SClosed f c assms(3) show ?thesis
      by (cases op) (auto simp: brk_exec_def spec_exec_def brk_Allow_def spec_Allow_def brk_Success_def
          spec_Success_def brk_Failure_def spec_Failure_def trip_def sim_def Let_def)
  next
    case (SOpen t)
    then have f: "b_cfg b = cfg" "b_state b = Open" "sint (openedAt b) = t" "clock_ok cfg (openedAt b)"
      using assms(1) by (simp_all add: sim_def)
    then have "sint (openedAt b + OpenDuration cfg) = t + sint (OpenDuration cfg)"
      using sint64_add [of "openedAt b" "OpenDuration cfg"] by (simp add: clock_ok_def)
    with SOpen f show ?thesis
      by (cases op) (auto simp: brk_exec_def spec_exec_def brk_Allow_def spec_Allow_def brk_Success_def
          spec_Success_def brk_Failure_def spec_Failure_def tryTransitionToHalfOpen_def sim_def)
  next
    case (SHalf k i)
    then have f: "b_cfg b = cfg" "b_state b = HalfOpen" "sint (consecutiveOK b) = int k"
      "sint (halfOpenIssued b) = int i" "k \<le> n" "i \<le> n + 1"
      using assms(1) by (simp_all add: sim_def)
    then have "sint (consecutiveOK b + 1) = int k + 1" "sint (halfOpenIssued b + 1) = int i + 1"
      using sint32_Suc [of "consecutiveOK b"] sint32_Suc [of "halfOpenIssued b"] assms(4) by simp_all
    with SHalf f c assms(3) show ?thesis
      by (cases op) (auto simp: brk_exec_def spec_exec_def brk_Allow_def spec_Allow_def brk_Success_def
          spec_Success_def brk_Failure_def spec_Failure_def trip_def sim_def Let_def)
  qed
qed

lemma sim_run:
  assumes "sim cfg n b s" "cfg_ok cfg" "\<forall>op \<in> set ops. op_ok cfg op" "n + length ops + 1 < 2 ^ 31"
  shows "fst (brk_run ops b) = fst (spec_run cfg ops s) \<and>
    sim cfg (n + length ops) (snd (brk_run ops b)) (snd (spec_run cfg ops s))"
  using assms
proof (induction ops arbitrary: n b s)
  case (Cons op ops)
  obtain r b1 where b1: "brk_exec op b = (r, b1)" by fastforce
  obtain r' s1 where s1: "spec_exec cfg op s = (r', s1)" by fastforce
  have step: "r = r'" "sim cfg (Suc n) b1 s1"
    using sim_exec [OF Cons.prems(1,2), of op] Cons.prems(3,4) b1 s1 by auto
  from Cons.IH [OF step(2) Cons.prems(2)] Cons.prems(3,4) have
    "fst (brk_run ops b1) = fst (spec_run cfg ops s1)"
    "sim cfg (Suc n + length ops) (snd (brk_run ops b1)) (snd (spec_run cfg ops s1))" by auto
  with b1 s1 step(1) show ?case by (auto split: prod.splits)
qed simp

lemma sim_new: "cfg = b_cfg (newWithClock cfg0) \<Longrightarrow> sim cfg 0 (newWithClock cfg0) (SClosed 0)"
  by (simp add: newWithClock_def sim_def Let_def)

lemma spec_run_append:
  "spec_run cfg (xs @ ys) s = (case spec_run cfg xs s of (rs, s1) \<Rightarrow>
     (case spec_run cfg ys s1 of (rs', s2) \<Rightarrow> (rs @ rs', s2)))"
  by (induction xs arbitrary: s) (auto split: prod.splits)

lemma brk_run_append:
  "brk_run (xs @ ys) b = (case brk_run xs b of (rs, b1) \<Rightarrow>
     (case brk_run ys b1 of (rs', b2) \<Rightarrow> (rs @ rs', b2)))"
  by (induction xs arbitrary: b) (auto split: prod.splits)

section \<open>Behaviour of the abstract breaker\<close>

lemma spec_failures_open:
  "spec_run cfg (map OpFailure ts) (SOpen t) = (replicate (length ts) None, SOpen t)"
  by (induction ts) (simp_all add: spec_exec_def spec_Failure_def)

text \<open>A streak of failures as long as the threshold opens it, at the time of one of them.\<close>

lemma spec_failures:
  assumes "ts \<noteq> []" "FailureThreshold cfg \<le> int (length ts) + (case s of SClosed n \<Rightarrow> int n | _ \<Rightarrow> 0)"
    "\<And>t. s \<noteq> SOpen t"
  shows "\<exists>t \<in> set ts. snd (spec_run cfg (map OpFailure ts) s) = SOpen (sint t)"
  using assms
proof (induction ts arbitrary: s)
  case (Cons t ts)
  show ?case
  proof (cases s)
    case (SClosed n)
    show ?thesis
    proof (cases "FailureThreshold cfg \<le> int n + 1")
      case True
      with SClosed spec_failures_open [of cfg ts "sint t"] show ?thesis
        by (auto simp: spec_exec_def spec_Failure_def split: prod.splits)
    next
      case False
      with SClosed Cons.prems have "ts \<noteq> []" by auto
      with Cons.IH [of "SClosed (n + 1)"] Cons.prems False SClosed show ?thesis
        by (auto simp: spec_exec_def spec_Failure_def split: prod.splits)
    qed
  next
    case (SHalf k i)
    with spec_failures_open [of cfg ts "sint t"] show ?thesis
      by (auto simp: spec_exec_def spec_Failure_def split: prod.splits)
  qed (use Cons.prems in auto)
qed simp

fun grants :: "bool option list \<Rightarrow> nat" where
  "grants [] = 0"
| "grants (r # rs) = (if r = Some True then 1 else 0) + grants rs"

fun successes :: "bop list \<Rightarrow> nat" where
  "successes [] = 0"
| "successes (op # ops) = (if op = OpSuccess then 1 else 0) + successes ops"

fun no_failure :: "bop \<Rightarrow> bool" where
  "no_failure (OpFailure _) = False"
| "no_failure _ = True"

lemma no_failure_ok: "no_failure op \<Longrightarrow> op_ok cfg op"
  by (cases op) auto

text \<open>Trial requests are capped as long as the half-open period lasts.\<close>

lemma spec_half_cap:
  assumes "list_all no_failure ops" "int (k + successes ops) < HalfOpenSuccessThreshold cfg"
  shows "int (grants (fst (spec_run cfg ops (SHalf k i)))) \<le> max 0 (MaxHalfOpenRequests cfg - int i)"
  using assms
proof (induction ops arbitrary: k i)
  case (Cons op ops)
  show ?case
  proof (cases op)
    case (OpAllow now)
    with Cons.IH [of k "Suc i"] Cons.prems show ?thesis
      by (auto simp: spec_exec_def spec_Allow_def split: prod.splits)
  next
    case OpSuccess
    with Cons.IH [of "Suc k" i] Cons.prems show ?thesis
      by (auto simp: spec_exec_def spec_Success_def split: prod.splits)
  qed (use Cons.prems in simp)
qed simp

text \<open>Enough successful trials close it again.\<close>

lemma spec_half_recovers:
  assumes "int (k + m) = HalfOpenSuccessThreshold cfg" "0 < m" "int i + int m \<le> MaxHalfOpenRequests cfg + 1"
    "i = k + 1"
  shows "spec_run cfg (OpSuccess # concat (replicate (m - 1) [OpAllow now, OpSuccess])) (SHalf k i) =
    (None # concat (replicate (m - 1) [Some True, None]), SClosed 0)"
  using assms
proof (induction m arbitrary: k i)
  case (Suc m)
  show ?case
  proof (cases m)
    case 0
    with Suc.prems show ?thesis by (simp add: spec_exec_def spec_Success_def)
  next
    case (Suc l)
    have "spec_run cfg (OpSuccess # concat (replicate (m - 1) [OpAllow now, OpSuccess])) (SHalf (k + 1) (i + 1)) =
        (None # concat (replicate (m - 1) [Some True, None]), SClosed 0)"
      by (rule Suc.IH) (use Suc.prems \<open>m = Suc l\<close> in auto)
    with Suc.prems \<open>m = Suc l\<close> show ?thesis
      by (simp add: spec_exec_def spec_Success_def spec_Allow_def split: prod.splits)
  qed
qed simp

section \<open>Properties\<close>

lemma brk_reachable:
  assumes "cfg = b_cfg (newWithClock cfg0)" "cfg_ok cfg" "\<forall>op \<in> set ops. op_ok cfg op"
    "length ops + 1 < 2 ^ 31" "b = snd (brk_run ops (newWithClock cfg0))"
  obtains s where "sim cfg (length ops) b s"
  using sim_run [OF sim_new [OF assms(1)] assms(2,3)] assms(4,5) by auto

text \<open>C14. The breaker implements its specification: on every sequence of fewer than \<open>2^31\<close> calls
  the answers of \<open>Allow\<close> are those of the abstract breaker with unbounded counters and exact time,
  so the 32-bit counters and the 64-bit clock arithmetic never show.\<close>

theorem breaker_refines:
  assumes "cfg = b_cfg (newWithClock cfg0)" "cfg_ok cfg" "\<forall>op \<in> set ops. op_ok cfg op"
    "length ops + 1 < 2 ^ 31"
  shows "fst (brk_run ops (newWithClock cfg0)) = fst (spec_run cfg ops (SClosed 0))"
  using sim_run [OF sim_new [OF assms(1)] assms(2,3)] assms(4) by simp

definition demo_bops :: "bop list" where
  "demo_bops = map OpFailure [1, 2, 3, 4, 5] @ [OpAllow 6, OpAllow 20000000000]"

lemma default_new: "b_cfg (newWithClock DefaultConfig) = DefaultConfig"
  by (simp add: newWithClock_def DefaultConfig_def)

lemma default_ok: "cfg_ok DefaultConfig"
  by (simp add: cfg_ok_def DefaultConfig_def)

lemma demo_ops_ok: "\<forall>op \<in> set demo_bops. op_ok DefaultConfig op"
  by (simp add: demo_bops_def clock_ok_def DefaultConfig_def)

theorem breaker_refines_witness:
  "fst (brk_run demo_bops (newWithClock DefaultConfig)) =
     [None, None, None, None, None, Some False, Some True]"
  using breaker_refines [OF default_new [symmetric] default_ok demo_ops_ok]
  by (simp add: demo_bops_def spec_exec_def spec_Failure_def spec_Allow_def DefaultConfig_def)

text \<open>C15. The breaker fails fast: from any reachable state that is not open, as many consecutive
  failures as the threshold open it, and every \<open>Allow\<close> is then refused until the open duration has
  passed since the tripping failure; after that one trial is let through, and the trials are
  capped at \<open>MaxHalfOpenRequests\<close> as long as the half-open period lasts.\<close>

theorem breaker_fails_fast:
  assumes "cfg = b_cfg (newWithClock cfg0)" "cfg_ok cfg" "\<forall>op \<in> set ops. op_ok cfg op"
    and "b = snd (brk_run ops (newWithClock cfg0))" "b_state b \<noteq> Open"
    and "ts \<noteq> []" "FailureThreshold cfg \<le> int (length ts)" "\<forall>t \<in> set ts. clock_ok cfg t"
    and "length ops + length ts + length trials + 4 < 2 ^ 31"
    and "b1 = snd (brk_run (map OpFailure ts) b)"
  shows "\<exists>t \<in> set ts.
    (\<forall>now. sint now < sint t + sint (OpenDuration cfg) \<longrightarrow> brk_Allow now b1 = (False, b1)) \<and>
    (\<forall>now. sint t + sint (OpenDuration cfg) \<le> sint now \<longrightarrow>
       fst (brk_Allow now b1) \<and>
       (list_all no_failure trials \<longrightarrow> int (successes trials) < HalfOpenSuccessThreshold cfg \<longrightarrow>
          int (grants (fst (brk_run (OpAllow now # trials) b1))) \<le> max 1 (MaxHalfOpenRequests cfg)))"
proof -
  obtain s where s: "sim cfg (length ops) b s"
    using brk_reachable [OF assms(1-3) _ assms(4)] assms(9) by auto
  have fails: "\<forall>op \<in> set (map OpFailure ts). op_ok cfg op" using assms(8) by auto
  have "\<And>t. s \<noteq> SOpen t" using s assms(5) by (auto simp: sim_def)
  moreover have "FailureThreshold cfg \<le> int (length ts) + (case s of SClosed n \<Rightarrow> int n | _ \<Rightarrow> 0)"
    using assms(7) by (cases s) auto
  ultimately obtain t where t: "t \<in> set ts" "snd (spec_run cfg (map OpFailure ts) s) = SOpen (sint t)"
    using spec_failures [OF assms(6)] by blast
  let ?n = "length ops + length ts"
  have sim1: "sim cfg ?n b1 (SOpen (sint t))"
    using sim_run [OF s assms(2) fails] assms(9,10) t(2) by simp
  have early: "brk_Allow now b1 = (False, b1)" if "sint now < sint t + sint (OpenDuration cfg)" for now
    using sim1 that sint64_add [of "openedAt b1" "OpenDuration cfg"]
    by (auto simp: sim_def brk_Allow_def clock_ok_def)
  have late: "fst (brk_Allow now b1)" if "sint t + sint (OpenDuration cfg) \<le> sint now" for now
    using sim1 that sint64_add [of "openedAt b1" "OpenDuration cfg"]
    by (auto simp: sim_def brk_Allow_def clock_ok_def tryTransitionToHalfOpen_def)
  have cap: "int (grants (fst (brk_run (OpAllow now # trials) b1))) \<le> max 1 (MaxHalfOpenRequests cfg)"
    if "sint t + sint (OpenDuration cfg) \<le> sint now" "list_all no_failure trials"
      "int (successes trials) < HalfOpenSuccessThreshold cfg" for now
  proof -
    have "\<forall>op \<in> set (OpAllow now # trials). op_ok cfg op"
      using that(2) by (auto simp: list_all_iff no_failure_ok)
    then have "fst (brk_run (OpAllow now # trials) b1) = fst (spec_run cfg (OpAllow now # trials) (SOpen (sint t)))"
      using sim_run [OF sim1 assms(2), of "OpAllow now # trials"] assms(9)
      by (simp del: brk_run.simps spec_run.simps)
    also have "\<dots> = Some True # fst (spec_run cfg trials (SHalf 0 1))"
      using that(1) by (simp add: spec_exec_def spec_Allow_def split: prod.splits)
    finally show ?thesis using spec_half_cap [OF that(2), of 0 cfg 1] that(3) by auto
  qed
  show ?thesis using t(1) early late cap by blast
qed

theorem breaker_fails_fast_witness:
  "brk_Allow 6 (snd (brk_run (map OpFailure [1, 2, 3, 4, 5]) (newWithClock DefaultConfig))) =
     (False, snd (brk_run (map OpFailure [1, 2, 3, 4, 5]) (newWithClock DefaultConfig)))"
proof -
  have "\<exists>t \<in> set [1, 2, 3, 4, 5 :: i64]. \<forall>now. sint now < sint t + sint (OpenDuration DefaultConfig) \<longrightarrow>
      brk_Allow now (snd (brk_run (map OpFailure [1, 2, 3, 4, 5]) (newWithClock DefaultConfig))) =
        (False, snd (brk_run (map OpFailure [1, 2, 3, 4, 5]) (newWithClock DefaultConfig)))"
    using breaker_fails_fast [OF default_new [symmetric] default_ok, of "[]" "newWithClock DefaultConfig"
        "[1, 2, 3, 4, 5]" "[]", OF _ _ _ _ _ _ _ refl]
    by (auto simp: newWithClock_def DefaultConfig_def clock_ok_def)
  then obtain t where t: "t \<in> set [1, 2, 3, 4, 5 :: i64]" and
    r: "\<And>now. sint now < sint t + sint (OpenDuration DefaultConfig) \<Longrightarrow>
      brk_Allow now (snd (brk_run (map OpFailure [1, 2, 3, 4, 5]) (newWithClock DefaultConfig))) =
        (False, snd (brk_run (map OpFailure [1, 2, 3, 4, 5]) (newWithClock DefaultConfig)))"
    by blast
  from t show ?thesis by (intro r) (auto simp: DefaultConfig_def)
qed

text \<open>C16. Recovery: when the open duration has passed and every trial request succeeds, the breaker
  closes after exactly \<open>HalfOpenSuccessThreshold\<close> trials, all of them let through; the adjustment of
  \<open>MaxHalfOpenRequests\<close> in the constructor is what makes this always possible.\<close>

theorem breaker_recovers:
  assumes "cfg = b_cfg (newWithClock cfg0)" "cfg_ok cfg" "\<forall>op \<in> set ops. op_ok cfg op"
    and "b = snd (brk_run ops (newWithClock cfg0))" "b_state b = Open"
    and "sint (openedAt b) + sint (OpenDuration cfg) \<le> sint now"
    and "m = nat (HalfOpenSuccessThreshold cfg)" "0 < m" "length ops + 2 * m + 2 < 2 ^ 31"
  shows "fst (brk_run (concat (replicate m [OpAllow now, OpSuccess])) b) = concat (replicate m [Some True, None]) \<and>
    b_state (snd (brk_run (concat (replicate m [OpAllow now, OpSuccess])) b)) = Closed"
proof -
  obtain s where s: "sim cfg (length ops) b s"
    using brk_reachable [OF assms(1-3) _ assms(4)] assms(9) by auto
  let ?ops = "concat (replicate m [OpAllow now, OpSuccess])"
  have so: "s = SOpen (sint (openedAt b))"
    using s assms(5) by (cases s) (auto simp: sim_def)
  obtain l where m: "m = Suc l" using assms(8) by (cases m) auto
  have max: "HalfOpenSuccessThreshold cfg \<le> MaxHalfOpenRequests cfg"
    using assms(1) by (auto simp: newWithClock_def Let_def)
  have "spec_run cfg (OpSuccess # concat (replicate (m - 1) [OpAllow now, OpSuccess])) (SHalf 0 1) =
      (None # concat (replicate (m - 1) [Some True, None]), SClosed 0)"
    by (rule spec_half_recovers) (use assms(7,8) max in auto)
  then have spec: "spec_run cfg ?ops s = (concat (replicate m [Some True, None]), SClosed 0)"
    using assms(6) m by (simp add: so spec_exec_def spec_Allow_def split: prod.splits)
  have "length ?ops = 2 * m" by (simp add: length_concat sum_list_replicate)
  moreover have "\<forall>op \<in> set ?ops. op_ok cfg op" by auto
  ultimately show ?thesis
    using sim_run [OF s assms(2), of ?ops] assms(9) spec by (auto simp: sim_def)
qed

lemma demo_tripped:
  "snd (brk_run (map OpFailure [1, 2, 3, 4, 5]) (newWithClock DefaultConfig)) =
     (newWithClock DefaultConfig)\<lparr>b_state := Open, openedAt := 5\<rparr>"
  by (simp add: brk_exec_def brk_Failure_def newWithClock_def DefaultConfig_def trip_def int32_def Let_def)

theorem breaker_recovers_witness:
  "b_state (snd (brk_run [OpAllow 20000000000, OpSuccess, OpAllow 20000000000, OpSuccess]
     (snd (brk_run (map OpFailure [1, 2, 3, 4, 5]) (newWithClock DefaultConfig))))) = Closed"
proof -
  have two: "concat (replicate 2 [OpAllow 20000000000, OpSuccess]) =
      [OpAllow 20000000000, OpSuccess, OpAllow 20000000000, OpSuccess]"
    by (simp add: numeral_2_eq_2)
  let ?ops = "map OpFailure [1, 2, 3, 4, 5]"
  let ?b = "snd (brk_run ?ops (newWithClock DefaultConfig))"
  have p: "\<forall>op \<in> set ?ops. op_ok DefaultConfig op" "b_state ?b = Open"
    "sint (openedAt ?b) + sint (OpenDuration DefaultConfig) \<le> sint (20000000000 :: i64)"
    "2 = nat (HalfOpenSuccessThreshold DefaultConfig)" "length ?ops + 2 * 2 + 2 < 2 ^ 31"
    unfolding demo_tripped by (simp_all add: clock_ok_def DefaultConfig_def)
  show ?thesis
    using breaker_recovers [OF default_new [symmetric] default_ok p(1) refl p(2,3,4) _ p(5)]
    unfolding two by (rule conjunct2) simp
qed

end
