(* ===== verification/Gateway.thy ===== *)
theory Gateway
  imports Edge Balancer Lru_Cache Breaker
begin

text \<open>
  \<open>fintech-gateway-go/internal/gateway\<close>: the pipeline that composes the other packages. A request
  passes the WAF, the router, the rate limiter and, where the route asks for it, authentication;
  then it is answered from the cache or proxied with retries under the circuit breakers. A request
  is handled as one step; the reverse proxy with the network behind it, the clocks, the random
  source and the buffer pool's choices are arguments (\<open>genv\<close>). A route refers to its pool by
  position, since two routes may share a pool.
\<close>

section \<open>The environment\<close>

record 'w genv =
  ev_rnd :: "nat \<Rightarrow> int \<Rightarrow> int"
  ev_clk :: "nat \<Rightarrow> i64"
  ev_now :: "nat \<Rightarrow> instant"
  ev_sel :: "nat \<Rightarrow> nat option"
  ev_grow :: "int \<Rightarrow> int \<Rightarrow> int"
  ev_proxy :: "string \<Rightarrow> request \<Rightarrow> 'w \<Rightarrow> wcall list \<times> 'w"
  ev_jwt :: jwt_env

section \<open>Fetching from a backend\<close>

datatype ferr = FPick lb_err | FOpen | FStatus string int | FNone

record 'w fstate =
  f_pool :: pool
  f_breakers :: "string \<rightharpoonup> breaker"
  f_bufs :: "buffer list"
  f_world :: 'w

definition maxProxyAttempts :: nat where "maxProxyAttempts = 3"

text \<open>One proxied attempt at backend \<open>b\<close>: \<open>newResponseRecorder\<close> and the reverse proxy.\<close>

definition proxy_attempt :: "'w genv \<Rightarrow> request \<Rightarrow> nat \<Rightarrow> backend \<Rightarrow> 'w fstate \<Rightarrow> recorder \<times> 'w fstate" where
  "proxy_attempt env r attempt b st =
     (case buf_Get (ev_sel env attempt) (f_bufs st) of (buf, bufs) \<Rightarrow>
      (case ev_proxy env (bk_Address b) r (f_world st) of (cs, w) \<Rightarrow>
         (record_calls (ev_grow env) cs buf, st\<lparr>f_bufs := bufs, f_world := w\<rparr>)))"

text \<open>The loop with \<open>n\<close> attempts left; attempt numbers count from 0.\<close>

fun fetch_loop ::
  "'w genv \<Rightarrow> request \<Rightarrow> string \<Rightarrow> nat \<Rightarrow> ferr option \<Rightarrow> 'w fstate \<Rightarrow> ((ferr + recorder) \<times> 'w fstate) go" where
  "fetch_loop env r key 0 lastErr st =
     Ret (Inl (case lastErr of None \<Rightarrow> FNone | Some e \<Rightarrow> e), st)"
| "fetch_loop env r key (Suc n) lastErr st =
     (let attempt = maxProxyAttempts - Suc n in
      case Pick key (ev_rnd env attempt) (f_pool st) of
        Panic \<Rightarrow> Panic
      | Ret (Inl e, p) \<Rightarrow> Ret (Inl (FPick e), st\<lparr>f_pool := p\<rparr>)
      | Ret (Inr i, p) \<Rightarrow>
         (let b = p_backends p ! i in
          case f_breakers st (bk_ID b) of
            None \<Rightarrow> Panic
          | Some br \<Rightarrow>
             (case brk_Allow (ev_clk env (2 * attempt)) br of (allowed, br1) \<Rightarrow>
              let st1 = st\<lparr>f_pool := p, f_breakers := (f_breakers st)(bk_ID b \<mapsto> br1)\<rparr> in
              if \<not> allowed then fetch_loop env r key n (Some FOpen) (st1\<lparr>f_pool := Release i p\<rparr>)
              else
                (case proxy_attempt env r attempt b st1 of (rec, st') \<Rightarrow>
                   let st2 = st'\<lparr>f_pool := Release i p\<rparr> in
                   if rc_status rec < 500
                   then Ret (Inr rec, st2\<lparr>f_breakers := (f_breakers st2)(bk_ID b \<mapsto> brk_Success br1)\<rparr>)
                   else
                     let st3 = st2\<lparr>f_breakers := (f_breakers st2)(bk_ID b \<mapsto> brk_Failure (ev_clk env (2 * attempt + 1)) br1)\<rparr>
                     in if n \<noteq> 0
                        then fetch_loop env r key n (Some (FStatus (bk_ID b) (rc_status rec)))
                               (st3\<lparr>f_bufs := rec_release rec (f_bufs st3)\<rparr>)
                        else Ret (Inr rec, st3)))))"

definition fetch ::
  "'w genv \<Rightarrow> request \<Rightarrow> string \<Rightarrow> 'w fstate \<Rightarrow> ((ferr + recorder) \<times> 'w fstate) go" where
  "fetch env r key st = fetch_loop env r key maxProxyAttempts None st"

section \<open>Routes\<close>

record route =
  rt_PathPrefix :: string
  rt_Pool :: "nat option"
  rt_Cacheable :: bool
  rt_RequireAuth :: bool

record compiledRoute = route +
  cr_breakers :: "string \<rightharpoonup> breaker"

record gw_config =
  gc_Routes :: "route list"
  gc_RateLimiter :: "limiter option"
  gc_Verifier :: "verifier option"
  gc_Cache :: "response cache option"
  gc_WAFConfig :: waf_config
  gc_BreakerConfig :: bconfig
  gc_ClientKey :: "(request \<Rightarrow> string) option"

record 'w gateway =
  g_routes :: "compiledRoute list"
  g_pools :: "pool list"
  g_limiter :: "limiter option"
  g_verifier :: "verifier option"
  g_cache :: "response cache option"
  g_wafCfg :: waf_config
  g_clientKey :: "request \<Rightarrow> string"
  g_bufs :: "buffer list"
  g_world :: 'w

text \<open>\<open>net.SplitHostPort\<close>, of which the host is used.\<close>

definition split_host :: "string \<Rightarrow> string option" where
  "split_host s =
     (case last_index (CHR '':'') s of
        None \<Rightarrow> None
      | Some i \<Rightarrow>
          if s \<noteq> [] \<and> hd s = CHR ''[''
          then (case index_of (CHR '']'') s of
              None \<Rightarrow> None
            | Some e \<Rightarrow>
                if Suc e \<noteq> i \<or> CHR ''['' \<in> set (drop 1 s) \<or> CHR '']'' \<in> set (drop (Suc e) s) then None
                else Some (drop 1 (take e s)))
          else
            let host = take i s in
            if CHR '':'' \<in> set host \<or> CHR ''['' \<in> set s \<or> CHR '']'' \<in> set s then None else Some host)"

definition defaultClientKey :: "request \<Rightarrow> string" where
  "defaultClientKey r = (case split_host (rq_remote r) of None \<Rightarrow> rq_remote r | Some host \<Rightarrow> host)"

datatype gw_err = NoPool string | NoVerifier string | NoCache string

definition compile_route :: "gw_config \<Rightarrow> pool list \<Rightarrow> route \<Rightarrow> gw_err + compiledRoute" where
  "compile_route cfg pools rt =
     (case rt_Pool rt of
        None \<Rightarrow> Inl (NoPool (rt_PathPrefix rt))
      | Some p \<Rightarrow>
          if rt_RequireAuth rt \<and> gc_Verifier cfg = None then Inl (NoVerifier (rt_PathPrefix rt))
          else if rt_Cacheable rt \<and> gc_Cache cfg = None then Inl (NoCache (rt_PathPrefix rt))
          else Inr (route.extend rt
             \<lparr>cr_breakers = fold (\<lambda>b m. m(bk_ID b \<mapsto> newWithClock (gc_BreakerConfig cfg)))
                (p_backends (pools ! p)) Map.empty\<rparr>))"

fun compile_routes :: "gw_config \<Rightarrow> pool list \<Rightarrow> route list \<Rightarrow> gw_err + compiledRoute list" where
  "compile_routes cfg pools [] = Inr []"
| "compile_routes cfg pools (rt # rts) =
     (case compile_route cfg pools rt of
        Inl e \<Rightarrow> Inl e
      | Inr cr \<Rightarrow> (case compile_routes cfg pools rts of Inl e \<Rightarrow> Inl e | Inr crs \<Rightarrow> Inr (cr # crs)))"

definition New_gateway :: "gw_config \<Rightarrow> pool list \<Rightarrow> 'w \<Rightarrow> gw_err + 'w gateway" where
  "New_gateway cfg pools w =
     (case compile_routes cfg pools (gc_Routes cfg) of
        Inl e \<Rightarrow> Inl e
      | Inr crs \<Rightarrow> Inr \<lparr>g_routes = crs, g_pools = pools, g_limiter = gc_RateLimiter cfg,
          g_verifier = gc_Verifier cfg, g_cache = gc_Cache cfg, g_wafCfg = gc_WAFConfig cfg,
          g_clientKey = (case gc_ClientKey cfg of None \<Rightarrow> defaultClientKey | Some f \<Rightarrow> f),
          g_bufs = [], g_world = w\<rparr>)"

text \<open>\<open>matchRoute\<close>: the longest matching prefix, the first of equal length.\<close>

definition match_step :: "string \<Rightarrow> compiledRoute list \<Rightarrow> nat option \<times> int \<Rightarrow> nat \<Rightarrow> nat option \<times> int" where
  "match_step path routes s i =
     (case s of (best, bestLen) \<Rightarrow>
        if has_prefix path (rt_PathPrefix (routes ! i)) \<and> int (length (rt_PathPrefix (routes ! i))) > bestLen
        then (Some i, int (length (rt_PathPrefix (routes ! i)))) else (best, bestLen))"

definition matchRoute :: "'w gateway \<Rightarrow> string \<Rightarrow> nat option" where
  "matchRoute g path = fst (foldl (match_step path (g_routes g)) (None, - 1) [0..<length (g_routes g)])"

section \<open>Handlers\<close>

definition fetch_view :: "nat \<Rightarrow> 'w gateway \<Rightarrow> 'w fstate" where
  "fetch_view ri g =
     \<lparr>f_pool = g_pools g ! the (rt_Pool (g_routes g ! ri)), f_breakers = cr_breakers (g_routes g ! ri),
      f_bufs = g_bufs g, f_world = g_world g\<rparr>"

definition fetch_put :: "nat \<Rightarrow> 'w fstate \<Rightarrow> 'w gateway \<Rightarrow> 'w gateway" where
  "fetch_put ri st g =
     g\<lparr>g_pools := (g_pools g)[the (rt_Pool (g_routes g ! ri)) := f_pool st],
       g_routes := (g_routes g)[ri := (g_routes g ! ri)\<lparr>cr_breakers := f_breakers st\<rparr>],
       g_bufs := f_bufs st, g_world := f_world st\<rparr>"

definition writeResponse :: "int \<Rightarrow> http_header \<Rightarrow> string \<Rightarrow> response" where
  "writeResponse status h body = server_write status (header_copy h) body"

definition proxyDirect :: "'w genv \<Rightarrow> nat \<Rightarrow> string \<Rightarrow> request \<Rightarrow> 'w gateway \<Rightarrow> (response \<times> 'w gateway) go" where
  "proxyDirect env ri key r g =
     (case fetch env r key (fetch_view ri g) of
        Panic \<Rightarrow> Panic
      | Ret (Inl e, st) \<Rightarrow> Ret (http_Error ''bad gateway'' 502, fetch_put ri st g)
      | Ret (Inr rec, st) \<Rightarrow>
          Ret (writeResponse (rc_status rec) (rc_header rec) (bf_data (rc_body rec)),
               fetch_put ri (st\<lparr>f_bufs := rec_release rec (f_bufs st)\<rparr>) g))"

text \<open>The loader handed to \<open>GetOrLoad\<close>; \<open>None\<close> stands for a panic inside it.\<close>

definition load_response ::
  "'w genv \<Rightarrow> request \<Rightarrow> string \<Rightarrow> 'w fstate \<Rightarrow> (ferr option + response) \<times> 'w fstate" where
  "load_response env r key st =
     (case fetch env r key st of
        Panic \<Rightarrow> (Inl None, st)
      | Ret (Inl e, st') \<Rightarrow> (Inl (Some e), st')
      | Ret (Inr rec, st') \<Rightarrow>
          (let st'' = st'\<lparr>f_bufs := rec_release rec (f_bufs st')\<rparr> in
           if rc_status rec \<ge> 500 then (Inl (Some (FStatus [] (rc_status rec))), st'')
           else (Inr \<lparr>rs_status = rc_status rec, rs_header = rc_header rec, rs_body = bf_data (rc_body rec)\<rparr>, st'')))"

definition cacheKey :: "request \<Rightarrow> string" where
  "cacheKey r = rq_url r"

definition serveCacheable :: "'w genv \<Rightarrow> nat \<Rightarrow> string \<Rightarrow> request \<Rightarrow> 'w gateway \<Rightarrow> (response \<times> 'w gateway) go" where
  "serveCacheable env ri key r g =
     (case g_cache g of
        None \<Rightarrow> Panic
      | Some c \<Rightarrow>
         (case GetOrLoad (ev_now env 2) (ev_now env 3) (cacheKey r) (load_response env r key) (fetch_view ri g) c of
            ((Inl None, st), c') \<Rightarrow> Panic
          | ((Inl (Some e), st), c') \<Rightarrow> Ret (http_Error ''bad gateway'' 502, (fetch_put ri st g)\<lparr>g_cache := Some c'\<rparr>)
          | ((Inr resp, st), c') \<Rightarrow>
              Ret (writeResponse (rs_status resp) (rs_header resp) (rs_body resp), (fetch_put ri st g)\<lparr>g_cache := Some c'\<rparr>)))"

definition route_handler :: "'w genv \<Rightarrow> nat \<Rightarrow> request \<Rightarrow> 'w gateway \<Rightarrow> (response \<times> 'w gateway) go" where
  "route_handler env ri r g =
     (let key = g_clientKey g r in
      if rq_method r = ''GET'' \<and> rt_Cacheable (g_routes g ! ri) then serveCacheable env ri key r g
      else proxyDirect env ri key r g)"

text \<open>The handler \<open>New\<close> built for a route.\<close>

definition full_route_handler :: "'w genv \<Rightarrow> nat \<Rightarrow> request \<Rightarrow> 'w gateway \<Rightarrow> (response \<times> 'w gateway) go" where
  "full_route_handler env ri r g =
     (if rt_RequireAuth (g_routes g ! ri)
      then (case g_verifier g of
          None \<Rightarrow> Panic
        | Some v \<Rightarrow> auth_Middleware (ev_jwt env) (ev_now env 1) v (\<lambda>c. route_handler env ri) r g)
      else route_handler env ri r g)"

definition serveHTTP :: "'w genv \<Rightarrow> request \<Rightarrow> 'w gateway \<Rightarrow> (response \<times> 'w gateway) go" where
  "serveHTTP env r g =
     (case matchRoute g (rq_path r) of
        None \<Rightarrow> Ret (http_NotFound, g)
      | Some ri \<Rightarrow>
         (case g_limiter g of
            None \<Rightarrow> full_route_handler env ri r g
          | Some l \<Rightarrow>
             (case lim_Allow (ev_now env 0) (g_clientKey g r) l of (allowed, l') \<Rightarrow>
                if \<not> allowed then Ret (http_Error ''rate limit exceeded'' 429, g\<lparr>g_limiter := Some l'\<rparr>)
                else full_route_handler env ri r (g\<lparr>g_limiter := Some l'\<rparr>))))"

definition Handler :: "'w genv \<Rightarrow> request \<Rightarrow> 'w gateway \<Rightarrow> (response \<times> 'w gateway) go" where
  "Handler env r g = waf_Middleware (g_wafCfg g) (serveHTTP env) r g"

section \<open>Attempts\<close>

text \<open>The replies of backends asked one after the other, and the world after them.\<close>

fun replies :: "'w genv \<Rightarrow> request \<Rightarrow> string list \<Rightarrow> 'w \<Rightarrow> wcall list list \<times> 'w" where
  "replies env r [] w = ([], w)"
| "replies env r (a # as) w =
     (case ev_proxy env a r w of (cs, w1) \<Rightarrow> (case replies env r as w1 of (rs, w2) \<Rightarrow> (cs # rs, w2)))"

text \<open>A state from which \<open>k\<close> attempts can be made.\<close>

definition fetch_ok :: "'w genv \<Rightarrow> nat \<Rightarrow> 'w fstate \<Rightarrow> bool" where
  "fetch_ok env k st \<longleftrightarrow>
     p_backends (f_pool st) \<noteq> [] \<and> (\<forall>n. wr_ok (p_backends (f_pool st)) (ev_rnd env n)) \<and>
     (p_strategy (f_pool st) = ConsistentHash \<longrightarrow> is_ring (p_backends (f_pool st)) (p_ring (f_pool st))) \<and>
     0 \<le> sint (p_rrCounter (f_pool st)) \<and> sint (p_rrCounter (f_pool st)) + int k < 2 ^ 63 \<and>
     (\<forall>b \<in> set (p_backends (f_pool st)). f_breakers st (bk_ID b) \<noteq> None) \<and> clean_bufs (f_bufs st)"

lemma fetch_ok_pool: "fetch_ok env (Suc k) st \<Longrightarrow> pool_ok (ev_rnd env n) (f_pool st)"
  by (simp add: fetch_ok_def pool_ok_def)

lemma counted_room:
  assumes "fetch_ok env (Suc k) st"
  shows "0 \<le> sint (p_rrCounter (counted (f_pool st)))" "sint (p_rrCounter (counted (f_pool st))) + int k < 2 ^ 63"
  using assms sint64_add [of "p_rrCounter (f_pool st)" 1] by (auto simp: fetch_ok_def counted_def)

text \<open>After an attempt the pool has its backends back, and one attempt less is possible.\<close>

lemma fetch_ok_step:
  assumes "fetch_ok env (Suc k) st" "i < length (p_backends (f_pool st))" "clean_bufs bufs"
  shows "fetch_ok env k \<lparr>f_pool = Release i (add_conns i 1 (counted (f_pool st))),
      f_breakers = (f_breakers st)(x \<mapsto> br), f_bufs = bufs, f_world = w\<rparr>"
    and "p_backends (Release i (add_conns i 1 (counted (f_pool st)))) = p_backends (f_pool st)"
proof -
  have eq: "p_backends (Release i (add_conns i 1 (counted (f_pool st)))) = p_backends (f_pool st)"
    using assms(2) by (simp add: Release_def add_conns_undo)
  show "p_backends (Release i (add_conns i 1 (counted (f_pool st)))) = p_backends (f_pool st)" by (rule eq)
  have "p_strategy (Release i (add_conns i 1 (counted (f_pool st)))) = p_strategy (f_pool st)"
    "p_ring (Release i (add_conns i 1 (counted (f_pool st)))) = p_ring (f_pool st)"
    "p_rrCounter (Release i (add_conns i 1 (counted (f_pool st)))) = p_rrCounter (counted (f_pool st))"
    by (simp_all add: Release_def add_conns_def)
  then show "fetch_ok env k \<lparr>f_pool = Release i (add_conns i 1 (counted (f_pool st))),
      f_breakers = (f_breakers st)(x \<mapsto> br), f_bufs = bufs, f_world = w\<rparr>"
    using assms counted_room [OF assms(1)] eq by (auto simp: fetch_ok_def)
qed

text \<open>
  What a fetch comes to: \<open>as\<close> are the backends asked. The answer is the last reply, the earlier
  replies were failures; without an answer there was no healthy backend or the last choice was
  blocked by its breaker.
\<close>

definition fetched ::
  "'w genv \<Rightarrow> request \<Rightarrow> 'w fstate \<Rightarrow> ferr + recorder \<Rightarrow> 'w fstate \<Rightarrow> string list \<Rightarrow> bool" where
  "fetched env r st res st' as \<longleftrightarrow>
     p_backends (f_pool st') = p_backends (f_pool st) \<and> clean_bufs (f_bufs st') \<and>
     (\<forall>a \<in> set as. \<exists>b \<in> set (p_backends (f_pool st)). bk_healthy b \<and> bk_Address b = a) \<and>
     f_world st' = snd (replies env r as (f_world st)) \<and>
     (let rs = fst (replies env r as (f_world st)) in
      case res of
        Inl e \<Rightarrow> (\<forall>cs \<in> set rs. 500 \<le> calls_status cs) \<and>
          (e = FPick ErrNoHealthyBackends \<and> \<not> any_healthy (p_backends (f_pool st)) \<or> e = FOpen)
      | Inr rec \<Rightarrow> rs \<noteq> [] \<and> rc_status rec = calls_status (last rs) \<and>
          bf_data (rc_body rec) = calls_body (last rs) \<and> (\<forall>cs \<in> set (butlast rs). 500 \<le> calls_status cs))"

lemma fetched_skip:
  assumes "fetched env r st1 res st' as" "p_backends (f_pool st1) = p_backends (f_pool st)" "f_world st1 = f_world st"
  shows "fetched env r st res st' as"
  using assms(1) unfolding fetched_def assms(2,3) .

lemma fetched_retry:
  assumes "fetched env r st1 res st' as" "p_backends (f_pool st1) = p_backends (f_pool st)"
    "b \<in> set (p_backends (f_pool st))" "bk_healthy b"
    "ev_proxy env (bk_Address b) r (f_world st) = (cs, f_world st1)" "500 \<le> calls_status cs"
  shows "fetched env r st res st' (bk_Address b # as)"
proof -
  have "replies env r (bk_Address b # as) (f_world st) =
      (cs # fst (replies env r as (f_world st1)), snd (replies env r as (f_world st1)))"
    using assms(5) by (simp split: prod.splits)
  with assms(1-4,6) show ?thesis
    by (auto simp: fetched_def Let_def split: sum.splits)
qed

lemma proxy_attempt_reply:
  assumes "proxy_attempt env r k b st = (rec, st1)" "clean_bufs (f_bufs st)"
  shows "\<exists>cs. ev_proxy env (bk_Address b) r (f_world st) = (cs, f_world st1) \<and>
      rc_status rec = calls_status cs \<and> bf_data (rc_body rec) = calls_body cs \<and> clean_bufs (f_bufs st1) \<and>
      f_pool st1 = f_pool st \<and> f_breakers st1 = f_breakers st"
proof -
  obtain buf bufs where buf: "buf_Get (ev_sel env k) (f_bufs st) = (buf, bufs)" by fastforce
  obtain cs w where cs: "ev_proxy env (bk_Address b) r (f_world st) = (cs, w)" by fastforce
  have "rec = record_calls (ev_grow env) cs buf" "st1 = st\<lparr>f_bufs := bufs, f_world := w\<rparr>"
    using assms(1) buf cs by (simp_all add: proxy_attempt_def)
  then show ?thesis
    using cs record_calls_response [OF buf_Get_clean(1) [OF assms(2) buf]] buf_Get_clean(2) [OF assms(2) buf] by auto
qed

lemma fetched_last:
  assumes "p_backends (f_pool st') = p_backends (f_pool st)" "b \<in> set (p_backends (f_pool st))" "bk_healthy b"
    "ev_proxy env (bk_Address b) r (f_world st) = (cs, f_world st')" "clean_bufs (f_bufs st')"
    "rc_status rec = calls_status cs" "bf_data (rc_body rec) = calls_body cs"
  shows "fetched env r st (Inr rec) st' [bk_Address b]"
  using assms by (auto simp: fetched_def)

lemma Pick_cases:
  assumes "pool_ok rnd p"
  obtains (some) i where "Pick key rnd p = Ret (Inr i, add_conns i 1 (counted p))" "i < length (p_backends p)"
      "bk_healthy (p_backends p ! i)"
  | (none) "Pick key rnd p = Ret (Inl ErrNoHealthyBackends, counted p)" "\<not> any_healthy (p_backends p)"
  using assms by (cases rule: select_cases [of rnd p key]) (simp_all add: Pick_eq that)

lemma picked_backend:
  assumes "i < length (p_backends p)"
  shows "bk_ID (p_backends (add_conns i 1 (counted p)) ! i) = bk_ID (p_backends p ! i)"
    "bk_Address (p_backends (add_conns i 1 (counted p)) ! i) = bk_Address (p_backends p ! i)"
  using assms by (simp_all add: add_conns_def)

lemma proxy_attempt_cong:
  "bk_Address b = bk_Address b' \<Longrightarrow> proxy_attempt env r k b st = proxy_attempt env r k b' st"
  by (simp add: proxy_attempt_def)

text \<open>One turn of the loop, with the picked backend named.\<close>

lemma fetch_loop_turn:
  assumes "Pick key (ev_rnd env (maxProxyAttempts - Suc n)) (f_pool st) = Ret (Inr i, add_conns i 1 (counted (f_pool st)))"
    and "i < length (p_backends (f_pool st))" "b = p_backends (f_pool st) ! i"
    and "f_breakers st (bk_ID b) = Some br" "brk_Allow (ev_clk env (2 * (maxProxyAttempts - Suc n))) br = (allowed, br1)"
    and "p = Release i (add_conns i 1 (counted (f_pool st)))"
  shows "fetch_loop env r key (Suc n) lastErr st =
    (if \<not> allowed
     then fetch_loop env r key n (Some FOpen)
       \<lparr>f_pool = p, f_breakers = (f_breakers st)(bk_ID b \<mapsto> br1), f_bufs = f_bufs st, f_world = f_world st\<rparr>
     else
       (case proxy_attempt env r (maxProxyAttempts - Suc n) b st of (rec, st') \<Rightarrow>
          if rc_status rec < 500
          then Ret (Inr rec, \<lparr>f_pool = p, f_breakers = (f_breakers st)(bk_ID b \<mapsto> brk_Success br1),
                 f_bufs = f_bufs st', f_world = f_world st'\<rparr>)
          else if n \<noteq> 0
          then fetch_loop env r key n (Some (FStatus (bk_ID b) (rc_status rec)))
                 \<lparr>f_pool = p, f_breakers = (f_breakers st)(bk_ID b \<mapsto> brk_Failure (ev_clk env (2 * (maxProxyAttempts - Suc n) + 1)) br1),
                  f_bufs = rec_release rec (f_bufs st'), f_world = f_world st'\<rparr>
          else Ret (Inr rec, \<lparr>f_pool = p, f_breakers = (f_breakers st)(bk_ID b \<mapsto> brk_Failure (ev_clk env (2 * (maxProxyAttempts - Suc n) + 1)) br1),
                  f_bufs = f_bufs st', f_world = f_world st'\<rparr>)))"
proof -
  obtain buf bufs where buf: "buf_Get (ev_sel env (maxProxyAttempts - Suc n)) (f_bufs st) = (buf, bufs)" by fastforce
  obtain cs w where cs: "ev_proxy env (bk_Address b) r (f_world st) = (cs, w)" by fastforce
  obtain p0 m u v where st: "st = \<lparr>f_pool = p0, f_breakers = m, f_bufs = u, f_world = v\<rparr>" by (cases st)
  note facts = assms(1,4-6) picked_backend [OF assms(2), folded assms(3)] buf cs
  show ?thesis using facts unfolding st by (simp add: Let_def proxy_attempt_def)
qed

lemma fetch_loop_fetched:
  assumes "fetch_ok env n st" "n = 0 \<longrightarrow> lastErr = Some FOpen"
  shows "\<exists>res st' as. fetch_loop env r key n lastErr st = Ret (res, st') \<and> fetched env r st res st' as \<and> length as \<le> n"
  using assms
proof (induction n arbitrary: st lastErr)
  case 0
  then show ?case by (auto simp: fetched_def fetch_ok_def Let_def)
next
  case (Suc n st lastErr)
  have clean: "clean_bufs (f_bufs st)" using Suc.prems(1) by (simp add: fetch_ok_def)
  have "pool_ok (ev_rnd env (maxProxyAttempts - Suc n)) (f_pool st)" using fetch_ok_pool [OF Suc.prems(1)] .
  then show ?case
  proof (cases rule: Pick_cases [of _ _ key])
    case (some i)
    let ?b = "p_backends (f_pool st) ! i" and ?p = "Release i (add_conns i 1 (counted (f_pool st)))"
    have b: "?b \<in> set (p_backends (f_pool st))" using some(2) by simp
    obtain br where br: "f_breakers st (bk_ID ?b) = Some br" using Suc.prems(1) b by (auto simp: fetch_ok_def)
    obtain ok br1 where ok: "brk_Allow (ev_clk env (2 * (maxProxyAttempts - Suc n))) br = (ok, br1)" by fastforce
    obtain rec st1 where at: "proxy_attempt env r (maxProxyAttempts - Suc n) ?b st = (rec, st1)" by fastforce
    note turn = fetch_loop_turn [OF some(1,2) refl br ok refl, of r lastErr]
    obtain cs where cs: "ev_proxy env (bk_Address ?b) r (f_world st) = (cs, f_world st1)" "rc_status rec = calls_status cs"
      "bf_data (rc_body rec) = calls_body cs" "clean_bufs (f_bufs st1)"
      using proxy_attempt_reply [OF at clean] by blast
    let ?st = "\<lambda>br bufs w. \<lparr>f_pool = ?p, f_breakers = (f_breakers st)(bk_ID ?b \<mapsto> br), f_bufs = bufs, f_world = w\<rparr>"
    have step: "fetch_ok env n (?st br bufs w)" if "clean_bufs bufs" for br bufs w
      using fetch_ok_step(1) [OF Suc.prems(1) some(2) that] .
    have same: "p_backends ?p = p_backends (f_pool st)" using fetch_ok_step(2) [OF Suc.prems(1) some(2) clean] .
    have fin: "fetched env r st (Inr rec) (?st br (f_bufs st1) (f_world st1)) [bk_Address ?b]" for br
      by (rule fetched_last [OF _ b some(3)]) (use cs same in auto)
    let ?fail = "brk_Failure (ev_clk env (2 * (maxProxyAttempts - Suc n) + 1)) br1"
    have rel: "clean_bufs (rec_release rec (f_bufs st1))" using cs(4) by (simp add: rec_release_def buf_Put_clean)
    consider "\<not> ok" | "ok" "rc_status rec < 500 \<or> n = 0" | "ok" "\<not> rc_status rec < 500" "n \<noteq> 0" by blast
    then show ?thesis
    proof cases
      case 1
      obtain res st' as where "fetch_loop env r key n (Some FOpen) (?st br1 (f_bufs st) (f_world st)) = Ret (res, st')"
        "fetched env r (?st br1 (f_bufs st) (f_world st)) res st' as" "length as \<le> n"
        using Suc.IH [OF step [OF clean], of "Some FOpen"] by blast
      then show ?thesis using 1 turn fetched_skip [of env r _ res st' as st] same by fastforce
    next
      case 2
      then show ?thesis using turn at fin by (cases "rc_status rec < 500") (fastforce intro!: exI [of _ "[bk_Address ?b]"])+
    next
      case 3
      obtain res st' as where IH: "fetch_loop env r key n (Some (FStatus (bk_ID ?b) (rc_status rec)))
            (?st ?fail (rec_release rec (f_bufs st1)) (f_world st1)) = Ret (res, st')"
          "fetched env r (?st ?fail (rec_release rec (f_bufs st1)) (f_world st1)) res st' as" "length as \<le> n"
        using Suc.IH [OF step [OF rel]] 3(3) by blast
      have "fetched env r st res st' (bk_Address ?b # as)"
        using fetched_retry [OF IH(2) _ b some(3)] same cs(1,2) 3(2) by simp
      moreover have "fetch_loop env r key (Suc n) lastErr st = Ret (res, st')" using turn at 3 IH(1) by simp
      ultimately show ?thesis using IH(3) by (metis Suc_le_mono length_Cons)
    qed
  next
    case none
    then show ?thesis using Suc.prems by (auto simp: fetched_def fetch_ok_def Let_def intro!: exI [of _ "[]"])
  qed
qed

text \<open>Every breaker open and not yet due for a trial.\<close>

definition all_open :: "'w genv \<Rightarrow> 'w fstate \<Rightarrow> bool" where
  "all_open env st \<longleftrightarrow> (\<forall>i br k. f_breakers st i = Some br \<longrightarrow>
     b_state br = Open \<and> sint (ev_clk env k) < sint (openedAt br + OpenDuration (b_cfg br)))"

lemma all_open_fetch_loop:
  "all_open env st \<Longrightarrow> fetch_loop env r key n lastErr st = Ret (res, st') \<Longrightarrow> f_world st' = f_world st \<and> isl res"
proof (induction n arbitrary: st lastErr)
  case (Suc n)
  let ?k = "maxProxyAttempts - Suc n"
  obtain x p where pick: "Pick key (ev_rnd env ?k) (f_pool st) = Ret (x, p)"
    using Suc.prems(2) by (cases "Pick key (ev_rnd env ?k) (f_pool st)") auto
  show ?case
  proof (cases x)
    case (Inr i)
    let ?id = "bk_ID (p_backends p ! i)"
    obtain br where br: "f_breakers st ?id = Some br"
      using Suc.prems(2) pick Inr by (cases "f_breakers st ?id") (auto simp: Let_def)
    then have shut: "brk_Allow (ev_clk env (2 * ?k)) br = (False, br)"
      using Suc.prems(1) unfolding all_open_def brk_Allow_def by simp
    let ?st = "st\<lparr>f_pool := p, f_breakers := (f_breakers st)(?id \<mapsto> br)\<rparr>\<lparr>f_pool := Release i p\<rparr>"
    have "fetch_loop env r key n (Some FOpen) ?st = Ret (res, st')"
      using Suc.prems(2) pick Inr br shut by (simp add: Let_def)
    moreover have "all_open env ?st" using Suc.prems(1) br by (auto simp: all_open_def)
    ultimately show ?thesis using Suc.IH [of ?st "Some FOpen"] by simp
  qed (use Suc.prems(2) pick in auto)
qed auto

lemma matchRoute_foldl:
  assumes "foldl (match_step path rts) (None, - 1) [0..<n] = (best, len)" "n \<le> length rts"
  shows "(\<forall>j < n. has_prefix path (rt_PathPrefix (rts ! j)) \<longrightarrow> int (length (rt_PathPrefix (rts ! j))) \<le> len) \<and>
    (case best of
       None \<Rightarrow> len = - 1
     | Some i \<Rightarrow> i < n \<and> has_prefix path (rt_PathPrefix (rts ! i)) \<and> len = int (length (rt_PathPrefix (rts ! i))))"
  using assms
proof (induction n arbitrary: best len)
  case (Suc n)
  obtain b l where bl: "foldl (match_step path rts) (None, - 1) [0..<n] = (b, l)" by fastforce
  have step: "match_step path rts (b, l) n = (best, len)" using Suc.prems(1) bl by simp
  show ?case
    using Suc.IH [OF bl] Suc.prems(2) step
    by (auto simp: match_step_def less_Suc_eq split: if_splits option.splits)
qed auto

lemma matchRoute_longest:
  "(case matchRoute g path of
      None \<Rightarrow> \<forall>j < length (g_routes g). \<not> has_prefix path (rt_PathPrefix (g_routes g ! j))
    | Some i \<Rightarrow> i < length (g_routes g) \<and> has_prefix path (rt_PathPrefix (g_routes g ! i)) \<and>
        (\<forall>j < length (g_routes g). has_prefix path (rt_PathPrefix (g_routes g ! j)) \<longrightarrow>
           length (rt_PathPrefix (g_routes g ! j)) \<le> length (rt_PathPrefix (g_routes g ! i))))"
proof -
  obtain b l where bl: "foldl (match_step path (g_routes g)) (None, - 1) [0..<length (g_routes g)] = (b, l)" by fastforce
  show ?thesis
    using matchRoute_foldl [OF bl] bl by (fastforce simp: matchRoute_def split: option.splits)
qed

section \<open>Who is turned away\<close>

text \<open>\<open>auth_ok\<close>: the request carries a bearer token that verifies. \<open>verdict\<close>: the status with which a
  request is turned away before it reaches a route's handler, in the order of the pipeline.\<close>

definition auth_ok :: "'w genv \<Rightarrow> verifier \<Rightarrow> request \<Rightarrow> bool" where
  "auth_ok env v r \<longleftrightarrow>
     (\<exists>token c. header_get (rq_header r) ''Authorization'' = ''Bearer '' @ token \<and> token \<noteq> [] \<and>
        Verify (ev_jwt env) (ev_now env 1) v token = Inr c)"

definition shape_ok :: "waf_config \<Rightarrow> request \<Rightarrow> bool" where
  "shape_ok cfg r \<longleftrightarrow> int (length (rq_header r)) \<le> MaxHeaders cfg \<and> (\<nexists>a b. rq_path r = a @ ''..'' @ b) \<and>
     \<not> matchesInjectionPattern (rq_path r) \<and> \<not> queryContainsInjectionPattern (rq_query r)"

definition admitted :: "'w genv \<Rightarrow> request \<Rightarrow> 'w gateway \<Rightarrow> bool" where
  "admitted env r g \<longleftrightarrow>
     (\<forall>l. g_limiter g = Some l \<longrightarrow> fst (lim_Allow (ev_now env 0) (g_clientKey g r) l))"

definition capped :: "waf_config \<Rightarrow> request \<Rightarrow> request" where
  "capped cfg r = (if rq_body r \<noteq> None then r\<lparr>rq_bodyLimit := Some (MaxBodyBytes cfg)\<rparr> else r)"

definition verdict :: "'w genv \<Rightarrow> request \<Rightarrow> 'w gateway \<Rightarrow> int option" where
  "verdict env r g =
     (if int (length (rq_url r)) > MaxURLLength (g_wafCfg g) then Some 414
      else if \<not> shape_ok (g_wafCfg g) r then Some 400
      else case matchRoute g (rq_path r) of
        None \<Rightarrow> Some 404
      | Some ri \<Rightarrow>
          if \<not> admitted env (capped (g_wafCfg g) r) g then Some 429
          else if rt_RequireAuth (g_routes g ! ri) \<and> \<not> auth_ok env (the (g_verifier g)) r then Some 401
          else None)"

definition spent :: "'w genv \<Rightarrow> request \<Rightarrow> 'w gateway \<Rightarrow> 'w gateway" where
  "spent env r g =
     g\<lparr>g_limiter := map_option (\<lambda>l. snd (lim_Allow (ev_now env 0) (g_clientKey g r) l)) (g_limiter g)\<rparr>"

lemma capped_fields [simp]:
  "rq_path (capped cfg r) = rq_path r" "rq_header (capped cfg r) = rq_header r" "rq_url (capped cfg r) = rq_url r"
  by (simp_all add: capped_def)

lemma auth_Middleware_cases:
  "auth_Middleware (ev_jwt env) (ev_now env 1) v nxt r s =
     (if auth_ok env v r
      then nxt (projr (Verify (ev_jwt env) (ev_now env 1) v (drop 7 (header_get (rq_header r) ''Authorization'')))) r s
      else Ret (http_Error (if \<exists>t. header_get (rq_header r) ''Authorization'' = ''Bearer '' @ t \<and> t \<noteq> []
                            then ''invalid token'' else ''missing bearer token'') 401, s))"
proof (cases "cut_prefix (header_get (rq_header r) ''Authorization'') ''Bearer ''")
  case None
  then have "\<nexists>t. header_get (rq_header r) ''Authorization'' = ''Bearer '' @ t" by (auto simp: cut_prefix_def)
  with None show ?thesis by (auto simp: auth_Middleware_def auth_ok_def)
next
  case (Some t)
  then have h: "header_get (rq_header r) ''Authorization'' = ''Bearer '' @ t"
    by (auto simp: cut_prefix_def has_prefix_iff split: if_splits)
  then show ?thesis
    using Some by (cases "Verify (ev_jwt env) (ev_now env 1) v t") (auto simp: auth_Middleware_def auth_ok_def)
qed

lemma Handler_waf:
  "Handler env r g =
     (if int (length (rq_url r)) > MaxURLLength (g_wafCfg g) then Ret (http_Error ''request rejected'' 414, g)
      else if \<not> shape_ok (g_wafCfg g) r then Ret (http_Error ''request rejected'' 400, g)
      else serveHTTP env (capped (g_wafCfg g) r) g)"
  by (auto simp: Handler_def waf_Middleware_def shape_ok_def capped_def containsPathTraversal_def contains_sub_iff)

lemma spent_none: "g_limiter g = None \<Longrightarrow> spent env r g = g"
  by (cases g) (simp add: spent_def)

lemma serveHTTP_limited:
  "serveHTTP env r g =
     (case matchRoute g (rq_path r) of
        None \<Rightarrow> Ret (http_NotFound, g)
      | Some ri \<Rightarrow> if admitted env r g then full_route_handler env ri r (spent env r g)
                   else Ret (http_Error ''rate limit exceeded'' 429, spent env r g))"
proof (cases "g_limiter g")
  case None
  then show ?thesis by (simp add: serveHTTP_def admitted_def spent_none split: option.split)
next
  case (Some l)
  then show ?thesis by (auto simp: serveHTTP_def admitted_def spent_def split: option.splits prod.splits)
qed

lemma spent_fields [simp]:
  "g_routes (spent env r g) = g_routes g" "g_verifier (spent env r g) = g_verifier g"
  "g_world (spent env r g) = g_world g" "g_pools (spent env r g) = g_pools g" "g_cache (spent env r g) = g_cache g"
  by (simp_all add: spent_def)

lemma auth_ok_capped [simp]: "auth_ok env v (capped cfg r) = auth_ok env v r"
  by (simp add: auth_ok_def)

text \<open>A gateway as \<open>New\<close> builds it: routes that need the verifier or the cache have them.\<close>

definition wired :: "'w gateway \<Rightarrow> bool" where
  "wired g \<longleftrightarrow> (\<forall>cr \<in> set (g_routes g). (rt_RequireAuth cr \<longrightarrow> g_verifier g \<noteq> None) \<and>
     (rt_Cacheable cr \<longrightarrow> g_cache g \<noteq> None) \<and> rt_Pool cr \<noteq> None \<and>
     (\<forall>b \<in> set (p_backends (g_pools g ! the (rt_Pool cr))). cr_breakers cr (bk_ID b) \<noteq> None))"

lemma fold_breakers:
  "fold (\<lambda>b m. m(bk_ID b \<mapsto> x)) bs m i = (if i \<in> bk_ID ` set bs then Some x else m i)"
  by (induction bs arbitrary: m) auto

lemma compile_route_wired:
  assumes "compile_route cfg pools rt = Inr cr"
  shows "(rt_RequireAuth cr \<longrightarrow> gc_Verifier cfg \<noteq> None) \<and> (rt_Cacheable cr \<longrightarrow> gc_Cache cfg \<noteq> None) \<and>
    rt_Pool cr \<noteq> None \<and> (\<forall>b \<in> set (p_backends (pools ! the (rt_Pool cr))). cr_breakers cr (bk_ID b) \<noteq> None)"
  using assms by (auto simp: compile_route_def route.defs fold_breakers split: option.splits if_splits)

lemma compile_routes_wired:
  "compile_routes cfg pools rts = Inr crs \<Longrightarrow> cr \<in> set crs \<Longrightarrow> \<exists>rt \<in> set rts. compile_route cfg pools rt = Inr cr"
  by (induction rts arbitrary: crs) (auto split: sum.splits)

lemma New_gateway_wired: "New_gateway cfg pools w = Inr g \<Longrightarrow> wired g"
  using compile_routes_wired [of cfg pools "gc_Routes cfg"] compile_route_wired [of cfg pools]
  by (fastforce simp: New_gateway_def wired_def split: sum.splits)

lemma full_route_handler_auth:
  assumes "wired g" "ri < length (g_routes g)"
  shows "full_route_handler env ri r g =
    (if rt_RequireAuth (g_routes g ! ri) \<and> \<not> auth_ok env (the (g_verifier g)) r
     then Ret (http_Error (if \<exists>t. header_get (rq_header r) ''Authorization'' = ''Bearer '' @ t \<and> t \<noteq> []
                            then ''invalid token'' else ''missing bearer token'') 401, g)
     else route_handler env ri r g)"
proof -
  have "rt_RequireAuth (g_routes g ! ri) \<Longrightarrow> \<exists>v. g_verifier g = Some v"
    using assms nth_mem by (fastforce simp: wired_def)
  then show ?thesis by (auto simp: full_route_handler_def auth_Middleware_cases simp del: One_nat_def)
qed

lemma wired_spent [simp]: "wired (spent env r g) = wired g"
  by (simp add: wired_def)

section \<open>Properties\<close>


text \<open>A pool of one backend that answers 500 twice, then 200.\<close>

definition demo_genv :: "nat genv" where
  "demo_genv = \<lparr>ev_rnd = (\<lambda>n t. 0), ev_clk = (\<lambda>n. 0), ev_now = (\<lambda>n. 0), ev_sel = (\<lambda>n. None), ev_grow = (\<lambda>c n. n),
     ev_proxy = (\<lambda>a r n. ([CallWriteHeader (if n < 2 then 500 else 200), CallWrite ''ok''], Suc n)),
     ev_jwt = demo_env\<rparr>"

definition demo_fstate :: "nat fstate" where
  "demo_fstate = \<lparr>f_pool = \<lparr>p_strategy = LeastConnections, p_backends = [NewBackend ''b'' ''10.0.0.1'' 1],
       p_rrCounter = 0, p_ring = []\<rparr>,
     f_breakers = [''b'' \<mapsto> newWithClock DefaultConfig], f_bufs = [], f_world = 0\<rparr>"

definition demo_request :: request where
  "demo_request = \<lparr>rq_method = ''GET'', rq_url = ''/api/rates'', rq_path = ''/api/rates'', rq_query = [], rq_header = [],
     rq_remote = ''1.2.3.4:5'', rq_body = None, rq_bodyLimit = None\<rparr>"



definition demo_config :: gw_config where
  "demo_config = \<lparr>gc_Routes = [\<lparr>rt_PathPrefix = ''/api'', rt_Pool = Some 0, rt_Cacheable = False, rt_RequireAuth = True\<rparr>],
     gc_RateLimiter = None, gc_Verifier = Some \<lparr>v_secret = ''k''\<rparr>, gc_Cache = None,
     gc_WAFConfig = \<lparr>MaxBodyBytes = 10, MaxURLLength = 20, MaxHeaders = 3\<rparr>, gc_BreakerConfig = DefaultConfig,
     gc_ClientKey = None\<rparr>"

definition demo_gateway :: "nat gateway" where
  "demo_gateway = projr (New_gateway demo_config [f_pool demo_fstate] 0)"

lemma demo_gateway_eq: "New_gateway demo_config [f_pool demo_fstate] 0 = Inr demo_gateway"
  by (simp add: demo_gateway_def New_gateway_def compile_route_def demo_config_def)

lemma demo_gateway_fields:
  "g_wafCfg demo_gateway = \<lparr>MaxBodyBytes = 10, MaxURLLength = 20, MaxHeaders = 3\<rparr>" "g_limiter demo_gateway = None"
  "length (g_routes demo_gateway) = 1" "rt_RequireAuth (g_routes demo_gateway ! 0)"
  "rt_PathPrefix (g_routes demo_gateway ! 0) = ''/api''"
  by (simp_all add: demo_gateway_def New_gateway_def compile_route_def demo_config_def route.defs)

lemma demo_shape:
  "\<not> matchesInjectionPattern ''/api/rates''" "\<nexists>a b. ''/api/rates'' = a @ ''..'' @ b"
proof -
  show "\<not> matchesInjectionPattern ''/api/rates''" by code_simp
  have "\<not> contains_sub ''/api/rates'' ''..''" by simp
  then show "\<nexists>a b. ''/api/rates'' = a @ ''..'' @ b" unfolding contains_sub_iff .
qed


end
