(* ===== verification/Subscription.thy ===== *)
theory Subscription
  imports Http "HOL-Library.AList"
begin

text \<open>
  \<open>subscription-core\<close>: the domain (statuses, transitions, entitlements), the storage and cache
  ports, the webhook processor, its HTTP ingress, the reconciler and the entitlement reads. The
  services take the ports as an argument, as the Go code takes interfaces; the in-memory and the
  Postgres implementations are instances, and what the services rely on is a locale.
\<close>

section \<open>\<open>domain\<close>\<close>

datatype status = Trialing | Active | PastDue | Canceled | Paused | OtherStatus string

record subscription =
  sb_ID :: string
  sb_CustomerID :: string
  sb_ProviderSubID :: string
  sb_PlanID :: string
  sb_Status :: status
  sb_SeatCount :: int
  sb_CurrentPeriodStart :: instant
  sb_CurrentPeriodEnd :: instant
  sb_CancelAtPeriodEnd :: bool
  sb_TrialEnd :: instant
  sb_ProviderUpdatedAt :: instant

definition transitions :: "status \<rightharpoonup> status list" where
  "transitions =
     [Trialing \<mapsto> [Active, PastDue, Canceled, Paused],
      Active \<mapsto> [PastDue, Canceled, Paused],
      PastDue \<mapsto> [Active, Canceled],
      Paused \<mapsto> [Active, Canceled],
      Canceled \<mapsto> []]"

definition CanTransition :: "status \<Rightarrow> status \<Rightarrow> bool" where
  "CanTransition from_s to_s =
     (if from_s = to_s then True
      else case transitions from_s of None \<Rightarrow> False | Some targets \<Rightarrow> to_s \<in> set targets)"

definition ApplyTransition :: "subscription \<Rightarrow> status \<Rightarrow> subscription option" where
  "ApplyTransition s to_s = (if \<not> CanTransition (sb_Status s) to_s then None else Some (s\<lparr>sb_Status := to_s\<rparr>))"

datatype event_type =
  SubscriptionCreated | SubscriptionUpdated | SubscriptionCanceled | PaymentFailed | PaymentSucceeded | OtherEvent string

record event =
  ev_ProviderEventID :: string
  ev_Type :: event_type
  ev_Subscription :: subscription
  ev_OccurredAt :: instant

definition TargetStatus :: "event \<Rightarrow> status" where
  "TargetStatus e =
     (case ev_Type e of
        SubscriptionCanceled \<Rightarrow> Canceled
      | PaymentFailed \<Rightarrow> PastDue
      | PaymentSucceeded \<Rightarrow> Active
      | SubscriptionCreated \<Rightarrow>
          if sb_Status (ev_Subscription e) \<noteq> OtherStatus [] then sb_Status (ev_Subscription e) else Active
      | SubscriptionUpdated \<Rightarrow>
          if sb_Status (ev_Subscription e) \<noteq> OtherStatus [] then sb_Status (ev_Subscription e) else Active
      | OtherEvent _ \<Rightarrow> sb_Status (ev_Subscription e))"

record plan =
  pl_ID :: string
  pl_Tier :: string
  pl_Features :: "string \<rightharpoonup> i64"
  pl_SeatIncluded :: int

record entitlement =
  en_SubscriptionID :: string
  en_Tier :: string
  en_Features :: "string \<rightharpoonup> i64"
  en_Seats :: int
  en_Active :: bool

datatype reason = ReasonAllowed | ReasonNotActive | ReasonFeatureOff | ReasonQuotaExceeded | ReasonUnknownFeature

record decision =
  d_Allow :: bool
  d_Reason :: reason
  d_Limit :: i64

definition StatusGrantsAccess :: "status \<Rightarrow> bool" where
  "StatusGrantsAccess s \<longleftrightarrow> s \<in> {Active, Trialing, PastDue}"

definition DeriveEntitlement :: "subscription \<Rightarrow> plan \<Rightarrow> entitlement" where
  "DeriveEntitlement sub plan =
     \<lparr>en_SubscriptionID = sb_ID sub, en_Tier = pl_Tier plan, en_Features = pl_Features plan,
      en_Seats = (if pl_SeatIncluded plan > sb_SeatCount sub then pl_SeatIncluded plan else sb_SeatCount sub),
      en_Active = StatusGrantsAccess (sb_Status sub)\<rparr>"

definition Evaluate :: "string \<Rightarrow> entitlement \<Rightarrow> decision" where
  "Evaluate f e =
     (if \<not> en_Active e then \<lparr>d_Allow = False, d_Reason = ReasonNotActive, d_Limit = 0\<rparr>
      else case en_Features e f of
        None \<Rightarrow> \<lparr>d_Allow = False, d_Reason = ReasonUnknownFeature, d_Limit = 0\<rparr>
      | Some limit \<Rightarrow>
          if limit = 0 then \<lparr>d_Allow = False, d_Reason = ReasonFeatureOff, d_Limit = 0\<rparr>
          else \<lparr>d_Allow = True, d_Reason = ReasonAllowed, d_Limit = limit\<rparr>)"

section \<open>Ports\<close>

datatype serr = SNotFound | SFailure string | SBadSignature

text \<open>\<open>'s\<close> is the state behind the ports: database and cache.\<close>

record 's ports =
  GetByProviderID :: "string \<Rightarrow> 's \<Rightarrow> serr + subscription"
  GetBySubject :: "string \<Rightarrow> 's \<Rightarrow> serr + subscription"
  Upsert :: "subscription \<Rightarrow> 's \<Rightarrow> serr option \<times> 's"
  MarkProcessed :: "string \<Rightarrow> 's \<Rightarrow> (serr + bool) \<times> 's"
  GetPlan :: "string \<Rightarrow> 's \<Rightarrow> serr + plan"
  cache_Lookup :: "string \<Rightarrow> 's \<Rightarrow> entitlement option"
  cache_Store :: "string \<Rightarrow> entitlement \<Rightarrow> 's \<Rightarrow> 's"
  cache_Bust :: "string \<Rightarrow> 's \<Rightarrow> 's"

text \<open>The billing provider: webhook verification and the authoritative subscription state.\<close>

record provider =
  VerifyAndParse :: "string \<Rightarrow> string \<Rightarrow> serr + event"
  FetchSubscription :: "string \<Rightarrow> serr + subscription"

section \<open>\<open>webhook\<close>\<close>

datatype result = ResultProcessed | ResultDuplicate | ResultStale | ResultIllegal

text \<open>The snapshot fields carried forward onto the stored subscription.\<close>

definition carry_forward :: "subscription \<Rightarrow> subscription \<Rightarrow> subscription" where
  "carry_forward snap updated =
     updated\<lparr>sb_PlanID := sb_PlanID snap, sb_SeatCount := sb_SeatCount snap,
       sb_CurrentPeriodEnd := sb_CurrentPeriodEnd snap, sb_CancelAtPeriodEnd := sb_CancelAtPeriodEnd snap,
       sb_ProviderUpdatedAt := sb_ProviderUpdatedAt snap\<rparr>"

text \<open>\<open>Upsert\<close> and \<open>Bust\<close> with the result \<open>r\<close>.\<close>

definition save :: "'s ports \<Rightarrow> 'r \<Rightarrow> subscription \<Rightarrow> 's \<Rightarrow> (serr + 'r) \<times> 's" where
  "save P r sub s =
     (case Upsert P sub s of
        (Some err, s') \<Rightarrow> (Inl err, s')
      | (None, s') \<Rightarrow> (Inr r, cache_Bust P (sb_CustomerID sub) s'))"

text \<open>\<open>Handle\<close> from the lookup of the stored subscription on.\<close>

definition apply_event :: "'s ports \<Rightarrow> event \<Rightarrow> 's \<Rightarrow> (serr + result) \<times> 's" where
  "apply_event P evt s =
     (let snap = ev_Subscription evt in
      case GetByProviderID P (sb_ProviderSubID snap) s of
        Inl SNotFound \<Rightarrow> save P ResultProcessed (snap\<lparr>sb_Status := TargetStatus evt\<rparr>) s
      | Inl err \<Rightarrow> (Inl err, s)
      | Inr existing \<Rightarrow>
          if sb_ProviderUpdatedAt snap < sb_ProviderUpdatedAt existing then (Inr ResultStale, s)
          else (case ApplyTransition existing (TargetStatus evt) of
              None \<Rightarrow> (Inr ResultIllegal, s)
            | Some updated \<Rightarrow> save P ResultProcessed (carry_forward snap updated) s))"

definition Handle :: "'s ports \<Rightarrow> provider \<Rightarrow> string \<Rightarrow> string \<Rightarrow> 's \<Rightarrow> (serr + result) \<times> 's" where
  "Handle P prov payload signature s =
     (case VerifyAndParse prov payload signature of
        Inl err \<Rightarrow> (Inl err, s)
      | Inr evt \<Rightarrow>
         (case MarkProcessed P (ev_ProviderEventID evt) s of
            (Inl err, s1) \<Rightarrow> (Inl err, s1)
          | (Inr first, s1) \<Rightarrow> if \<not> first then (Inr ResultDuplicate, s1) else apply_event P evt s1))"

definition result_text :: "result \<Rightarrow> string" where
  "result_text r =
     (case r of ResultProcessed \<Rightarrow> ''processed'' | ResultDuplicate \<Rightarrow> ''duplicate''
      | ResultStale \<Rightarrow> ''stale_ignored'' | ResultIllegal \<Rightarrow> ''illegal_transition'')"

text \<open>The ingress; the body is read up to one MiB, \<open>None\<close> is a failed read.\<close>

definition Ingress :: "'s ports \<Rightarrow> provider \<Rightarrow> request \<Rightarrow> 's \<Rightarrow> response \<times> 's" where
  "Ingress P prov r s =
     (if rq_method r \<noteq> ''POST'' then (http_Error ''method not allowed'' 405, s)
      else case rq_body r of
        None \<Rightarrow> (http_Error ''cannot read body'' 400, s)
      | Some b \<Rightarrow>
         (case Handle P prov (take 1048576 b) (header_get (rq_header r) ''X-Signature'') s of
            (Inl err, s') \<Rightarrow>
              if err = SBadSignature then (http_Error ''invalid signature'' 400, s')
              else (http_Error ''processing failed'' 500, s')
          | (Inr res, s') \<Rightarrow> (server_write 200 [(''Content-Type'', [''text/plain''])] (result_text res), s')))"

section \<open>\<open>reconcile\<close>\<close>

datatype outcome = OutcomeInSync | OutcomeRepaired | OutcomeAdopted | OutcomeStale

definition drifted :: "subscription \<Rightarrow> subscription \<Rightarrow> bool" where
  "drifted local truth \<longleftrightarrow>
     sb_Status local \<noteq> sb_Status truth \<or> sb_PlanID local \<noteq> sb_PlanID truth \<or>
     sb_SeatCount local \<noteq> sb_SeatCount truth \<or> sb_CancelAtPeriodEnd local \<noteq> sb_CancelAtPeriodEnd truth"

definition ReconcileOne :: "'s ports \<Rightarrow> provider \<Rightarrow> string \<Rightarrow> 's \<Rightarrow> (serr + outcome) \<times> 's" where
  "ReconcileOne P prov providerSubID s =
     (case FetchSubscription prov providerSubID of
        Inl err \<Rightarrow> (Inl err, s)
      | Inr truth \<Rightarrow>
         (case GetByProviderID P providerSubID s of
            Inl SNotFound \<Rightarrow> save P OutcomeAdopted truth s
          | Inl err \<Rightarrow> (Inl err, s)
          | Inr local \<Rightarrow>
              if sb_ProviderUpdatedAt truth < sb_ProviderUpdatedAt local then (Inr OutcomeStale, s)
              else if \<not> drifted local truth then (Inr OutcomeInSync, s)
              else save P OutcomeRepaired truth s))"

fun ReconcileAll ::
  "'s ports \<Rightarrow> provider \<Rightarrow> string list \<Rightarrow> (string \<rightharpoonup> outcome) \<Rightarrow> 's \<Rightarrow> ((string \<rightharpoonup> outcome) \<times> serr option) \<times> 's" where
  "ReconcileAll P prov [] out s = ((out, None), s)"
| "ReconcileAll P prov (i # ids) out s =
     (case ReconcileOne P prov i s of
        (Inl err, s') \<Rightarrow> ((out, Some err), s')
      | (Inr res, s') \<Rightarrow> ReconcileAll P prov ids (out(i \<mapsto> res)) s')"

section \<open>\<open>entitlements\<close>\<close>

definition derive :: "'s ports \<Rightarrow> string \<Rightarrow> 's \<Rightarrow> serr + entitlement" where
  "derive P subjectID s =
     (case GetBySubject P subjectID s of
        Inl err \<Rightarrow> Inl err
      | Inr sub \<Rightarrow>
         (case GetPlan P (sb_PlanID sub) s of
            Inl err \<Rightarrow> Inl err
          | Inr plan \<Rightarrow> Inr (DeriveEntitlement sub plan)))"

definition Entitlement :: "'s ports \<Rightarrow> string \<Rightarrow> 's \<Rightarrow> (serr + entitlement) \<times> 's" where
  "Entitlement P subjectID s =
     (case cache_Lookup P subjectID s of
        Some e \<Rightarrow> (Inr e, s)
      | None \<Rightarrow>
         (case derive P subjectID s of
            Inl err \<Rightarrow> (Inl err, s)
          | Inr e \<Rightarrow> (Inr e, cache_Store P subjectID e s)))"

text \<open>\<open>used\<close> is the meter's answer for this subject.\<close>

definition Check :: "'s ports \<Rightarrow> (string \<Rightarrow> string \<Rightarrow> serr + i64) \<Rightarrow> string \<Rightarrow> string \<Rightarrow> 's \<Rightarrow> (serr + decision) \<times> 's" where
  "Check P used subjectID feature s =
     (case Entitlement P subjectID s of
        (Inl err, s') \<Rightarrow> (Inl err, s')
      | (Inr e, s') \<Rightarrow>
         (let d = Evaluate feature e in
          if \<not> d_Allow d \<or> sint (d_Limit d) < 0 then (Inr d, s')
          else case used subjectID feature of
            Inl err \<Rightarrow> (Inl err, s')
          | Inr n \<Rightarrow>
              if sint n \<ge> sint (d_Limit d)
              then (Inr \<lparr>d_Allow = False, d_Reason = ReasonQuotaExceeded, d_Limit = d_Limit d\<rparr>, s')
              else (Inr d, s')))"

section \<open>The in-memory store and cache\<close>

record mem_world =
  m_byProv :: "string \<rightharpoonup> subscription"
  m_bySubj :: "string \<rightharpoonup> subscription"
  m_events :: "string set"
  m_plans :: "string \<rightharpoonup> plan"
  m_cache :: "string \<rightharpoonup> entitlement"
  m_down :: bool

definition sub_mem_New :: mem_world where
  "sub_mem_New = \<lparr>m_byProv = Map.empty, m_bySubj = Map.empty, m_events = {}, m_plans = Map.empty,
     m_cache = Map.empty, m_down = False\<rparr>"

definition SeedPlan :: "plan \<Rightarrow> mem_world \<Rightarrow> mem_world" where
  "SeedPlan p w = w\<lparr>m_plans := (m_plans w)(pl_ID p \<mapsto> p)\<rparr>"

definition mem_lookup :: "('k \<rightharpoonup> 'v) \<Rightarrow> 'k \<Rightarrow> serr + 'v" where
  "mem_lookup m k = (case m k of None \<Rightarrow> Inl SNotFound | Some v \<Rightarrow> Inr v)"

definition mem_Upsert :: "subscription \<Rightarrow> mem_world \<Rightarrow> serr option \<times> mem_world" where
  "mem_Upsert sub w =
     (None, w\<lparr>m_byProv := (m_byProv w)(sb_ProviderSubID sub \<mapsto> sub), m_bySubj := (m_bySubj w)(sb_CustomerID sub \<mapsto> sub)\<rparr>)"

definition mem_MarkProcessed :: "string \<Rightarrow> mem_world \<Rightarrow> (serr + bool) \<times> mem_world" where
  "mem_MarkProcessed i w =
     (if i \<in> m_events w then (Inr False, w) else (Inr True, w\<lparr>m_events := insert i (m_events w)\<rparr>))"

definition SetDown :: "bool \<Rightarrow> mem_world \<Rightarrow> mem_world" where
  "SetDown down w = w\<lparr>m_down := down\<rparr>"

definition ent_Get :: "string \<Rightarrow> mem_world \<Rightarrow> entitlement option" where
  "ent_Get subject w = (if m_down w then None else m_cache w subject)"

definition ent_Set :: "string \<Rightarrow> entitlement \<Rightarrow> mem_world \<Rightarrow> mem_world" where
  "ent_Set subject e w = (if m_down w then w else w\<lparr>m_cache := (m_cache w)(subject \<mapsto> e)\<rparr>)"

definition ent_Bust :: "string \<Rightarrow> mem_world \<Rightarrow> mem_world" where
  "ent_Bust subject w = w\<lparr>m_cache := (m_cache w)(subject := None)\<rparr>"

definition mem_ports :: "mem_world ports" where
  "mem_ports = \<lparr>GetByProviderID = (\<lambda>i w. mem_lookup (m_byProv w) i), GetBySubject = (\<lambda>i w. mem_lookup (m_bySubj w) i),
     Upsert = mem_Upsert, MarkProcessed = mem_MarkProcessed, GetPlan = (\<lambda>i w. mem_lookup (m_plans w) i),
     cache_Lookup = ent_Get, cache_Store = ent_Set, cache_Bust = ent_Bust\<rparr>"

text \<open>The fake provider: events by signature, subscriptions by id.\<close>

definition fake_provider :: "(string \<rightharpoonup> event) \<Rightarrow> (string \<rightharpoonup> subscription) \<Rightarrow> provider" where
  "fake_provider events subs =
     \<lparr>VerifyAndParse = (\<lambda>payload signature. case events signature of None \<Rightarrow> Inl SBadSignature | Some e \<Rightarrow> Inr e),
      FetchSubscription = (\<lambda>i. case subs i of None \<Rightarrow> Inl (SFailure ''subscription not found'') | Some s \<Rightarrow> Inr s)\<rparr>"

section \<open>The Postgres store\<close>

text \<open>
  The tables the queries of \<open>store/postgres/repo.go\<close> run on. \<open>q_fail\<close> says that the database
  refuses the call. A subscription's \<open>id\<close> is the primary key, the provider's id is unique, and an
  upsert keeps the row's \<open>id\<close>. Features are kept as the JSON text that \<open>enc\<close> writes and \<open>dec\<close> reads.
\<close>

record pg_world =
  q_subs :: "subscription list"
  q_events :: "string list"
  q_plans :: "(string \<times> (string \<times> string \<times> int)) list"
  q_fail :: bool
  q_cache :: "string \<rightharpoonup> entitlement"

definition pg_GetByProviderID :: "string \<Rightarrow> pg_world \<Rightarrow> serr + subscription" where
  "pg_GetByProviderID p w =
     (if q_fail w then Inl (SFailure ''get subscription by provider id'')
      else case find_first (\<lambda>r. sb_ProviderSubID r = p) (q_subs w) of None \<Rightarrow> Inl SNotFound | Some r \<Rightarrow> Inr r)"

text \<open>\<open>ORDER BY provider_updated_at DESC LIMIT 1\<close>; the first of equal ones.\<close>

fun latest :: "subscription list \<Rightarrow> subscription option" where
  "latest [] = None"
| "latest (r # rs) =
     (case latest rs of
        None \<Rightarrow> Some r
      | Some r' \<Rightarrow> if sb_ProviderUpdatedAt r' > sb_ProviderUpdatedAt r then Some r' else Some r)"

definition pg_GetBySubject :: "string \<Rightarrow> pg_world \<Rightarrow> serr + subscription" where
  "pg_GetBySubject c w =
     (if q_fail w then Inl (SFailure ''get subscription by subject'')
      else case latest (filter (\<lambda>r. sb_CustomerID r = c) (q_subs w)) of None \<Rightarrow> Inl SNotFound | Some r \<Rightarrow> Inr r)"

definition pg_Upsert :: "subscription \<Rightarrow> pg_world \<Rightarrow> serr option \<times> pg_world" where
  "pg_Upsert sub w =
     (if q_fail w then (Some (SFailure ''upsert subscription''), w)
      else if \<exists>r \<in> set (q_subs w). sb_ProviderSubID r = sb_ProviderSubID sub
      then (None, w\<lparr>q_subs := map (\<lambda>r. if sb_ProviderSubID r = sb_ProviderSubID sub then sub\<lparr>sb_ID := sb_ID r\<rparr> else r) (q_subs w)\<rparr>)
      else if \<exists>r \<in> set (q_subs w). sb_ID r = sb_ID sub then (Some (SFailure ''upsert subscription''), w)
      else (None, w\<lparr>q_subs := q_subs w @ [sub]\<rparr>))"

definition pg_MarkProcessed :: "string \<Rightarrow> pg_world \<Rightarrow> (serr + bool) \<times> pg_world" where
  "pg_MarkProcessed i w =
     (if q_fail w then (Inl (SFailure ''mark webhook processed''), w)
      else if i \<in> set (q_events w) then (Inr False, w)
      else (Inr True, w\<lparr>q_events := q_events w @ [i]\<rparr>))"

definition pg_GetPlan :: "(string \<Rightarrow> (string \<rightharpoonup> i64) option) \<Rightarrow> string \<Rightarrow> pg_world \<Rightarrow> serr + plan" where
  "pg_GetPlan dec i w =
     (if q_fail w then Inl (SFailure ''get plan'')
      else case map_of (q_plans w) i of
        None \<Rightarrow> Inl SNotFound
      | Some (tier, features, seats) \<Rightarrow>
          if features = [] then Inr \<lparr>pl_ID = i, pl_Tier = tier, pl_Features = Map.empty, pl_SeatIncluded = seats\<rparr>
          else case dec features of
            None \<Rightarrow> Inl (SFailure ''decode plan features'')
          | Some fs \<Rightarrow> Inr \<lparr>pl_ID = i, pl_Tier = tier, pl_Features = fs, pl_SeatIncluded = seats\<rparr>)"

definition pg_UpsertPlan :: "((string \<rightharpoonup> i64) \<Rightarrow> string) \<Rightarrow> plan \<Rightarrow> pg_world \<Rightarrow> serr option \<times> pg_world" where
  "pg_UpsertPlan enc p w =
     (if q_fail w then (Some (SFailure ''upsert plan''), w)
      else (None, w\<lparr>q_plans := AList.update (pl_ID p) (pl_Tier p, enc (pl_Features p), pl_SeatIncluded p) (q_plans w)\<rparr>))"

definition pg_ports :: "(string \<Rightarrow> (string \<rightharpoonup> i64) option) \<Rightarrow> pg_world ports" where
  "pg_ports dec = \<lparr>GetByProviderID = pg_GetByProviderID, GetBySubject = pg_GetBySubject, Upsert = pg_Upsert,
     MarkProcessed = pg_MarkProcessed, GetPlan = pg_GetPlan dec,
     cache_Lookup = (\<lambda>c w. q_cache w c), cache_Store = (\<lambda>c e w. w\<lparr>q_cache := (q_cache w)(c \<mapsto> e)\<rparr>),
     cache_Bust = (\<lambda>c w. w\<lparr>q_cache := (q_cache w)(c := None)\<rparr>)\<rparr>"

section \<open>What the services rely on\<close>

text \<open>A stored subscription moves only forward: along a legal transition, with a watermark that does
  not go back.\<close>

definition forward :: "subscription \<Rightarrow> subscription \<Rightarrow> bool" where
  "forward x y \<longleftrightarrow> CanTransition (sb_Status x) (sb_Status y) \<and> sb_ProviderUpdatedAt x \<le> sb_ProviderUpdatedAt y"

lemma CanTransition_refl [simp]: "CanTransition x x"
  by (simp add: CanTransition_def)

lemma forward_refl [simp]: "forward x x"
  by (simp add: forward_def)

lemma carry_forward_fields [simp]:
  "sb_Status (carry_forward snap x) = sb_Status x" "sb_ProviderSubID (carry_forward snap x) = sb_ProviderSubID x"
  "sb_ProviderUpdatedAt (carry_forward snap x) = sb_ProviderUpdatedAt snap"
  by (simp_all add: carry_forward_def)

text \<open>A sequence of deliveries, and how often an event was decided on.\<close>

fun handle_all :: "'s ports \<Rightarrow> provider \<Rightarrow> (string \<times> string) list \<Rightarrow> 's \<Rightarrow> (serr + result) list \<times> 's" where
  "handle_all P prov [] s = ([], s)"
| "handle_all P prov ((payload, signature) # ds) s =
     (case Handle P prov payload signature s of (r, s1) \<Rightarrow>
        (case handle_all P prov ds s1 of (rs, s2) \<Rightarrow> (r # rs, s2)))"

definition is_event :: "provider \<Rightarrow> string \<Rightarrow> string \<times> string \<Rightarrow> bool" where
  "is_event prov e d \<longleftrightarrow>
     (case VerifyAndParse prov (fst d) (snd d) of Inl _ \<Rightarrow> False | Inr evt \<Rightarrow> ev_ProviderEventID evt = e)"

fun decided :: "provider \<Rightarrow> string \<Rightarrow> (string \<times> string) list \<Rightarrow> (serr + result) list \<Rightarrow> nat" where
  "decided prov e (d # ds) (r # rs) =
     (if is_event prov e d \<and> r \<in> {Inr ResultProcessed, Inr ResultStale, Inr ResultIllegal} then 1 else 0) + decided prov e ds rs"
| "decided prov e _ _ = 0"

text \<open>What reconciling subscription \<open>i\<close> makes of the stored subscriptions.\<close>

definition reconciled ::
  "provider \<Rightarrow> string \<Rightarrow> serr + outcome \<Rightarrow> (string \<rightharpoonup> subscription) \<Rightarrow> (string \<rightharpoonup> subscription) \<Rightarrow> bool" where
  "reconciled prov i res m m' \<longleftrightarrow>
     (\<forall>j. j \<noteq> i \<longrightarrow> m' j = m j) \<and>
     (\<forall>x. m i = Some x \<longrightarrow> (\<exists>y. m' i = Some y \<and> sb_ProviderUpdatedAt x \<le> sb_ProviderUpdatedAt y)) \<and>
     (res \<in> {Inr OutcomeInSync, Inr OutcomeRepaired, Inr OutcomeAdopted} \<longrightarrow>
        (\<exists>t y. FetchSubscription prov i = Inr t \<and> m' i = Some y \<and> \<not> drifted y t)) \<and>
     (res \<in> {Inr OutcomeInSync, Inr OutcomeStale} \<longrightarrow> m' = m) \<and>
     (res = Inr OutcomeStale \<longrightarrow>
        (\<exists>t x. FetchSubscription prov i = Inr t \<and> m i = Some x \<and> sb_ProviderUpdatedAt t < sb_ProviderUpdatedAt x))"

text \<open>\<open>stored\<close> are the subscriptions by provider id, \<open>seen\<close> the processed event ids.\<close>

locale sub_store =
  fixes P :: "'s ports"
    and ok :: "'s \<Rightarrow> bool"
    and stored :: "'s \<Rightarrow> string \<rightharpoonup> subscription"
    and seen :: "'s \<Rightarrow> string set"
  assumes get: "ok s \<Longrightarrow> GetByProviderID P i s = Inr x \<Longrightarrow> stored s i = Some x"
    and get_none: "ok s \<Longrightarrow> GetByProviderID P i s = Inl SNotFound \<Longrightarrow> stored s i = None"
    and stored_id: "ok s \<Longrightarrow> stored s i = Some x \<Longrightarrow> sb_ProviderSubID x = i"
    and upsert_ok: "ok s \<Longrightarrow> Upsert P x s = (None, s') \<Longrightarrow> ok s' \<and> seen s' = seen s \<and>
      (\<exists>j. stored s' = (stored s)(sb_ProviderSubID x \<mapsto> x\<lparr>sb_ID := j\<rparr>))"
    and upsert_err: "ok s \<Longrightarrow> Upsert P x s = (Some e, s') \<Longrightarrow> s' = s"
    and mark_ok: "ok s \<Longrightarrow> MarkProcessed P i s = (Inr b, s') \<Longrightarrow> ok s' \<and> stored s' = stored s \<and>
      (b \<longleftrightarrow> i \<notin> seen s) \<and> seen s' = insert i (seen s)"
    and mark_err: "ok s \<Longrightarrow> MarkProcessed P i s = (Inl e, s') \<Longrightarrow> s' = s"
    and bust: "ok (cache_Bust P c s) = ok s" "stored (cache_Bust P c s) = stored s" "seen (cache_Bust P c s) = seen s"
begin

lemma save_cases:
  assumes "ok s" "save P r x s = (res, s')"
  obtains (saved) j where "res = Inr r" "ok s'" "seen s' = seen s" "stored s' = (stored s)(sb_ProviderSubID x \<mapsto> x\<lparr>sb_ID := j\<rparr>)"
  | (failed) e where "res = Inl e" "s' = s"
proof (cases "Upsert P x s")
  case (Pair e s1)
  show ?thesis
  proof (cases e)
    case None
    then have "res = Inr r" "s' = cache_Bust P (sb_CustomerID x) s1" using assms(2) Pair by (simp_all add: save_def)
    with upsert_ok [OF assms(1), of x s1] Pair None bust [of "sb_CustomerID x" s1] show ?thesis
      using saved by auto
  next
    case (Some e')
    then have "res = Inl e'" "s' = s1" using assms(2) Pair by (simp_all add: save_def)
    with upsert_err [OF assms(1), of x e' s1] Pair Some show ?thesis using failed by simp
  qed
qed

lemma apply_event_step:
  assumes "ok s" "apply_event P evt s = (res, s')"
  shows "ok s' \<and> seen s' = seen s \<and> res \<noteq> Inr ResultDuplicate \<and>
    (\<forall>i x. stored s i = Some x \<longrightarrow> (\<exists>y. stored s' i = Some y \<and> forward x y))"
proof (cases "GetByProviderID P (sb_ProviderSubID (ev_Subscription evt)) s")
  case (Inl e)
  show ?thesis
  proof (cases "e = SNotFound")
    case True
    then have sv: "save P ResultProcessed ((ev_Subscription evt)\<lparr>sb_Status := TargetStatus evt\<rparr>) s = (res, s')"
      using assms(2) Inl by (simp add: apply_event_def Let_def)
    from assms(1) sv show ?thesis
      by (cases rule: save_cases) (use assms(1) get_none [OF assms(1)] Inl True in auto)
  next
    case False
    then show ?thesis using assms Inl by (cases e) (auto simp: apply_event_def Let_def)
  qed
next
  case (Inr x)
  note old = get [OF assms(1) Inr]
  consider (keep) "s' = s" "res \<noteq> Inr ResultDuplicate"
    | (move) "CanTransition (sb_Status x) (TargetStatus evt)"
        "sb_ProviderUpdatedAt x \<le> sb_ProviderUpdatedAt (ev_Subscription evt)"
        "save P ResultProcessed (carry_forward (ev_Subscription evt) (x\<lparr>sb_Status := TargetStatus evt\<rparr>)) s = (res, s')"
    using assms(2) Inr by (auto simp: apply_event_def Let_def ApplyTransition_def split: if_splits)
  then show ?thesis
  proof cases
    case keep
    then show ?thesis using assms(1) by auto
  next
    case move
    from assms(1) move(3) show ?thesis
      by (cases rule: save_cases)
        (use assms(1) old move(1,2) stored_id [OF assms(1) old] in \<open>auto simp: forward_def\<close>)
  qed
qed

lemma Handle_step:
  assumes "ok s" "Handle P prov pay sg s = (res, s')"
  shows "ok s' \<and> seen s \<subseteq> seen s' \<and> (\<forall>i x. stored s i = Some x \<longrightarrow> (\<exists>y. stored s' i = Some y \<and> forward x y)) \<and>
    (\<forall>e. is_event prov e (pay, sg) \<longrightarrow> res \<in> {Inr ResultProcessed, Inr ResultStale, Inr ResultIllegal} \<longrightarrow> e \<notin> seen s \<and> e \<in> seen s') \<and>
    (\<forall>e. is_event prov e (pay, sg) \<longrightarrow> e \<in> seen s \<longrightarrow> stored s' = stored s)"
proof (cases "VerifyAndParse prov pay sg")
  case (Inl e)
  then show ?thesis using assms by (auto simp: Handle_def is_event_def)
next
  case (Inr evt)
  obtain m s1 where m: "MarkProcessed P (ev_ProviderEventID evt) s = (m, s1)" by fastforce
  show ?thesis
  proof (cases m)
    case (Inl e)
    then have "s1 = s" using mark_err [OF assms(1)] m by blast
    with Inl show ?thesis using m assms Inr by (auto simp: Handle_def is_event_def)
  next
    case (Inr first)
    note mk = mark_ok [OF assms(1) m [unfolded Inr]]
    show ?thesis
    proof (cases "first")
      case False
      then show ?thesis using mk m assms Inr \<open>VerifyAndParse prov pay sg = Inr evt\<close> by (auto simp: Handle_def is_event_def)
    next
      case True
      then have "apply_event P evt s1 = (res, s')"
        using assms(2) m Inr \<open>VerifyAndParse prov pay sg = Inr evt\<close> by (simp add: Handle_def)
      with apply_event_step [of s1 evt res s'] mk True \<open>VerifyAndParse prov pay sg = Inr evt\<close> show ?thesis
        by (auto simp: is_event_def)
    qed
  qed
qed

lemma handle_all_step:
  assumes "ok s" "handle_all P prov ds s = (rs, s')"
  shows "ok s' \<and> seen s \<subseteq> seen s' \<and> (\<forall>i x. stored s i = Some x \<longrightarrow> (\<exists>y. stored s' i = Some y \<and> forward\<^sup>*\<^sup>* x y)) \<and>
    (\<forall>e. decided prov e ds rs \<le> (if e \<in> seen s then 0 else 1))"
  using assms
proof (induction ds arbitrary: s rs)
  case (Cons d ds)
  obtain pay sg where d: "d = (pay, sg)" by (cases d)
  obtain r s1 where h: "Handle P prov pay sg s = (r, s1)" by fastforce
  obtain rs' where t: "handle_all P prov ds s1 = (rs', s')" "rs = r # rs'"
    using Cons.prems(2) d h by (auto split: prod.splits)
  note step = Handle_step [OF Cons.prems(1) h]
  then have IH: "ok s' \<and> seen s1 \<subseteq> seen s' \<and> (\<forall>i x. stored s1 i = Some x \<longrightarrow> (\<exists>y. stored s' i = Some y \<and> forward\<^sup>*\<^sup>* x y)) \<and>
    (\<forall>e. decided prov e ds rs' \<le> (if e \<in> seen s1 then 0 else 1))"
    using Cons.IH [OF _ t(1)] by blast
  have "\<forall>i x. stored s i = Some x \<longrightarrow> (\<exists>y. stored s' i = Some y \<and> forward\<^sup>*\<^sup>* x y)"
    using step IH by (meson converse_rtranclp_into_rtranclp)
  moreover have "decided prov e (d # ds) rs \<le> (if e \<in> seen s then 0 else 1)" for e
  proof -
    have "decided prov e ds rs' \<le> (if e \<in> seen s1 then 0 else 1)" using IH by blast
    then show ?thesis using step d t(2) by (auto split: if_splits)
  qed
  ultimately show ?case using step IH by blast
qed auto

lemma ReconcileOne_step:
  assumes "ok s" "\<And>t. FetchSubscription prov i = Inr t \<Longrightarrow> sb_ProviderSubID t = i" "ReconcileOne P prov i s = (res, s')"
  shows "ok s' \<and> seen s' = seen s \<and> reconciled prov i res (stored s) (stored s')"
proof (cases "FetchSubscription prov i")
  case (Inl e)
  then show ?thesis using assms by (auto simp: reconciled_def ReconcileOne_def)
next
  case (Inr t)
  note t = Inr assms(2) [OF Inr]
  show ?thesis
  proof (cases "GetByProviderID P i s")
    case (Inl e)
    show ?thesis
    proof (cases "e = SNotFound")
      case True
      then have "save P OutcomeAdopted t s = (res, s')" using assms(3) t Inl by (simp add: ReconcileOne_def)
      with assms(1) show ?thesis
        by (cases rule: save_cases) (use assms(1) t get_none [OF assms(1)] Inl True in \<open>auto simp: reconciled_def drifted_def\<close>)
    next
      case False
      then show ?thesis using assms t Inl by (cases e) (auto simp: reconciled_def ReconcileOne_def)
    qed
  next
    case (Inr x)
    note old = get [OF assms(1) Inr]
    show ?thesis
    proof (cases "sb_ProviderUpdatedAt t < sb_ProviderUpdatedAt x \<or> \<not> drifted x t")
      case True
      then show ?thesis using assms(1,3) t Inr old by (auto simp: reconciled_def ReconcileOne_def split: if_splits)
    next
      case False
      then have "save P OutcomeRepaired t s = (res, s')" using assms(3) t Inr by (simp add: ReconcileOne_def)
      with assms(1) show ?thesis
        by (cases rule: save_cases) (use assms(1) t old False in \<open>auto simp: reconciled_def drifted_def\<close>)
    qed
  qed
qed

end

lemma CanTransition_Canceled: "CanTransition Canceled s \<longleftrightarrow> s = Canceled"
  by (auto simp: CanTransition_def transitions_def)

lemma forward_path:
  "forward\<^sup>*\<^sup>* x y \<Longrightarrow> sb_ProviderUpdatedAt x \<le> sb_ProviderUpdatedAt y \<and>
     (sb_Status x = Canceled \<longrightarrow> sb_Status y = Canceled) \<and>
     (\<lambda>a b. CanTransition a b)\<^sup>*\<^sup>* (sb_Status x) (sb_Status y)"
proof (induction rule: rtranclp_induct)
  case (step y z)
  then show ?case
    by (auto simp: forward_def CanTransition_Canceled intro: rtranclp.rtrancl_into_rtrancl)
qed simp

section \<open>The two stores\<close>

definition mem_sub_ok :: "mem_world \<Rightarrow> bool" where
  "mem_sub_ok w \<longleftrightarrow> (\<forall>i x. m_byProv w i = Some x \<longrightarrow> sb_ProviderSubID x = i)"

lemma mem_Upsert_stored:
  assumes "mem_sub_ok w" "mem_Upsert x w = (None, w')"
  shows "mem_sub_ok w' \<and> m_events w' = m_events w \<and> (\<exists>j. m_byProv w' = (m_byProv w)(sb_ProviderSubID x \<mapsto> x\<lparr>sb_ID := j\<rparr>))"
proof -
  have "m_byProv w' = (m_byProv w)(sb_ProviderSubID x \<mapsto> x\<lparr>sb_ID := sb_ID x\<rparr>)" "m_events w' = m_events w"
    using assms(2) by (auto simp: mem_Upsert_def)
  moreover then have "mem_sub_ok w'" using assms(1) by (simp add: mem_sub_ok_def)
  ultimately show ?thesis by blast
qed

interpretation mem_store: sub_store mem_ports mem_sub_ok m_byProv m_events
proof (unfold_locales, goal_cases)
  case (4 s x s')
  then show ?case using mem_Upsert_stored by (simp add: mem_ports_def)
next
  case (6 s i b s')
  then show ?case by (auto simp: mem_ports_def mem_MarkProcessed_def mem_sub_ok_def split: if_splits)
qed (simp_all add: mem_ports_def mem_lookup_def mem_sub_ok_def mem_Upsert_def mem_MarkProcessed_def ent_Bust_def
     split: option.splits if_splits)

definition pg_stored :: "pg_world \<Rightarrow> string \<rightharpoonup> subscription" where
  "pg_stored w i = find_first (\<lambda>r. sb_ProviderSubID r = i) (q_subs w)"

definition pg_seen :: "pg_world \<Rightarrow> string set" where
  "pg_seen w = set (q_events w)"

definition pg_ok :: "pg_world \<Rightarrow> bool" where
  "pg_ok w \<longleftrightarrow> distinct (map sb_ProviderSubID (q_subs w))"

lemma find_first_append: "find_first Q (xs @ ys) = (case find_first Q xs of None \<Rightarrow> find_first Q ys | Some x \<Rightarrow> Some x)"
  by (induction xs) auto

lemma find_first_map_upd:
  "find_first (\<lambda>r. sb_ProviderSubID r = i) (map (\<lambda>r. if sb_ProviderSubID r = sb_ProviderSubID sub then sub\<lparr>sb_ID := sb_ID r\<rparr> else r) rs) =
     (if i = sb_ProviderSubID sub then map_option (\<lambda>r. sub\<lparr>sb_ID := sb_ID r\<rparr>) (find_first (\<lambda>r. sb_ProviderSubID r = i) rs)
      else find_first (\<lambda>r. sb_ProviderSubID r = i) rs)"
  by (induction rs) auto

lemma pg_Upsert_stored:
  assumes "pg_ok w" "pg_Upsert x w = (None, w')"
  shows "pg_ok w' \<and> pg_seen w' = pg_seen w \<and> (\<exists>j. pg_stored w' = (pg_stored w)(sb_ProviderSubID x \<mapsto> x\<lparr>sb_ID := j\<rparr>))"
proof (cases "\<exists>r \<in> set (q_subs w). sb_ProviderSubID r = sb_ProviderSubID x")
  case True
  let ?f = "\<lambda>r. if sb_ProviderSubID r = sb_ProviderSubID x then x\<lparr>sb_ID := sb_ID r\<rparr> else r"
  have w': "w' = w\<lparr>q_subs := map ?f (q_subs w)\<rparr>" using assms(2) True by (auto simp: pg_Upsert_def split: if_splits)
  have ids: "map sb_ProviderSubID (map ?f (q_subs w)) = map sb_ProviderSubID (q_subs w)" by simp
  obtain r where r: "find_first (\<lambda>r. sb_ProviderSubID r = sb_ProviderSubID x) (q_subs w) = Some r"
    using True find_first_exists [of "q_subs w" "\<lambda>r. sb_ProviderSubID r = sb_ProviderSubID x"] by auto
  have "pg_stored w' = (pg_stored w)(sb_ProviderSubID x \<mapsto> x\<lparr>sb_ID := sb_ID r\<rparr>)"
    by (rule ext) (simp add: pg_stored_def w' find_first_map_upd r)
  moreover have "pg_ok w'" "pg_seen w' = pg_seen w" using assms(1) ids by (simp_all add: pg_ok_def pg_seen_def w' del: map_map)
  ultimately show ?thesis by blast
next
  case False
  then have w': "w' = w\<lparr>q_subs := q_subs w @ [x]\<rparr>" using assms(2) by (auto simp: pg_Upsert_def split: if_splits)
  have "find_first (\<lambda>r. sb_ProviderSubID r = sb_ProviderSubID x) (q_subs w) = None"
    using False by (simp add: find_first_None)
  then have "pg_stored w' = (pg_stored w)(sb_ProviderSubID x \<mapsto> x\<lparr>sb_ID := sb_ID x\<rparr>)"
    by (intro ext) (auto simp: pg_stored_def w' find_first_append split: option.splits)
  moreover have "pg_ok w'" "pg_seen w' = pg_seen w" using assms(1) False by (auto simp: pg_ok_def pg_seen_def w')
  ultimately show ?thesis by blast
qed

lemma pg_stored_cache [simp]: "pg_stored (w\<lparr>q_cache := c\<rparr>) = pg_stored w"
  by (rule ext) (simp add: pg_stored_def)

interpretation pg_store: sub_store "pg_ports dec" pg_ok pg_stored pg_seen for dec
proof (unfold_locales, goal_cases)
  case (3 s i x)
  then show ?case using find_first_SomeD by (fastforce simp: pg_stored_def)
next
  case (4 s x s')
  then show ?case using pg_Upsert_stored by (simp add: pg_ports_def)
next
  case (6 s i b s')
  then show ?case by (auto simp: pg_ports_def pg_MarkProcessed_def pg_ok_def pg_stored_def pg_seen_def split: if_splits)
qed (simp_all add: pg_ports_def pg_GetByProviderID_def pg_stored_def pg_Upsert_def pg_MarkProcessed_def pg_seen_def pg_ok_def
     split: option.splits if_splits)

section \<open>The cache never changes an answer\<close>

lemma mem_ports_ops [simp]:
  "Upsert mem_ports = mem_Upsert" "MarkProcessed mem_ports = mem_MarkProcessed" "cache_Lookup mem_ports = ent_Get"
  "cache_Store mem_ports = ent_Set" "cache_Bust mem_ports = ent_Bust"
  by (simp_all add: mem_ports_def)

text \<open>Every cached entitlement is what the store would derive.\<close>

definition coherent :: "mem_world \<Rightarrow> bool" where
  "coherent w \<longleftrightarrow> (\<forall>c e. m_cache w c = Some e \<longrightarrow> derive mem_ports c w = Inr e)"

definition derive_from :: "subscription option \<Rightarrow> (string \<rightharpoonup> plan) \<Rightarrow> serr + entitlement" where
  "derive_from sub plans =
     (case sub of None \<Rightarrow> Inl SNotFound
      | Some x \<Rightarrow> (case plans (sb_PlanID x) of None \<Rightarrow> Inl SNotFound | Some p \<Rightarrow> Inr (DeriveEntitlement x p)))"

lemma derive_mem: "derive mem_ports c w = derive_from (m_bySubj w c) (m_plans w)"
  by (simp add: derive_def derive_from_def mem_ports_def mem_lookup_def split: option.splits)

lemma save_coherent: "coherent w \<Longrightarrow> coherent (snd (save mem_ports r x w))"
  by (auto simp: coherent_def derive_mem save_def mem_Upsert_def ent_Bust_def)

lemma mark_coherent: "coherent w \<Longrightarrow> MarkProcessed mem_ports i w = (r, w') \<Longrightarrow> coherent w'"
  by (auto simp: coherent_def derive_mem mem_MarkProcessed_def split: if_splits)

lemma apply_event_coherent: "coherent w \<Longrightarrow> coherent (snd (apply_event mem_ports evt w))"
  using save_coherent by (auto simp: apply_event_def Let_def split: sum.splits serr.splits option.splits)

lemma Handle_coherent: "coherent w \<Longrightarrow> coherent (snd (Handle mem_ports prov pay sg w))"
proof (cases "VerifyAndParse prov pay sg")
  case (Inr evt)
  assume w: "coherent w"
  obtain m w1 where m: "MarkProcessed mem_ports (ev_ProviderEventID evt) w = (m, w1)" by fastforce
  show ?thesis
    using mark_coherent [OF w m] apply_event_coherent Inr m by (auto simp: Handle_def split: sum.splits)
qed (simp add: Handle_def)

lemma ReconcileOne_coherent: "coherent w \<Longrightarrow> coherent (snd (ReconcileOne mem_ports prov i w))"
  using save_coherent by (auto simp: ReconcileOne_def split: sum.splits serr.splits)

lemma Entitlement_coherent:
  assumes "coherent w"
  shows "fst (Entitlement mem_ports c w) = derive mem_ports c w" "coherent (snd (Entitlement mem_ports c w))"
proof -
  have hit: "ent_Get c w = Some e \<Longrightarrow> derive mem_ports c w = Inr e" for e
    using assms by (auto simp: coherent_def ent_Get_def split: if_splits)
  show "fst (Entitlement mem_ports c w) = derive mem_ports c w"
    using hit by (auto simp: Entitlement_def split: option.splits sum.splits)
  have "coherent (ent_Set c e w)" if "derive mem_ports c w = Inr e" for e
    using assms that by (auto simp: coherent_def ent_Set_def derive_mem)
  then show "coherent (snd (Entitlement mem_ports c w))"
    using assms by (auto simp: Entitlement_def split: option.splits sum.splits)
qed

text \<open>What happens to a running service, one call at a time.\<close>

datatype sub_op = ODeliver provider string string | OReconcile provider string | ORead string | ODown bool

fun sub_exec :: "sub_op \<Rightarrow> mem_world \<Rightarrow> mem_world" where
  "sub_exec (ODeliver prov pay sg) w = snd (Handle mem_ports prov pay sg w)"
| "sub_exec (OReconcile prov i) w = snd (ReconcileOne mem_ports prov i w)"
| "sub_exec (ORead c) w = snd (Entitlement mem_ports c w)"
| "sub_exec (ODown down) w = SetDown down w"

definition sub_run :: "plan list \<Rightarrow> sub_op list \<Rightarrow> mem_world" where
  "sub_run plans ops = fold sub_exec ops (fold SeedPlan plans sub_mem_New)"

lemma sub_exec_coherent: "coherent w \<Longrightarrow> coherent (sub_exec op w)"
  by (cases op) (simp_all add: Handle_coherent ReconcileOne_coherent Entitlement_coherent,
      simp add: coherent_def derive_mem SetDown_def)

lemma sub_run_coherent: "coherent (sub_run plans ops)"
proof -
  have "m_cache (fold SeedPlan plans w) = m_cache w" for w
    by (induction plans arbitrary: w) (simp_all add: SeedPlan_def)
  then have "coherent (fold SeedPlan plans sub_mem_New)" by (simp add: coherent_def sub_mem_New_def)
  then have "coherent (fold sub_exec ops (fold SeedPlan plans sub_mem_New))"
    by (induction ops arbitrary: plans rule: rev_induct) (simp_all add: sub_exec_coherent)
  then show ?thesis by (simp add: sub_run_def)
qed

lemma Check_eq:
  assumes "coherent w"
  shows "fst (Check mem_ports used c f w) =
    (case derive mem_ports c w of
       Inl err \<Rightarrow> Inl err
     | Inr e \<Rightarrow> (let d = Evaluate f e in
         if \<not> d_Allow d \<or> sint (d_Limit d) < 0 then Inr d
         else case used c f of
           Inl err \<Rightarrow> Inl err
         | Inr n \<Rightarrow> if sint n \<ge> sint (d_Limit d) then Inr \<lparr>d_Allow = False, d_Reason = ReasonQuotaExceeded, d_Limit = d_Limit d\<rparr> else Inr d))"
proof -
  obtain r w' where r: "Entitlement mem_ports c w = (r, w')" by fastforce
  then have "r = derive mem_ports c w" using Entitlement_coherent(1) [OF assms, of c] by simp
  with r show ?thesis by (auto simp: Check_def Let_def split: sum.splits)
qed

section \<open>Properties\<close>

text \<open>From one stored map to a later one.\<close>

definition orderly ::
  "(string \<rightharpoonup> subscription) \<Rightarrow> (string \<rightharpoonup> subscription) \<Rightarrow> bool" where
  "orderly m m' \<longleftrightarrow> (\<forall>i x. m i = Some x \<longrightarrow> (\<exists>y. m' i = Some y \<and>
     sb_ProviderUpdatedAt x \<le> sb_ProviderUpdatedAt y \<and> CanTransition\<^sup>*\<^sup>* (sb_Status x) (sb_Status y) \<and>
     (sb_Status x = Canceled \<longrightarrow> sb_Status y = Canceled)))"

text \<open>C25. Webhooks are idempotent and ordered, over the in-memory store and over the Postgres store,
  whatever the database refuses: in any sequence of deliveries each event id is decided at most
  once (and not at all if it was seen before), no stored subscription is lost, its watermark never
  goes back, its status moves only along legal transitions, and a canceled subscription stays
  canceled.\<close>

theorem webhook_history:
  assumes "mem_sub_ok w" "pg_ok v" "handle_all mem_ports prov ds w = (rs, w')" "handle_all (pg_ports dec) prov ds v = (qs, v')"
  shows "orderly (m_byProv w) (m_byProv w') \<and> orderly (pg_stored v) (pg_stored v') \<and>
    (\<forall>e. decided prov e ds rs \<le> (if e \<in> m_events w then 0 else 1) \<and>
         decided prov e ds qs \<le> (if e \<in> set (q_events v) then 0 else 1))"
proof -
  note M = mem_store.handle_all_step [OF assms(1,3)] and Q = pg_store.handle_all_step [OF assms(2,4)]
  have "orderly (m_byProv w) (m_byProv w')" "orderly (pg_stored v) (pg_stored v')"
    unfolding orderly_def using M Q forward_path by meson+
  with M Q show ?thesis by (simp add: pg_seen_def)
qed

definition demo_sub :: subscription where
  "demo_sub = \<lparr>sb_ID = ''i'', sb_CustomerID = ''u'', sb_ProviderSubID = ''p'', sb_PlanID = ''pro'', sb_Status = Active,
     sb_SeatCount = 1, sb_CurrentPeriodStart = 0, sb_CurrentPeriodEnd = 9, sb_CancelAtPeriodEnd = False, sb_TrialEnd = 0,
     sb_ProviderUpdatedAt = 5\<rparr>"

text \<open>Signature \<open>a\<close> is the creation, \<open>c\<close> the cancellation, \<open>s\<close> a stale update.\<close>

definition demo_events :: "string \<rightharpoonup> event" where
  "demo_events = [''a'' \<mapsto> \<lparr>ev_ProviderEventID = ''e1'', ev_Type = SubscriptionCreated, ev_Subscription = demo_sub, ev_OccurredAt = 5\<rparr>,
     ''c'' \<mapsto> \<lparr>ev_ProviderEventID = ''e2'', ev_Type = SubscriptionCanceled,
        ev_Subscription = demo_sub\<lparr>sb_ProviderUpdatedAt := 7\<rparr>, ev_OccurredAt = 7\<rparr>,
     ''s'' \<mapsto> \<lparr>ev_ProviderEventID = ''e3'', ev_Type = SubscriptionUpdated,
        ev_Subscription = demo_sub\<lparr>sb_ProviderUpdatedAt := 6\<rparr>, ev_OccurredAt = 6\<rparr>]"

definition demo_prov :: provider where
  "demo_prov = fake_provider demo_events Map.empty"

definition demo_pg :: pg_world where
  "demo_pg = \<lparr>q_subs = [], q_events = [], q_plans = [], q_fail = False, q_cache = Map.empty\<rparr>"

theorem webhook_history_witness:
  "fst (handle_all mem_ports demo_prov [([], ''a''), ([], ''c''), ([], ''c''), ([], ''s'')] sub_mem_New) =
     [Inr ResultProcessed, Inr ResultProcessed, Inr ResultDuplicate, Inr ResultStale] \<and>
   decided demo_prov ''e2'' [([], ''a''), ([], ''c''), ([], ''c''), ([], ''s'')]
     (fst (handle_all mem_ports demo_prov [([], ''a''), ([], ''c''), ([], ''c''), ([], ''s'')] sub_mem_New)) \<le> 1"
proof -
  let ?ds = "[([], ''a''), ([], ''c''), ([], ''c''), ([], ''s'')]"
  obtain rs w' where w: "handle_all mem_ports demo_prov ?ds sub_mem_New = (rs, w')" by fastforce
  obtain qs v' where v: "handle_all (pg_ports Map.empty) demo_prov ?ds demo_pg = (qs, v')" by fastforce
  have "mem_sub_ok sub_mem_New" "pg_ok demo_pg"
    by (simp_all add: mem_sub_ok_def sub_mem_New_def pg_ok_def demo_pg_def)
  from webhook_history [OF this w v] have "decided demo_prov ''e2'' ?ds rs \<le> 1" by (simp add: sub_mem_New_def)
  moreover have "fst (handle_all mem_ports demo_prov ?ds sub_mem_New) =
     [Inr ResultProcessed, Inr ResultProcessed, Inr ResultDuplicate, Inr ResultStale]"
    by (simp add: demo_prov_def fake_provider_def demo_events_def demo_sub_def Handle_def apply_event_def mem_ports_def sub_mem_New_def
        mem_MarkProcessed_def mem_lookup_def save_def mem_Upsert_def ent_Bust_def TargetStatus_def ApplyTransition_def
        CanTransition_def transitions_def carry_forward_def Let_def)
  ultimately show ?thesis using w by simp
qed


definition demo_plan :: plan where
  "demo_plan = \<lparr>pl_ID = ''pro'', pl_Tier = ''pro'', pl_Features = [''api'' \<mapsto> 10, ''exports'' \<mapsto> - 1], pl_SeatIncluded = 3\<rparr>"


text \<open>
  A read that is interleaved with a delivery leaves a stale entitlement behind: the entitlement is
  derived, the cancellation is stored and the cache busted, then the old entitlement is cached.
\<close>

lemma stale_read_race:
  "\<exists>w e. coherent w \<and> derive mem_ports ''u'' w = Inr e \<and> en_Active e \<and>
     (let w1 = snd (Handle mem_ports demo_prov [] ''c'' w); w2 = ent_Set ''u'' e w1 in
      derive mem_ports ''u'' w2 \<noteq> Inr e \<and> fst (Entitlement mem_ports ''u'' w2) = Inr e)"
proof -
  let ?w = "sub_run [demo_plan] [ODeliver demo_prov [] ''a'']"
  let ?e = "DeriveEntitlement demo_sub demo_plan"
  have w: "m_bySubj ?w = [''u'' \<mapsto> demo_sub]" "m_byProv ?w = [''p'' \<mapsto> demo_sub]" "m_plans ?w = [''pro'' \<mapsto> demo_plan]"
    "m_events ?w = {''e1''}" "m_cache ?w = Map.empty" "m_down ?w = False"
    by (simp_all add: sub_run_def SeedPlan_def sub_mem_New_def demo_prov_def fake_provider_def demo_events_def Handle_def apply_event_def
        mem_ports_def mem_MarkProcessed_def mem_lookup_def save_def mem_Upsert_def ent_Bust_def TargetStatus_def demo_plan_def Let_def)
      (simp_all add: demo_sub_def fun_eq_iff)
  have "derive mem_ports ''u'' ?w = Inr ?e"
    using w by (simp add: derive_mem derive_from_def demo_sub_def)
  moreover have "en_Active ?e" by (simp add: DeriveEntitlement_def StatusGrantsAccess_def demo_sub_def)
  moreover
  let ?w1 = "snd (Handle mem_ports demo_prov [] ''c'' ?w)"
  have w1: "m_bySubj ?w1 ''u'' = Some (demo_sub\<lparr>sb_ProviderUpdatedAt := 7, sb_Status := Canceled\<rparr>)" "m_plans ?w1 = [''pro'' \<mapsto> demo_plan]"
    "m_down ?w1 = False"
    using w by (simp_all add: demo_prov_def fake_provider_def demo_events_def Handle_def apply_event_def mem_ports_def
        mem_MarkProcessed_def mem_lookup_def save_def mem_Upsert_def ent_Bust_def TargetStatus_def ApplyTransition_def
        CanTransition_def transitions_def carry_forward_def Let_def demo_sub_def)
  then have "derive mem_ports ''u'' (ent_Set ''u'' ?e ?w1) \<noteq> Inr ?e" "fst (Entitlement mem_ports ''u'' (ent_Set ''u'' ?e ?w1)) = Inr ?e"
    by (simp_all add: derive_mem derive_from_def ent_Set_def demo_sub_def DeriveEntitlement_def StatusGrantsAccess_def
        Entitlement_def ent_Get_def)
  ultimately show ?thesis using sub_run_coherent by (auto simp: Let_def)
qed

text \<open>C27. Reconciliation repairs drift: if the provider answers for the subscription it was asked about,
  then over either store an outcome other than \<open>stale_skip\<close> leaves the stored status, plan, seats and
  cancellation flag equal to the provider's; \<open>stale_skip\<close> is given only to a provider snapshot older
  than the stored one and changes nothing; no watermark goes back, and no other subscription and no
  event mark is touched.\<close>

theorem ReconcileOne_repairs:
  assumes "\<And>t. FetchSubscription prov i = Inr t \<Longrightarrow> sb_ProviderSubID t = i"
    and "mem_sub_ok w" "ReconcileOne mem_ports prov i w = (res, w')"
    and "pg_ok v" "ReconcileOne (pg_ports dec) prov i v = (qres, v')"
  shows "reconciled prov i res (m_byProv w) (m_byProv w') \<and> m_events w' = m_events w \<and>
    reconciled prov i qres (pg_stored v) (pg_stored v') \<and> set (q_events v') = set (q_events v)"
  using mem_store.ReconcileOne_step [OF assms(2,1,3)] pg_store.ReconcileOne_step [OF assms(4,1,5)]
  by (simp add: pg_seen_def)

theorem ReconcileOne_repairs_witness:
  "let prov = fake_provider Map.empty [''p'' \<mapsto> demo_sub\<lparr>sb_Status := PastDue\<rparr>] in
   \<exists>y. m_byProv (snd (ReconcileOne mem_ports prov ''p'' sub_mem_New)) ''p'' = Some y \<and> sb_Status y = PastDue"
proof -
  let ?t = "demo_sub\<lparr>sb_Status := PastDue\<rparr>"
  let ?prov = "fake_provider Map.empty [''p'' \<mapsto> ?t]"
  have hyp: "FetchSubscription ?prov ''p'' = Inr t \<Longrightarrow> sb_ProviderSubID t = ''p''" for t
    by (auto simp: fake_provider_def demo_sub_def)
  obtain r w' where m: "ReconcileOne mem_ports ?prov ''p'' sub_mem_New = (r, w')" by fastforce
  obtain q v' where p: "ReconcileOne (pg_ports Map.empty) ?prov ''p'' demo_pg = (q, v')" by fastforce
  have "mem_sub_ok sub_mem_New" "pg_ok demo_pg"
    by (simp_all add: mem_sub_ok_def sub_mem_New_def pg_ok_def demo_pg_def)
  note all = ReconcileOne_repairs [OF hyp this(1) m this(2) p]
  have "r = Inr OutcomeAdopted"
    using m by (auto simp: ReconcileOne_def save_def fake_provider_def mem_ports_def mem_lookup_def sub_mem_New_def mem_Upsert_def)
  with all have "\<exists>y. m_byProv w' ''p'' = Some y \<and> \<not> drifted y ?t" by (auto simp: reconciled_def fake_provider_def)
  with m show ?thesis by (auto simp: Let_def drifted_def)
qed

text \<open>
  The in-memory store does not mirror the Postgres store for a customer with two subscriptions: it
  answers with the one written last, Postgres with the one updated last at the provider.
\<close>

lemma stores_differ_by_subject:
  "let old = demo_sub\<lparr>sb_ID := ''j'', sb_ProviderSubID := ''q'', sb_ProviderUpdatedAt := 1\<rparr>
   in GetBySubject mem_ports ''u'' (snd (mem_Upsert old (snd (mem_Upsert demo_sub sub_mem_New)))) = Inr old \<and>
      GetBySubject (pg_ports dec) ''u'' (snd (pg_Upsert old (snd (pg_Upsert demo_sub demo_pg)))) = Inr demo_sub"
  by (simp add: mem_ports_def pg_ports_def mem_Upsert_def pg_Upsert_def mem_lookup_def pg_GetBySubject_def demo_sub_def demo_pg_def)

end
