(* ===== verification/Metering.thy ===== *)
theory Metering
  imports Subscription
begin

text \<open>
  \<open>subscription-core/usage\<close>: the metered counters, the monthly usage keys, and the flusher that
  drains counters into a durable ledger. Amounts are 64-bit and wrap. A map is ranged over in an
  order given as an argument; the ledger is reached through its interface.
\<close>

section \<open>Counters and the meter\<close>

type_synonym counter = "string \<rightharpoonup> i64"

definition mc_Incr :: "string \<Rightarrow> i64 \<Rightarrow> counter \<Rightarrow> i64 \<times> counter" where
  "mc_Incr key n c = (let v = get_or 0 c key + n in (v, c(key \<mapsto> v)))"

definition mc_Value :: "string \<Rightarrow> counter \<Rightarrow> i64" where
  "mc_Value key c = get_or 0 c key"

definition mc_Snapshot :: "counter \<Rightarrow> counter" where
  "mc_Snapshot c = c"

text \<open>\<open>Format("2006-01")\<close> of a year and a month.\<close>

definition pad :: "nat \<Rightarrow> string \<Rightarrow> string" where
  "pad n s = replicate (n - length s) (CHR ''0'') @ s"

definition period :: "nat \<Rightarrow> nat \<Rightarrow> string" where
  "period y m = pad 4 (dec_of_nat y) @ ''-'' @ pad 2 (dec_of_nat m)"

definition usage_key :: "nat \<times> nat \<Rightarrow> string \<Rightarrow> string \<Rightarrow> string" where
  "usage_key now subject feature =
     ''usage:'' @ subject @ '':'' @ feature @ '':'' @ period (fst now) (snd now)"

definition meter_Record :: "nat \<times> nat \<Rightarrow> string \<Rightarrow> string \<Rightarrow> i64 \<Rightarrow> counter \<Rightarrow> i64 \<times> counter" where
  "meter_Record now subject feature n c = mc_Incr (usage_key now subject feature) n c"

definition meter_Used :: "nat \<times> nat \<Rightarrow> string \<Rightarrow> string \<Rightarrow> counter \<Rightarrow> i64" where
  "meter_Used now subject feature c = mc_Value (usage_key now subject feature) c"

section \<open>The flusher\<close>

record usage_entry =
  le_Subject :: string
  le_Feature :: string
  le_Period :: string
  le_Amount :: i64

definition parseUsageKey :: "string \<Rightarrow> usage_entry option" where
  "parseUsageKey key =
     (case cut_prefix key ''usage:'' of
        None \<Rightarrow> None
      | Some rest \<Rightarrow>
         (let parts = split_on (CHR '':'') rest; n = length parts in
          if n < 3 then None
          else
            let prd = parts ! (n - 1); feature = parts ! (n - 2);
                subject = join_with (CHR '':'') (take (n - 2) parts)
            in if subject = [] \<or> feature = [] \<or> prd = [] then None
               else Some \<lparr>le_Subject = subject, le_Feature = feature, le_Period = prd, le_Amount = 0\<rparr>))"

text \<open>\<open>'l\<close> is the ledger; \<open>app\<close> is \<open>LedgerSink.Append\<close>.\<close>

record 'l flusher =
  fl_flushed :: counter
  fl_sink :: 'l

fun flush_keys ::
  "(usage_entry \<Rightarrow> 'l \<Rightarrow> serr option \<times> 'l) \<Rightarrow> counter \<Rightarrow> string list \<Rightarrow> nat \<Rightarrow> 'l flusher \<Rightarrow> (nat \<times> serr option) \<times> 'l flusher" where
  "flush_keys app snap [] written f = ((written, None), f)"
| "flush_keys app snap (key # keys) written f =
     (let total = get_or 0 snap key; delta = total - get_or 0 (fl_flushed f) key in
      if delta = 0 then flush_keys app snap keys written f
      else case parseUsageKey key of
        None \<Rightarrow> flush_keys app snap keys written f
      | Some entry \<Rightarrow>
         (case app (entry\<lparr>le_Amount := delta\<rparr>) (fl_sink f) of
            (Some err, l) \<Rightarrow> ((written, Some err), f\<lparr>fl_sink := l\<rparr>)
          | (None, l) \<Rightarrow>
              flush_keys app snap keys (Suc written)
                (f\<lparr>fl_flushed := (fl_flushed f)(key \<mapsto> total), fl_sink := l\<rparr>)))"

definition FlushOnce ::
  "(usage_entry \<Rightarrow> 'l \<Rightarrow> serr option \<times> 'l) \<Rightarrow> string list \<Rightarrow> counter \<Rightarrow> 'l flusher \<Rightarrow> (nat \<times> serr option) \<times> 'l flusher" where
  "FlushOnce app order c f = flush_keys app (mc_Snapshot c) order 0 f"

text \<open>The logging ledger of \<open>subscriptiond\<close>, as the entries it has logged.\<close>

definition logging_Append :: "usage_entry \<Rightarrow> usage_entry list \<Rightarrow> serr option \<times> usage_entry list" where
  "logging_Append e l = (None, l @ [e])"

section \<open>Keys\<close>

lemma colon_not_digit: "CHR '':'' \<notin> set (dec_of_nat n)"
proof
  assume "CHR '':'' \<in> set (dec_of_nat n)"
  from dec_of_nat_digits [OF this] show False by (simp add: digit_val_def)
qed

lemma period_no_colon: "CHR '':'' \<notin> set (period y m)" "period y m \<noteq> []"
  using colon_not_digit by (auto simp: period_def pad_def)

lemma split_on_append:
  "c \<notin> set b \<Longrightarrow> split_on c (a @ c # b) = split_on c a @ [b]"
proof (induction a)
  case Nil
  then show ?case by (simp add: split_on_no_sep)
next
  case (Cons x a)
  then show ?case by (cases "split_on c a") (auto split: list.splits)
qed

lemma parse_built:
  assumes "subject \<noteq> []" "feature \<noteq> []" "CHR '':'' \<notin> set feature" "prd \<noteq> []" "CHR '':'' \<notin> set prd"
  shows "parseUsageKey (''usage:'' @ subject @ '':'' @ feature @ '':'' @ prd) =
    Some \<lparr>le_Subject = subject, le_Feature = feature, le_Period = prd, le_Amount = 0\<rparr>"
proof -
  let ?rest = "subject @ '':'' @ feature @ '':'' @ prd"
  have cut: "cut_prefix (''usage:'' @ ?rest) ''usage:'' = Some ?rest" by (rule cut_prefix_append)
  have "split_on (CHR '':'') ?rest = split_on (CHR '':'') (subject @ CHR '':'' # feature) @ [prd]"
    using split_on_append [OF assms(5), of "subject @ CHR '':'' # feature"] by simp
  then have parts: "split_on (CHR '':'') ?rest = split_on (CHR '':'') subject @ [feature, prd]"
    using split_on_append [OF assms(3), of subject] by simp
  have len: "0 < length (split_on (CHR '':'') subject)" by simp
  show ?thesis
    unfolding parseUsageKey_def cut option.case parts using assms(1,2,4) len
    by (simp add: Let_def nth_append join_split)
qed

text \<open>The entry of a key determines the key.\<close>

lemma join_with_snoc: "xs \<noteq> [] \<Longrightarrow> join_with c (xs @ [y]) = join_with c xs @ c # y"
proof (induction xs)
  case (Cons x xs)
  then show ?case by (cases xs) auto
qed simp

lemma join_with_snoc2: "xs \<noteq> [] \<Longrightarrow> join_with c (xs @ [y, z]) = join_with c xs @ c # y @ c # z"
  using join_with_snoc [of "xs @ [y]" c z] by (simp add: join_with_snoc)

lemma parse_key:
  assumes "parseUsageKey key = Some e"
  shows "key = ''usage:'' @ le_Subject e @ '':'' @ le_Feature e @ '':'' @ le_Period e \<and> le_Amount e = 0"
proof -
  obtain rest where rest: "cut_prefix key ''usage:'' = Some rest"
    using assms by (cases "cut_prefix key ''usage:''") (auto simp: parseUsageKey_def)
  then have key: "key = ''usage:'' @ rest" by (auto simp: cut_prefix_def has_prefix_iff split: if_splits)
  let ?p = "split_on (CHR '':'') rest" let ?n = "length ?p"
  have n: "3 \<le> ?n" and e: "e = \<lparr>le_Subject = join_with (CHR '':'') (take (?n - 2) ?p), le_Feature = ?p ! (?n - 2),
      le_Period = ?p ! (?n - 1), le_Amount = 0\<rparr>"
    using assms rest by (auto simp: parseUsageKey_def Let_def split: if_splits)
  have split: "?p = (take (?n - 2) ?p @ [?p ! (?n - 2)]) @ [?p ! (?n - 1)]"
  proof -
    have "?p = take (?n - 1) ?p @ [?p ! (?n - 1)]" using n take_Suc_conv_app_nth [of "?n - 1" ?p] by simp
    moreover have "take (?n - 1) ?p = take (?n - 2) ?p @ [?p ! (?n - 2)]"
      using n take_Suc_conv_app_nth [of "?n - 2" ?p] by (simp add: Suc_diff_Suc numeral_2_eq_2)
    ultimately show ?thesis by simp
  qed
  have "rest = join_with (CHR '':'') ((take (?n - 2) ?p @ [?p ! (?n - 2)]) @ [?p ! (?n - 1)])"
    using join_split [of "CHR '':''" rest] split by simp
  also have "\<dots> = le_Subject e @ '':'' @ le_Feature e @ '':'' @ le_Period e"
    using n join_with_snoc2 [of "take (?n - 2) ?p" "CHR '':''" "?p ! (?n - 2)" "?p ! (?n - 1)"] by (simp add: e)
  finally show ?thesis using key e by simp
qed

text \<open>A colon in a feature moves usage to another customer's key.\<close>

lemma usage_key_collision: "usage_key now ''a'' ''b:c'' = usage_key now ''a:b'' ''c''"
  by (simp add: usage_key_def)

section \<open>What the ledger promises\<close>

definition entry_key :: "usage_entry \<Rightarrow> string" where
  "entry_key e = ''usage:'' @ le_Subject e @ '':'' @ le_Feature e @ '':'' @ le_Period e"

text \<open>What the ledger has charged to a key.\<close>

definition billed :: "usage_entry list \<Rightarrow> string \<Rightarrow> i64" where
  "billed es k = (\<Sum>e \<leftarrow> filter (\<lambda>e. entry_key e = k) es. le_Amount e)"

lemma billed_snoc: "billed (es @ [e]) k = billed es k + (if entry_key e = k then le_Amount e else 0)"
  by (simp add: billed_def)

locale ledger_sink =
  fixes app :: "usage_entry \<Rightarrow> 'l \<Rightarrow> serr option \<times> 'l"
    and entries :: "'l \<Rightarrow> usage_entry list"
  assumes app_ok: "app e l = (None, l') \<Longrightarrow> entries l' = entries l @ [e]"
    and app_err: "app e l = (Some err, l') \<Longrightarrow> entries l' = entries l"
begin

definition accounted :: "'l flusher \<Rightarrow> bool" where
  "accounted f \<longleftrightarrow> (\<forall>k. billed (entries (fl_sink f)) k = get_or 0 (fl_flushed f) k)"

text \<open>After a flush a key is charged what it was, or all of its counter; without an error every
  usage key ranged over is charged all of its counter.\<close>

lemma flush_keys_accounted:
  assumes "accounted f" "flush_keys app snap keys n f = ((m, err), f')"
  shows "accounted f' \<and> (\<forall>k. get_or 0 (fl_flushed f') k \<in> {get_or 0 (fl_flushed f) k, get_or 0 snap k}) \<and>
    (err = None \<longrightarrow> (\<forall>k \<in> set keys. parseUsageKey k \<noteq> None \<longrightarrow> get_or 0 (fl_flushed f') k = get_or 0 snap k))"
  using assms
proof (induction keys arbitrary: n f)
  case (Cons k keys)
  let ?d = "get_or 0 snap k - get_or 0 (fl_flushed f) k"
  consider (same) "?d = 0" | (other) "?d \<noteq> 0" "parseUsageKey k = None" | (charge) e where "?d \<noteq> 0" "parseUsageKey k = Some e"
    by (cases "parseUsageKey k") auto
  then show ?case
  proof cases
    case same
    then have "flush_keys app snap keys n f = ((m, err), f')" using Cons.prems(2) by simp
    from Cons.IH [OF Cons.prems(1) this] same show ?thesis by fastforce
  next
    case other
    then have "flush_keys app snap keys n f = ((m, err), f')" using Cons.prems(2) by simp
    from Cons.IH [OF Cons.prems(1) this] other show ?thesis by auto
  next
    case (charge e)
    then have ek: "entry_key (e\<lparr>le_Amount := x\<rparr>) = k" for x using parse_key [OF charge(2)] by (simp add: entry_key_def)
    obtain r l where r: "app (e\<lparr>le_Amount := ?d\<rparr>) (fl_sink f) = (r, l)" by fastforce
    show ?thesis
    proof (cases r)
      case None
      let ?f = "f\<lparr>fl_flushed := (fl_flushed f)(k \<mapsto> get_or 0 snap k), fl_sink := l\<rparr>"
      have "accounted ?f"
        using Cons.prems(1) app_ok [OF r [unfolded None]] ek by (simp add: accounted_def billed_snoc)
      moreover have "flush_keys app snap keys (Suc n) ?f = ((m, err), f')" using Cons.prems(2) charge r None by simp
      ultimately have "accounted f' \<and> (\<forall>j. get_or 0 (fl_flushed f') j \<in> {get_or 0 (fl_flushed ?f) j, get_or 0 snap j}) \<and>
          (err = None \<longrightarrow> (\<forall>j \<in> set keys. parseUsageKey j \<noteq> None \<longrightarrow> get_or 0 (fl_flushed f') j = get_or 0 snap j))"
        by (rule Cons.IH)
      then show ?thesis by (auto split: if_splits)
    next
      case (Some er)
      then show ?thesis using Cons.prems charge r app_err [OF r [unfolded Some]] by (auto simp: accounted_def)
    qed
  qed
qed auto

end

interpretation logging_ledger: ledger_sink logging_Append "\<lambda>l. l"
  by unfold_locales (simp_all add: logging_Append_def)

section \<open>Runs\<close>

text \<open>Usage is recorded and flushed in any order; a flush ranges over the counter's keys.\<close>

datatype meter_op = MRecord "nat \<times> nat" string string i64 | MFlush "string list"

fun meter_exec :: "(usage_entry \<Rightarrow> 'l \<Rightarrow> serr option \<times> 'l) \<Rightarrow> meter_op \<Rightarrow> counter \<times> 'l flusher \<Rightarrow> counter \<times> 'l flusher" where
  "meter_exec app (MRecord now subject feature n) (c, f) = (snd (meter_Record now subject feature n c), f)"
| "meter_exec app (MFlush order) (c, f) = (c, snd (FlushOnce app order c f))"

definition meter_run :: "(usage_entry \<Rightarrow> 'l \<Rightarrow> serr option \<times> 'l) \<Rightarrow> 'l \<Rightarrow> meter_op list \<Rightarrow> counter \<times> 'l flusher" where
  "meter_run app l ops = fold (meter_exec app) ops (Map.empty, \<lparr>fl_flushed = Map.empty, fl_sink = l\<rparr>)"

lemma meter_run_snoc: "meter_run app l (ops @ [op]) = meter_exec app op (meter_run app l ops)"
  by (simp add: meter_run_def)

context ledger_sink
begin

lemma meter_run_accounted:
  assumes "entries l = []"
  shows "accounted (snd (meter_run app l ops)) \<and>
    (\<forall>k. \<exists>n \<le> length ops. get_or 0 (fl_flushed (snd (meter_run app l ops))) k = mc_Value k (fst (meter_run app l (take n ops))))"
proof (induction ops rule: rev_induct)
  case Nil
  then show ?case using assms by (simp add: meter_run_def accounted_def billed_def mc_Value_def)
next
  case (snoc op ops)
  obtain c f where cf: "meter_run app l ops = (c, f)" by fastforce
  show ?case
  proof (cases op)
    case (MRecord now s ft n)
    have "\<exists>n \<le> length (ops @ [op]). get_or 0 (fl_flushed f) k = mc_Value k (fst (meter_run app l (take n (ops @ [op]))))" for k
    proof -
      obtain n where "n \<le> length ops" "get_or 0 (fl_flushed f) k = mc_Value k (fst (meter_run app l (take n ops)))"
        using snoc cf by auto
      then show ?thesis by (auto intro!: exI [of _ n])
    qed
    with MRecord snoc cf show ?thesis by (simp add: meter_run_snoc)
  next
    case (MFlush order)
    obtain m err f' where fl: "flush_keys app (mc_Snapshot c) order 0 f = ((m, err), f')" by (metis surj_pair)
    have acc: "accounted f" using snoc cf by simp
    note K = flush_keys_accounted [OF acc fl]
    have "\<exists>n \<le> length (ops @ [op]). get_or 0 (fl_flushed f') k = mc_Value k (fst (meter_run app l (take n (ops @ [op]))))" for k
    proof -
      obtain n where n: "n \<le> length ops" "get_or 0 (fl_flushed f) k = mc_Value k (fst (meter_run app l (take n ops)))"
        using snoc cf by auto
      have "mc_Value k (fst (meter_run app l (take (length ops) (ops @ [op])))) = get_or 0 (mc_Snapshot c) k"
        using cf by (simp add: mc_Value_def mc_Snapshot_def)
      moreover have "get_or 0 (fl_flushed f') k = get_or 0 (fl_flushed f) k \<or> get_or 0 (fl_flushed f') k = get_or 0 (mc_Snapshot c) k"
        using K by blast
      ultimately show ?thesis using n by (metis le_SucI length_append_singleton take_append diff_is_0_eq take0 append_Nil2 le_refl)
    qed
    with MFlush K cf fl show ?thesis by (simp add: meter_run_snoc FlushOnce_def)
  qed
qed

end

section \<open>Properties\<close>

text \<open>C28. Usage is billed exactly once. Whatever the ledger refuses, at every moment each usage key has
  been charged exactly the value its counter had at some earlier moment (so nothing is charged
  twice, also when the counter wraps), and a flush that reports no error charges every usage key of
  the counter up to its current value. A ledger that reports an error must not have kept the
  entry.\<close>

theorem usage_billed_once:
  assumes "ledger_sink app entries" "entries l = []"
    and "meter_run app l ops = (c, f)"
  shows "(\<forall>k. \<exists>n \<le> length ops. billed (entries (fl_sink f)) k = mc_Value k (fst (meter_run app l (take n ops)))) \<and>
    (\<forall>order m f' k. enumerates order c \<longrightarrow> FlushOnce app order c f = ((m, None), f') \<longrightarrow>
       k \<in> dom c \<longrightarrow> parseUsageKey k \<noteq> None \<longrightarrow> billed (entries (fl_sink f')) k = mc_Value k c)"
proof -
  note A = ledger_sink.meter_run_accounted [OF assms(1,2), of ops]
  have acc: "ledger_sink.accounted entries f" using A assms(3) by simp
  have "billed (entries (fl_sink f')) k = mc_Value k c"
    if "enumerates order c" "FlushOnce app order c f = ((m, None), f')" "k \<in> dom c" "parseUsageKey k \<noteq> None" for order m f' k
    using ledger_sink.flush_keys_accounted [OF assms(1) acc that(2) [unfolded FlushOnce_def mc_Snapshot_def]]
      enumerates_set [OF that(1)] that(3,4)
    by (auto simp: ledger_sink.accounted_def [OF assms(1)] mc_Value_def)
  moreover have "\<exists>n \<le> length ops. billed (entries (fl_sink f)) k = mc_Value k (fst (meter_run app l (take n ops)))" for k
    using A assms(3) by (simp add: ledger_sink.accounted_def [OF assms(1)])
  ultimately show ?thesis by blast
qed

text \<open>A ledger that refuses once.\<close>

definition flaky_Append :: "usage_entry \<Rightarrow> bool \<times> usage_entry list \<Rightarrow> serr option \<times> bool \<times> usage_entry list" where
  "flaky_Append e l = (if fst l then (Some (SFailure ''ledger''), (False, snd l)) else (None, (False, snd l @ [e])))"

interpretation flaky_ledger: ledger_sink flaky_Append snd
  by unfold_locales (auto simp: flaky_Append_def split: if_splits)

theorem usage_billed_once_witness:
  "\<exists>n \<le> 4. billed (snd (fl_sink (snd (meter_run flaky_Append (True, [])
       [MRecord (2026, 7) ''u'' ''api'' 5, MFlush [usage_key (2026, 7) ''u'' ''api''],
        MFlush [usage_key (2026, 7) ''u'' ''api''], MRecord (2026, 7) ''u'' ''api'' 2])))) (usage_key (2026, 7) ''u'' ''api'') =
     mc_Value (usage_key (2026, 7) ''u'' ''api'') (fst (meter_run flaky_Append (True, [])
       (take n [MRecord (2026, 7) ''u'' ''api'' 5, MFlush [usage_key (2026, 7) ''u'' ''api''],
        MFlush [usage_key (2026, 7) ''u'' ''api''], MRecord (2026, 7) ''u'' ''api'' 2])))"
proof -
  let ?ops = "[MRecord (2026, 7) ''u'' ''api'' 5, MFlush [usage_key (2026, 7) ''u'' ''api''],
        MFlush [usage_key (2026, 7) ''u'' ''api''], MRecord (2026, 7) ''u'' ''api'' 2]"
  obtain c f where cf: "meter_run flaky_Append (True, []) ?ops = (c, f)" by fastforce
  have "snd (True, []) = ([] :: usage_entry list)" by simp
  moreover have "length ?ops = 4" by simp
  ultimately show ?thesis
    using usage_billed_once [OF flaky_ledger.ledger_sink_axioms _ cf] unfolding cf by (metis snd_conv)
qed

text \<open>
  What was flushed is kept in memory only: a new flusher over counters that outlive the process
  charges them a second time.
\<close>

lemma restart_bills_again:
  assumes "k = usage_key (2026, 7) ''u'' ''api''" "meter_run logging_Append [] [MRecord (2026, 7) ''u'' ''api'' 5, MFlush [k]] = (c, f)"
  shows "billed (fl_sink (snd (FlushOnce logging_Append [k] c (f\<lparr>fl_flushed := Map.empty\<rparr>)))) k = 10 \<and> mc_Value k c = 5"
proof -
  obtain e where e: "parseUsageKey k = Some e" "entry_key e = k"
    using parse_built [of "''u''" "''api''" "period 2026 7"] period_no_colon [of 2026 7] assms(1)
    by (auto simp: usage_key_def entry_key_def)
  have ek: "entry_key (e\<lparr>le_Amount := x\<rparr>) = k" for x using e(2) by (simp add: entry_key_def)
  have "c = [k \<mapsto> 5]" "f = \<lparr>fl_flushed = [k \<mapsto> 5], fl_sink = [e\<lparr>le_Amount := 5\<rparr>]\<rparr>"
    using assms(2) e(1)
    by (auto simp: meter_run_def meter_Record_def mc_Incr_def assms(1) [symmetric] FlushOnce_def mc_Snapshot_def logging_Append_def Let_def)
  then show ?thesis using e(1) by (simp add: FlushOnce_def mc_Snapshot_def logging_Append_def Let_def billed_def ek mc_Value_def)
qed

text \<open>Usage keys survive the trip through the counter: the key the meter writes for a subject and a
  feature is read back by the flusher as exactly that subject, feature and month, also when the
  subject contains colons, provided neither is empty and the feature has no colon; and every key
  the flusher accepts is the key of the entry it reads.\<close>

theorem usage_key_round_trip:
  "(subject \<noteq> [] \<longrightarrow> feature \<noteq> [] \<longrightarrow> CHR '':'' \<notin> set feature \<longrightarrow>
      parseUsageKey (usage_key now subject feature) =
        Some \<lparr>le_Subject = subject, le_Feature = feature, le_Period = period (fst now) (snd now), le_Amount = 0\<rparr>) \<and>
   (\<forall>key e. parseUsageKey key = Some e \<longrightarrow> key = ''usage:'' @ le_Subject e @ '':'' @ le_Feature e @ '':'' @ le_Period e)"
  using parse_built [of subject feature "period (fst now) (snd now)"] period_no_colon parse_key
  by (auto simp: usage_key_def)

theorem usage_key_round_trip_witness:
  "parseUsageKey (usage_key (2026, 7) ''org:1'' ''api'') =
     Some \<lparr>le_Subject = ''org:1'', le_Feature = ''api'', le_Period = period 2026 7, le_Amount = 0\<rparr>"
  using usage_key_round_trip [of "''org:1''" "''api''" "(2026, 7)"] by simp

end
