(* ===== verification/Livescale.thy ===== *)
theory Livescale
  imports Http Replication Complex_Main "HOL-Library.AList"
begin

text \<open>
  \<open>livescale-control-plane\<close>, the state it keeps: playback tokens (\<open>internal/token\<close>), the
  distinct-account estimator (\<open>internal/concurrency/hll.go\<close>), the per-account device limits
  (\<open>internal/concurrency/manager.go\<close>) and the sessions (\<open>internal/session\<close>). The MAC and the seeded
  hash functions are arguments. Maps are association lists with distinct keys, so that their length
  can be computed.
\<close>

section \<open>Tokens\<close>

datatype token_err = ErrMalformed | ErrBadSig | ErrTokenExpired

record token_claims =
  tk_AccountID :: string
  tk_DeviceLimit :: i64
  tk_Exp :: i64
  tk_AssetScope :: string

definition sign :: "(string \<Rightarrow> string \<Rightarrow> string) \<Rightarrow> string \<Rightarrow> string \<Rightarrow> string" where
  "sign mac key payload = hex_encode (mac key payload)"

definition token_payload :: "token_claims \<Rightarrow> string" where
  "token_payload c =
     join_with (CHR ''.'') [tk_AccountID c, itoa (sint (tk_DeviceLimit c)), itoa (sint (tk_Exp c)), tk_AssetScope c]"

definition token_Sign :: "(string \<Rightarrow> string \<Rightarrow> string) \<Rightarrow> string \<Rightarrow> token_claims \<Rightarrow> string" where
  "token_Sign mac key c = token_payload c @ ''.'' @ sign mac key (token_payload c)"

definition parse_claims :: "string \<Rightarrow> token_claims option" where
  "parse_claims payload =
     (case split_on (CHR ''.'') payload of
        [acct, limit, expiry, scope] \<Rightarrow>
          (case parse_int64 limit of
             None \<Rightarrow> None
           | Some l \<Rightarrow>
              (case parse_int64 expiry of
                 None \<Rightarrow> None
               | Some x \<Rightarrow> Some \<lparr>tk_AccountID = acct, tk_DeviceLimit = l, tk_Exp = x, tk_AssetScope = scope\<rparr>))
      | _ \<Rightarrow> None)"

text \<open>\<open>unix\<close> is \<open>now.Unix()\<close>.\<close>

definition token_Verify :: "(string \<Rightarrow> string \<Rightarrow> string) \<Rightarrow> string \<Rightarrow> string \<Rightarrow> int \<Rightarrow> token_err + token_claims" where
  "token_Verify mac key tok unix =
     (case last_index (CHR ''.'') tok of
        None \<Rightarrow> Inl ErrMalformed
      | Some i \<Rightarrow>
          if i = 0 \<or> i = length tok - 1 then Inl ErrMalformed
          else
            let payload = take i tok; gotSig = drop (Suc i) tok in
            if gotSig \<noteq> sign mac key payload then Inl ErrBadSig
            else case parse_claims payload of
              None \<Rightarrow> Inl ErrMalformed
            | Some c \<Rightarrow>
                if tk_AccountID c = [] \<or> sint (tk_DeviceLimit c) < 1 then Inl ErrMalformed
                else if unix \<ge> sint (tk_Exp c) then Inl ErrTokenExpired
                else Inr c)"

section \<open>The estimator\<close>

text \<open>\<open>bits.LeadingZeros64\<close>.\<close>

definition clz64 :: "u64 \<Rightarrow> nat" where
  "clz64 w = length (takeWhile (\<lambda>i. \<not> bit w (63 - i)) [0..<64])"

definition NewEstimator :: "u32 list" where
  "NewEstimator = replicate (2 ^ 14) 0"

definition hll_rank :: "u64 \<Rightarrow> u32" where
  "hll_rank h = (let w = or (push_bit 14 h) (push_bit 13 1) in of_nat (clz64 w + 1))"

definition hll_Add :: "(string \<Rightarrow> u64) \<Rightarrow> string \<Rightarrow> u32 list \<Rightarrow> u32 list" where
  "hll_Add hash key regs =
     (let h = hash key; idx = unat (drop_bit 50 h); rank = hll_rank h; cur = regs ! idx
      in if rank \<le> cur then regs else regs[idx := rank])"

definition hll_Merge :: "u32 list \<Rightarrow> u32 list \<Rightarrow> u32 list" where
  "hll_Merge e o' = map (\<lambda>i. let r = o' ! i; cur = e ! i in if r \<le> cur then cur else r) [0..<length e]"

definition hll_alpha :: "real \<Rightarrow> real" where
  "hll_alpha m =
     (if m \<ge> 128 then 0.7213 / (1 + 1.079 / m) else if m \<ge> 64 then 0.709 else if m \<ge> 32 then 0.697 else 0.5)"

text \<open>The estimate with exact reals for \<open>float64\<close>.\<close>

definition hll_Estimate :: "u32 list \<Rightarrow> real" where
  "hll_Estimate regs =
     (let m = real (length regs);
          s = (\<Sum>r \<leftarrow> regs. 1 / real (unat (push_bit (unat r) (1 :: u64))));
          zeros = real (length (filter (\<lambda>r. r = 0) regs));
          est = hll_alpha m * m * m / s
      in if est \<le> 2.5 * m \<and> zeros > 0 then m * ln (m / zeros) else est)"

section \<open>Device limits\<close>

record device =
  dv_expiresAt :: int
  dv_sessionID :: string

record dev_account =
  da_limit :: int
  da_devices :: "(string \<times> device) list"

record manager =
  mg_shards :: "(string \<times> dev_account) list list"
  mg_hll :: "u32 list"

definition shard_count :: "int \<Rightarrow> nat" where
  "shard_count n = nat (if n < 1 \<or> and n (n - 1) \<noteq> 0 then 256 else n)"

definition mgr_New :: "int \<Rightarrow> manager" where
  "mgr_New shardCount = \<lparr>mg_shards = replicate (shard_count shardCount) [], mg_hll = NewEstimator\<rparr>"

definition reapExpiredLocked :: "int \<Rightarrow> dev_account \<Rightarrow> dev_account" where
  "reapExpiredLocked nowNano a = a\<lparr>da_devices := filter (\<lambda>(i, d). \<not> dv_expiresAt d \<le> nowNano) (da_devices a)\<rparr>"

text \<open>\<open>Admit\<close> under the shard's lock: the session, whether admitted, and whether the device is new.\<close>

definition shard_Admit ::
  "string \<Rightarrow> string \<Rightarrow> int \<Rightarrow> int \<Rightarrow> int \<Rightarrow> string \<Rightarrow> (string \<times> dev_account) list \<Rightarrow> (string \<times> bool \<times> bool) \<times> (string \<times> dev_account) list" where
  "shard_Admit accountID deviceID limit nowNano expiresAtNano newSessionID s =
     (let a0 = (case map_of s accountID of None \<Rightarrow> \<lparr>da_limit = limit, da_devices = []\<rparr> | Some a \<Rightarrow> a);
          a = reapExpiredLocked nowNano (a0\<lparr>da_limit := limit\<rparr>)
      in case map_of (da_devices a) deviceID of
           Some d \<Rightarrow>
             ((dv_sessionID d, True, False),
              AList.update accountID (a\<lparr>da_devices := AList.update deviceID (d\<lparr>dv_expiresAt := expiresAtNano\<rparr>) (da_devices a)\<rparr>) s)
         | None \<Rightarrow>
             if int (length (da_devices a)) \<ge> da_limit a then (([], False, False), AList.update accountID a s)
             else ((newSessionID, True, True),
                   AList.update accountID
                     (a\<lparr>da_devices := AList.update deviceID \<lparr>dv_expiresAt = expiresAtNano, dv_sessionID = newSessionID\<rparr> (da_devices a)\<rparr>) s))"

definition mgr_at :: "(string \<Rightarrow> u64) \<Rightarrow> string \<Rightarrow> manager \<Rightarrow> nat" where
  "mgr_at hash accountID m = mask_index (hash accountID) (length (mg_shards m))"

definition mgr_Admit ::
  "(string \<Rightarrow> u64) \<Rightarrow> (string \<Rightarrow> u64) \<Rightarrow> string \<Rightarrow> string \<Rightarrow> int \<Rightarrow> int \<Rightarrow> int \<Rightarrow> string \<Rightarrow> manager \<Rightarrow> (string \<times> bool) \<times> manager" where
  "mgr_Admit hash hllHash accountID deviceID limit nowNano expiresAtNano newSessionID m =
     (case at_idx (mgr_at hash accountID m) (shard_Admit accountID deviceID limit nowNano expiresAtNano newSessionID) (mg_shards m) of
        ((sid, admitted, new), ss) \<Rightarrow>
          ((sid, admitted),
           m\<lparr>mg_shards := ss, mg_hll := (if new then hll_Add hllHash accountID (mg_hll m) else mg_hll m)\<rparr>))"

definition shard_Refresh :: "string \<Rightarrow> string \<Rightarrow> int \<Rightarrow> (string \<times> dev_account) list \<Rightarrow> bool \<times> (string \<times> dev_account) list" where
  "shard_Refresh accountID deviceID expiresAtNano s =
     (case map_of s accountID of
        None \<Rightarrow> (False, s)
      | Some a \<Rightarrow>
         (case map_of (da_devices a) deviceID of
            None \<Rightarrow> (False, s)
          | Some d \<Rightarrow>
              (True, AList.update accountID
                 (a\<lparr>da_devices := AList.update deviceID (d\<lparr>dv_expiresAt := expiresAtNano\<rparr>) (da_devices a)\<rparr>) s)))"

definition mgr_Refresh :: "(string \<Rightarrow> u64) \<Rightarrow> string \<Rightarrow> string \<Rightarrow> int \<Rightarrow> manager \<Rightarrow> bool \<times> manager" where
  "mgr_Refresh hash accountID deviceID expiresAtNano m =
     (case at_idx (mgr_at hash accountID m) (shard_Refresh accountID deviceID expiresAtNano) (mg_shards m) of
        (r, ss) \<Rightarrow> (r, m\<lparr>mg_shards := ss\<rparr>))"

definition shard_Release :: "string \<Rightarrow> string \<Rightarrow> (string \<times> dev_account) list \<Rightarrow> (string \<times> dev_account) list" where
  "shard_Release accountID deviceID s =
     (case map_of s accountID of
        None \<Rightarrow> s
      | Some a \<Rightarrow>
         (let ds = AList.delete deviceID (da_devices a) in
          if ds = [] then AList.delete accountID s else AList.update accountID (a\<lparr>da_devices := ds\<rparr>) s))"

definition mgr_Release :: "(string \<Rightarrow> u64) \<Rightarrow> string \<Rightarrow> string \<Rightarrow> manager \<Rightarrow> manager" where
  "mgr_Release hash accountID deviceID m =
     m\<lparr>mg_shards := snd (at_idx (mgr_at hash accountID m) (\<lambda>s. ((), shard_Release accountID deviceID s)) (mg_shards m))\<rparr>"

text \<open>\<open>ReapExpired\<close> with the number of devices reclaimed.\<close>

definition shard_Reap :: "int \<Rightarrow> (string \<times> dev_account) list \<Rightarrow> (string \<times> dev_account) list" where
  "shard_Reap nowNano s =
     filter (\<lambda>(i, a). da_devices a \<noteq> []) (map (\<lambda>(i, a). (i, reapExpiredLocked nowNano a)) s)"

definition expired_count :: "int \<Rightarrow> (string \<times> dev_account) list \<Rightarrow> nat" where
  "expired_count nowNano s = (\<Sum>(i, a) \<leftarrow> s. length (filter (\<lambda>(j, d). dv_expiresAt d \<le> nowNano) (da_devices a)))"

definition mgr_ReapExpired :: "int \<Rightarrow> manager \<Rightarrow> nat \<times> manager" where
  "mgr_ReapExpired nowNano m =
     (sum_list (map (expired_count nowNano) (mg_shards m)), m\<lparr>mg_shards := map (shard_Reap nowNano) (mg_shards m)\<rparr>)"

definition CountFor :: "(string \<Rightarrow> u64) \<Rightarrow> string \<Rightarrow> manager \<Rightarrow> nat" where
  "CountFor hash accountID m =
     (case map_of (mg_shards m ! mgr_at hash accountID m) accountID of None \<Rightarrow> 0 | Some a \<Rightarrow> length (da_devices a))"

section \<open>Sessions\<close>

record session =
  ss_AccountID :: string
  ss_DeviceID :: string
  ss_AssetID :: string
  ss_ExpiresAt :: int

type_synonym session_store = "(string \<times> session) list list"

definition NewMemory :: "int \<Rightarrow> session_store" where
  "NewMemory shardCount = replicate (shard_count shardCount) []"

definition ses_at :: "(string \<Rightarrow> u64) \<Rightarrow> string \<Rightarrow> session_store \<Rightarrow> nat" where
  "ses_at hash sid st = mask_index (hash sid) (length st)"

definition ses_Put :: "(string \<Rightarrow> u64) \<Rightarrow> string \<Rightarrow> session \<Rightarrow> session_store \<Rightarrow> session_store" where
  "ses_Put hash sid sess st = snd (at_idx (ses_at hash sid st) (\<lambda>m. ((), AList.update sid sess m)) st)"

definition ses_Extend :: "(string \<Rightarrow> u64) \<Rightarrow> string \<Rightarrow> int \<Rightarrow> session_store \<Rightarrow> session option \<times> session_store" where
  "ses_Extend hash sid newExpiry st =
     at_idx (ses_at hash sid st)
       (\<lambda>m. case map_of m sid of
          None \<Rightarrow> (None, m)
        | Some sess \<Rightarrow> (let sess' = sess\<lparr>ss_ExpiresAt := newExpiry\<rparr> in (Some sess', AList.update sid sess' m))) st"

definition ses_Get :: "(string \<Rightarrow> u64) \<Rightarrow> string \<Rightarrow> int \<Rightarrow> session_store \<Rightarrow> session option" where
  "ses_Get hash sid nowNano st =
     (case map_of (st ! ses_at hash sid st) sid of
        None \<Rightarrow> None
      | Some sess \<Rightarrow> if ss_ExpiresAt sess \<le> nowNano then None else Some sess)"

definition ses_Delete :: "(string \<Rightarrow> u64) \<Rightarrow> string \<Rightarrow> session_store \<Rightarrow> session option \<times> session_store" where
  "ses_Delete hash sid st =
     at_idx (ses_at hash sid st)
       (\<lambda>m. case map_of m sid of None \<Rightarrow> (None, m) | Some sess \<Rightarrow> (Some sess, AList.delete sid m)) st"

definition ses_ReapExpired :: "int \<Rightarrow> session_store \<Rightarrow> session list \<times> session_store" where
  "ses_ReapExpired nowNano st =
     (concat (map (\<lambda>m. map snd (filter (\<lambda>(i, s). ss_ExpiresAt s \<le> nowNano) m)) st),
      map (filter (\<lambda>(i, s). \<not> ss_ExpiresAt s \<le> nowNano)) st)"

section \<open>One account at a time\<close>

text \<open>What the manager keeps for an account, and what each operation means for it. The refinement
  says that an account is served as if it were alone.\<close>

definition devices_of :: "(string \<Rightarrow> u64) \<Rightarrow> string \<Rightarrow> manager \<Rightarrow> (string \<times> device) list" where
  "devices_of hash a m =
     (case map_of (mg_shards m ! mgr_at hash a m) a of None \<Rightarrow> [] | Some x \<Rightarrow> da_devices x)"

definition live :: "int \<Rightarrow> (string \<times> device) list \<Rightarrow> (string \<times> device) list" where
  "live nowNano ds = filter (\<lambda>(i, d). \<not> dv_expiresAt d \<le> nowNano) ds"

datatype mgr_op =
  MAdmit string string int int int string
| MRefresh string string int
| MRelease string string
| MReap int

fun mgr_exec :: "(string \<Rightarrow> u64) \<Rightarrow> (string \<Rightarrow> u64) \<Rightarrow> mgr_op \<Rightarrow> manager \<Rightarrow> manager" where
  "mgr_exec hash hh (MAdmit a d limit now expiry sid) m = snd (mgr_Admit hash hh a d limit now expiry sid m)"
| "mgr_exec hash hh (MRefresh a d expiry) m = snd (mgr_Refresh hash a d expiry m)"
| "mgr_exec hash hh (MRelease a d) m = mgr_Release hash a d m"
| "mgr_exec hash hh (MReap now) m = snd (mgr_ReapExpired now m)"

fun dev_exec :: "string \<Rightarrow> mgr_op \<Rightarrow> (string \<times> device) list \<Rightarrow> (string \<times> device) list" where
  "dev_exec a (MAdmit b d limit now expiry sid) ds =
     (if b \<noteq> a then ds
      else case map_of (live now ds) d of
        Some x \<Rightarrow> AList.update d (x\<lparr>dv_expiresAt := expiry\<rparr>) (live now ds)
      | None \<Rightarrow>
          if int (length (live now ds)) \<ge> limit then live now ds
          else AList.update d \<lparr>dv_expiresAt = expiry, dv_sessionID = sid\<rparr> (live now ds))"
| "dev_exec a (MRefresh b d expiry) ds =
     (if b \<noteq> a then ds
      else case map_of ds d of None \<Rightarrow> ds | Some x \<Rightarrow> AList.update d (x\<lparr>dv_expiresAt := expiry\<rparr>) ds)"
| "dev_exec a (MRelease b d) ds = (if b \<noteq> a then ds else AList.delete d ds)"
| "dev_exec a (MReap now) ds = live now ds"

definition mgr_ok :: "manager \<Rightarrow> bool" where
  "mgr_ok m \<longleftrightarrow> 0 < length (mg_shards m) \<and> length (mg_shards m) < 2 ^ 64 \<and>
     (\<forall>s \<in> set (mg_shards m). distinct (map fst s))"

lemma reap_devices [simp]: "da_devices (reapExpiredLocked now a) = live now (da_devices a)" "da_limit (reapExpiredLocked now a) = da_limit a"
  by (simp_all add: reapExpiredLocked_def live_def)

lemma update_map_of [simp]: "map_of (AList.update k v al) = (map_of al)(k \<mapsto> v)"
  by (rule update_conv')

lemma delete_map_of [simp]: "map_of (AList.delete k al) = (map_of al)(k := None)"
  by (rule delete_conv')

lemma length_update: "length (AList.update k v al) = (if map_of al k = None then Suc (length al) else length al)"
  by (induction al) auto

text \<open>An operation on the shard of \<open>b\<close> that only touches \<open>b\<close>.\<close>

definition held :: "(string \<times> dev_account) list \<Rightarrow> string \<Rightarrow> (string \<times> device) list" where
  "held s a = (case map_of s a of None \<Rightarrow> [] | Some x \<Rightarrow> da_devices x)"

lemma devices_held: "devices_of hash a m = held (mg_shards m ! mgr_at hash a m) a"
  by (simp add: devices_of_def held_def)

lemma mgr_at_less: "mgr_ok m \<Longrightarrow> mgr_at hash c m < length (mg_shards m)"
  using mask_index_less by (simp add: mgr_ok_def mgr_at_def)

lemma shard_distinct: "mgr_ok m \<Longrightarrow> i < length (mg_shards m) \<Longrightarrow> distinct (map fst (mg_shards m ! i))"
  by (simp add: mgr_ok_def)

lemma one_account:
  assumes m: "mgr_ok m"
    and ok: "\<And>s. distinct (map fst s) \<Longrightarrow> distinct (map fst (snd (f s)))"
    and other: "\<And>s c. c \<noteq> b \<Longrightarrow> map_of (snd (f s)) c = map_of s c"
    and own: "\<And>s. held (snd (f s)) b = g (held s b)"
    and m': "mg_shards m' = snd (at_idx (mgr_at hash b m) f (mg_shards m))"
  shows "mgr_ok m' \<and> devices_of hash a m' = (if b \<noteq> a then devices_of hash a m else g (devices_of hash a m))"
proof -
  have len: "length (mg_shards m') = length (mg_shards m)" using m' by simp
  then have at: "mgr_at hash c m' = mgr_at hash c m" for c by (simp add: mgr_at_def)
  have nth: "mg_shards m' ! j = (if j = mgr_at hash b m then snd (f (mg_shards m ! j)) else mg_shards m ! j)" for j
    using at_idx_nth [OF mgr_at_less [OF m, of hash b], of f j] m' by auto
  have "distinct (map fst (mg_shards m' ! j))" if "j < length (mg_shards m)" for j
    using ok [OF shard_distinct [OF m that]] shard_distinct [OF m that] by (auto simp: nth)
  then have "mgr_ok m'" using m len by (auto simp: mgr_ok_def in_set_conv_nth)
  moreover have "held (mg_shards m' ! mgr_at hash a m) a = held (mg_shards m ! mgr_at hash a m) a" if "b \<noteq> a"
    using other that by (simp add: nth held_def)
  ultimately show ?thesis
    using own [of "mg_shards m ! mgr_at hash a m"] by (cases "b = a") (auto simp: devices_held at nth)
qed

lemma map_of_Reap:
  assumes "distinct (map fst s)"
  shows "map_of (shard_Reap now s) a =
    (case map_of s a of None \<Rightarrow> None | Some x \<Rightarrow> if live now (da_devices x) = [] then None else Some (reapExpiredLocked now x))"
  using assms by (induction s) (auto simp: shard_Reap_def split: option.splits dest!: map_of_SomeD, force+)

lemma distinct_Reap: "distinct (map fst s) \<Longrightarrow> distinct (map fst (shard_Reap now s))"
proof -
  have "map fst (map (\<lambda>(i, a). (i, reapExpiredLocked now a)) s) = map fst s" by (induction s) auto
  then show "distinct (map fst s) \<Longrightarrow> distinct (map fst (shard_Reap now s))"
    unfolding shard_Reap_def by (metis distinct_map_filter)
qed

lemma shard_Admit_facts:
  "distinct (map fst s) \<Longrightarrow> distinct (map fst (snd (shard_Admit b d limit now expiry sid s)))"
  "c \<noteq> b \<Longrightarrow> map_of (snd (shard_Admit b d limit now expiry sid s)) c = map_of s c"
  "held (snd (shard_Admit b d limit now expiry sid s)) b = dev_exec b (MAdmit b d limit now expiry sid) (held s b)"
  by (auto simp: shard_Admit_def Let_def distinct_update held_def live_def split: option.splits)

lemma shard_Refresh_facts:
  "distinct (map fst s) \<Longrightarrow> distinct (map fst (snd (shard_Refresh b d expiry s)))"
  "c \<noteq> b \<Longrightarrow> map_of (snd (shard_Refresh b d expiry s)) c = map_of s c"
  "held (snd (shard_Refresh b d expiry s)) b = dev_exec b (MRefresh b d expiry) (held s b)"
  by (auto simp: shard_Refresh_def distinct_update held_def split: option.splits)

lemma shard_Release_facts:
  "distinct (map fst s) \<Longrightarrow> distinct (map fst (shard_Release b d s))"
  "c \<noteq> b \<Longrightarrow> map_of (shard_Release b d s) c = map_of s c"
  "held (shard_Release b d s) b = dev_exec b (MRelease b d) (held s b)"
  by (auto simp: shard_Release_def Let_def distinct_update distinct_delete held_def split: option.splits)

lemma held_Reap: "distinct (map fst s) \<Longrightarrow> held (shard_Reap now s) a = live now (held s a)"
  by (auto simp: held_def map_of_Reap live_def split: option.splits)

lemma mgr_exec_refines:
  assumes m: "mgr_ok m"
  shows "mgr_ok (mgr_exec hash hh op m) \<and> devices_of hash a (mgr_exec hash hh op m) = dev_exec a op (devices_of hash a m)"
proof (cases op)
  case (MAdmit b d limit now expiry sid)
  have "mg_shards (mgr_exec hash hh op m) =
      snd (at_idx (mgr_at hash b m) (shard_Admit b d limit now expiry sid) (mg_shards m))"
    using MAdmit by (simp add: mgr_Admit_def split: prod.splits)
  from one_account [OF m shard_Admit_facts this, where a = a] show ?thesis by (auto simp: MAdmit)
next
  case (MRefresh b d expiry)
  have "mg_shards (mgr_exec hash hh op m) =
      snd (at_idx (mgr_at hash b m) (shard_Refresh b d expiry) (mg_shards m))"
    using MRefresh by (simp add: mgr_Refresh_def split: prod.splits)
  from one_account [OF m shard_Refresh_facts this, where a = a] show ?thesis by (auto simp: MRefresh)
next
  case (MRelease b d)
  have "mg_shards (mgr_exec hash hh op m) =
      snd (at_idx (mgr_at hash b m) (\<lambda>s. ((), shard_Release b d s)) (mg_shards m))"
    using MRelease by (simp add: mgr_Release_def)
  then have "mgr_ok (mgr_exec hash hh op m) \<and> devices_of hash a (mgr_exec hash hh op m) =
      (if b \<noteq> a then devices_of hash a m else dev_exec b op (devices_of hash a m))"
    by (rule one_account [OF m, rotated 3]) (auto simp: MRelease shard_Release_facts)
  then show ?thesis by (auto simp: MRelease)
next
  case (MReap now)
  then show ?thesis
    using m mgr_at_less [OF m, of hash a] shard_distinct [OF m mgr_at_less [OF m, of hash a]]
    by (auto simp: mgr_ReapExpired_def mgr_ok_def distinct_Reap devices_held held_Reap mgr_at_def)
qed

section \<open>The device limit\<close>

fun limits_at_most :: "string \<Rightarrow> int \<Rightarrow> mgr_op list \<Rightarrow> bool" where
  "limits_at_most a L [] = True"
| "limits_at_most a L (MAdmit b d limit now expiry sid # ops) = ((b = a \<longrightarrow> limit \<le> L) \<and> limits_at_most a L ops)"
| "limits_at_most a L (_ # ops) = limits_at_most a L ops"

abbreviation mgr_run :: "(string \<Rightarrow> u64) \<Rightarrow> (string \<Rightarrow> u64) \<Rightarrow> mgr_op list \<Rightarrow> manager \<Rightarrow> manager" where
  "mgr_run hash hh ops m \<equiv> fold (mgr_exec hash hh) ops m"

lemma shard_count_bounds: "n < 2 ^ 63 \<Longrightarrow> 0 < shard_count n \<and> shard_count n < 2 ^ 64"
  by (auto simp: shard_count_def)

lemma mgr_New_ok: "n < 2 ^ 63 \<Longrightarrow> mgr_ok (mgr_New n)"
  using shard_count_bounds [of n] by (auto simp: mgr_ok_def mgr_New_def)

lemma mgr_New_devices: "n < 2 ^ 63 \<Longrightarrow> devices_of hash a (mgr_New n) = []"
  using mgr_at_less [OF mgr_New_ok, of n hash a] by (simp add: devices_of_def mgr_New_def)

lemma mgr_run_refines:
  "mgr_ok m \<Longrightarrow> mgr_ok (mgr_run hash hh ops m) \<and> devices_of hash a (mgr_run hash hh ops m) = fold (dev_exec a) ops (devices_of hash a m)"
  by (induction ops arbitrary: m) (simp_all add: mgr_exec_refines)

lemma live_length: "length (live now ds) \<le> length ds"
  by (simp add: live_def)

lemma dev_exec_length:
  assumes "limits_at_most a L [op]" "int (length ds) \<le> L"
  shows "int (length (dev_exec a op ds)) \<le> L"
proof (cases op)
  case (MAdmit b d limit now expiry sid)
  then show ?thesis
    using assms live_length [of now ds] by (auto simp: length_update split: option.splits)
next
  case (MRelease b d)
  then show ?thesis using assms length_delete_le [of d ds] by (auto simp: le_trans)
next
  case (MReap now)
  then show ?thesis using assms live_length [of now ds] by simp
qed (use assms in \<open>auto simp: length_update split: option.splits\<close>)

lemma limits_Cons: "limits_at_most a L (op # ops) \<longleftrightarrow> limits_at_most a L [op] \<and> limits_at_most a L ops"
  by (cases op) auto

lemma dev_run_length:
  "limits_at_most a L ops \<Longrightarrow> int (length ds) \<le> L \<Longrightarrow> int (length (fold (dev_exec a) ops ds)) \<le> L"
proof (induction ops arbitrary: ds)
  case (Cons op ops)
  from Cons.prems have "limits_at_most a L [op]" "limits_at_most a L ops"
    using limits_Cons by blast+
  with Cons show ?case by (simp add: dev_exec_length)
qed simp

lemma CountFor_devices: "CountFor hash a m = length (devices_of hash a m)"
  by (simp add: CountFor_def devices_of_def split: option.splits)

text \<open>The answer of \<open>Admit\<close>.\<close>

lemma mgr_Admit_answer:
  "fst (mgr_Admit hash hh a d limit now expiry sid m) =
     (case map_of (live now (devices_of hash a m)) d of
        Some x \<Rightarrow> (dv_sessionID x, True)
      | None \<Rightarrow> if int (length (live now (devices_of hash a m))) < limit then (sid, True) else ([], False))"
proof -
  have "fst (shard_Admit a d limit now expiry sid s) =
      (case map_of (live now (held s a)) d of
         Some x \<Rightarrow> (dv_sessionID x, True, False)
       | None \<Rightarrow> if int (length (live now (held s a))) < limit then (sid, True, True) else ([], False, False))" for s
    by (simp add: shard_Admit_def Let_def held_def live_def split: option.splits)
  note answer = this [of "mg_shards m ! mgr_at hash a m"]
  obtain sid' admitted new s' where
    "shard_Admit a d limit now expiry sid (mg_shards m ! mgr_at hash a m) = ((sid', admitted, new), s')"
    by (metis prod.exhaust)
  with answer show ?thesis
    by (auto simp: mgr_Admit_def devices_held at_idx_def split: option.splits if_splits)
qed

text \<open>C29. However requests, heartbeats, stops and sweeps of any accounts follow one another, an account
  never has more devices than the largest limit its tokens carried. In every state so reached, a
  device that holds a slot is let in again with its own session, a new device is let in exactly when
  fewer than \<open>limit\<close> unexpired devices hold one, and the other accounts keep their devices.\<close>

theorem device_limit:
  assumes "n < 2 ^ 63" "0 \<le> L" "limits_at_most a L ops" and m_def: "m = mgr_run hash hh ops (mgr_New n)"
  shows "int (CountFor hash a m) \<le> L \<and>
    fst (mgr_Admit hash hh a d limit now expiry sid m) =
      (case map_of (live now (devices_of hash a m)) d of
         Some x \<Rightarrow> (dv_sessionID x, True)
       | None \<Rightarrow> if int (length (live now (devices_of hash a m))) < limit then (sid, True) else ([], False)) \<and>
    (b \<noteq> a \<longrightarrow> devices_of hash b (snd (mgr_Admit hash hh a d limit now expiry sid m)) = devices_of hash b m)"
proof -
  have ok: "mgr_ok m" using mgr_run_refines mgr_New_ok assms(1) by (simp add: m_def)
  have "int (CountFor hash a m) \<le> L"
    using dev_run_length [OF assms(3), of "[]"] assms(2) mgr_run_refines [OF mgr_New_ok [OF assms(1)], of hash hh ops a]
      mgr_New_devices [OF assms(1), of hash a]
    by (simp add: m_def CountFor_devices)
  then show ?thesis
    using mgr_exec_refines [OF ok, of hash hh "MAdmit a d limit now expiry sid" b] mgr_Admit_answer by auto
qed

theorem device_limit_witness:
  "limits_at_most ''a'' 1 [MAdmit ''a'' ''tv'' 1 0 30 ''s1'', MAdmit ''a'' ''pad'' 1 5 35 ''s2'']
   \<and> int (CountFor (\<lambda>_. 0) ''a'' (mgr_run (\<lambda>_. 0) (\<lambda>_. 0)
        [MAdmit ''a'' ''tv'' 1 0 30 ''s1'', MAdmit ''a'' ''pad'' 1 5 35 ''s2''] (mgr_New 2))) \<le> 1"
  using device_limit [of 2 1 "''a''" "[MAdmit ''a'' ''tv'' 1 0 30 ''s1'', MAdmit ''a'' ''pad'' 1 5 35 ''s2'']"
      _ "\<lambda>_. 0" "\<lambda>_. 0"] by simp

section \<open>Tokens are what the key signed\<close>

lemma itoa_no_dot: "CHR ''.'' \<notin> set (itoa i)"
proof
  assume "CHR ''.'' \<in> set (itoa i)"
  then have "CHR ''.'' \<in> set (dec_of_nat (nat i)) \<or> CHR ''.'' \<in> set (dec_of_nat (nat (- i)))"
    by (auto simp: itoa_def split: if_splits)
  then show False using dec_of_nat_digits by (fastforce simp: digit_val_def)
qed

lemma last_index_Some:
  assumes "last_index c s = Some i"
  shows "s = take i s @ c # drop (Suc i) s"
proof -
  from assms have "c \<in> set s" using last_index_None [of c s] by auto
  then obtain a b where s: "s = a @ c # b" "c \<notin> set b" by (meson split_list_last)
  then have "i = length a" using assms last_index_append by simp
  then show ?thesis using s by simp
qed

lemma parse_payload:
  assumes "CHR ''.'' \<notin> set (tk_AccountID c)" "CHR ''.'' \<notin> set (tk_AssetScope c)"
  shows "parse_claims (token_payload c) = Some c"
proof -
  have "split_on (CHR ''.'') (token_payload c) =
      [tk_AccountID c, itoa (sint (tk_DeviceLimit c)), itoa (sint (tk_Exp c)), tk_AssetScope c]"
    using assms itoa_no_dot by (simp add: token_payload_def split_on_append_sep split_on_no_sep)
  then show ?thesis by (simp add: parse_claims_def parse_itoa_sint)
qed

lemma token_Verify_sound:
  assumes "token_Verify mac key tok unix = Inr c"
  shows "\<exists>p. tok = p @ ''.'' @ sign mac key p \<and> parse_claims p = Some c"
    and "tk_AccountID c \<noteq> []" "1 \<le> sint (tk_DeviceLimit c)" "unix < sint (tk_Exp c)"
proof -
  from assms obtain i where i: "last_index (CHR ''.'') tok = Some i"
    by (auto simp: token_Verify_def split: option.splits)
  from assms i have v: "drop (Suc i) tok = sign mac key (take i tok)" "parse_claims (take i tok) = Some c"
    "tk_AccountID c \<noteq> []" "1 \<le> sint (tk_DeviceLimit c)" "unix < sint (tk_Exp c)"
    by (auto simp: token_Verify_def Let_def split: if_splits option.splits)
  then show "\<exists>p. tok = p @ ''.'' @ sign mac key p \<and> parse_claims p = Some c"
    using last_index_Some [OF i] by (intro exI [of _ "take i tok"]) auto
  from v show "tk_AccountID c \<noteq> []" "1 \<le> sint (tk_DeviceLimit c)" "unix < sint (tk_Exp c)" by auto
qed

lemma token_Verify_Sign:
  assumes "CHR ''.'' \<notin> set (tk_AccountID c)" "CHR ''.'' \<notin> set (tk_AssetScope c)" "mac key (token_payload c) \<noteq> []"
    "tk_AccountID c \<noteq> []" "1 \<le> sint (tk_DeviceLimit c)" "unix < sint (tk_Exp c)"
  shows "token_Verify mac key (token_Sign mac key c) unix = Inr c"
proof -
  have "last_index (CHR ''.'') (token_Sign mac key c) = Some (length (token_payload c))"
    by (simp add: token_Sign_def last_index_append sign_def hex_no_dot)
  moreover have "token_payload c \<noteq> []" by (simp add: token_payload_def)
  ultimately show ?thesis
    using assms parse_payload [of c] by (simp add: token_Verify_def token_Sign_def sign_def Let_def)
qed

text \<open>C30. A token is accepted only if it is a payload, a dot and the hex MAC of that payload under the
  server's key, and the payload says an account, a limit of at least one and an expiry still ahead;
  a token minted for claims with those properties and no dot in the account or the scope is accepted
  with exactly those claims.\<close>

theorem token_accepts:
  "(token_Verify mac key tok unix = Inr c \<longrightarrow>
      (\<exists>p. tok = p @ ''.'' @ sign mac key p \<and> parse_claims p = Some c) \<and>
      tk_AccountID c \<noteq> [] \<and> 1 \<le> sint (tk_DeviceLimit c) \<and> unix < sint (tk_Exp c)) \<and>
   (CHR ''.'' \<notin> set (tk_AccountID c) \<and> CHR ''.'' \<notin> set (tk_AssetScope c) \<and> mac key (token_payload c) \<noteq> [] \<and>
    tk_AccountID c \<noteq> [] \<and> 1 \<le> sint (tk_DeviceLimit c) \<and> unix < sint (tk_Exp c) \<longrightarrow>
      token_Verify mac key (token_Sign mac key c) unix = Inr c)"
  using token_Verify_sound [of mac key tok unix c] token_Verify_Sign [of c mac key unix] by blast

theorem token_accepts_witness:
  "token_Verify (\<lambda>k p. k) ''key''
     (token_Sign (\<lambda>k p. k) ''key'' \<lparr>tk_AccountID = ''acct'', tk_DeviceLimit = 2, tk_Exp = 100, tk_AssetScope = ''*''\<rparr>) 99 =
   Inr \<lparr>tk_AccountID = ''acct'', tk_DeviceLimit = 2, tk_Exp = 100, tk_AssetScope = ''*''\<rparr>"
  using token_accepts [where mac = "\<lambda>k p. k" and key = "''key''" and unix = 99
      and c = "\<lparr>tk_AccountID = ''acct'', tk_DeviceLimit = 2, tk_Exp = 100, tk_AssetScope = ''*''\<rparr>"]
  by simp

text \<open>A dot in the account makes a token its own signer cannot verify.\<close>

theorem dotted_account_unverifiable:
  "token_Verify (\<lambda>k p. k) ''key''
     (token_Sign (\<lambda>k p. k) ''key'' \<lparr>tk_AccountID = ''a.b'', tk_DeviceLimit = 2, tk_Exp = 100, tk_AssetScope = ''*''\<rparr>) 99 =
   Inl ErrMalformed"
  by code_simp

section \<open>The estimator counts keys once\<close>

definition hll_keys :: "(string \<Rightarrow> u64) \<Rightarrow> string list \<Rightarrow> u32 list" where
  "hll_keys hash ks = fold (hll_Add hash) ks NewEstimator"

lemma hll_Add_nth:
  "i < length regs \<Longrightarrow> hll_Add hash k regs ! i =
     (if unat (drop_bit 50 (hash k)) = i then max (regs ! i) (hll_rank (hash k)) else regs ! i)"
  by (auto simp: hll_Add_def Let_def max_def)

lemma hll_Add_length [simp]: "length (hll_Add hash k regs) = length regs"
  by (simp add: hll_Add_def Let_def)

lemma hll_Merge_nth: "i < length a \<Longrightarrow> hll_Merge a b ! i = max (a ! i) (b ! i)"
  by (auto simp: hll_Merge_def Let_def max_def)

lemma hll_Merge_length [simp]: "length (hll_Merge a b) = length a"
  by (simp add: hll_Merge_def)

interpretation hll: state_crdt hll_Merge "\<lambda>r. r" "\<lambda>r. length r = 2 ^ 14"
  by unfold_locales (auto intro!: nth_equalityI simp: hll_Merge_nth ac_simps)

lemma Max_insert_max: "finite S \<Longrightarrow> Max (insert (max a b) S) = Max (insert a (insert b (S :: 'a :: linorder set)))"
  by (cases "S = {}") (auto simp: max.assoc)

lemma hll_fold_nth:
  assumes "i < length regs"
  shows "fold (hll_Add hash) ks regs ! i =
    Max (insert (regs ! i) ((\<lambda>k. hll_rank (hash k)) ` {k \<in> set ks. unat (drop_bit 50 (hash k)) = i}))"
  using assms
proof (induction ks arbitrary: regs)
  case (Cons k ks)
  have "{k' \<in> set (k # ks). unat (drop_bit 50 (hash k')) = i} =
      (if unat (drop_bit 50 (hash k)) = i then insert k else (\<lambda>x. x)) {k' \<in> set ks. unat (drop_bit 50 (hash k')) = i}"
    by auto
  with Cons show ?case
    by (simp add: hll_Add_nth Max_insert_max del: Max_insert)
qed simp

lemma hll_fold_length [simp]: "length (fold (hll_Add hash) ks regs) = length regs"
  by (induction ks arbitrary: regs) simp_all

lemma hll_keys_nth:
  "i < 2 ^ 14 \<Longrightarrow> hll_keys hash ks ! i =
    Max (insert 0 ((\<lambda>k. hll_rank (hash k)) ` {k \<in> set ks. unat (drop_bit 50 (hash k)) = i}))"
  by (simp add: hll_keys_def hll_fold_nth NewEstimator_def del: Max_insert)

lemma hll_keys_length [simp]: "length (hll_keys hash ks) = 2 ^ 14"
  by (simp add: hll_keys_def NewEstimator_def)

lemma hll_keys_merge: "hll_Merge (hll_keys hash xs) (hll_keys hash ys) = hll_keys hash (xs @ ys)"
proof (rule nth_equalityI)
  fix i assume "i < length (hll_Merge (hll_keys hash xs) (hll_keys hash ys))"
  then have i: "i < 2 ^ 14" by simp
  let ?R = "\<lambda>ks. (\<lambda>k. hll_rank (hash k)) ` {k \<in> set ks. unat (drop_bit 50 (hash k)) = i}"
  have "max (Max (insert 0 (?R xs))) (Max (insert 0 (?R ys))) = Max (insert 0 (?R xs) \<union> insert 0 (?R ys))"
    by (rule Max_Un [symmetric]) auto
  also have "insert 0 (?R xs) \<union> insert 0 (?R ys) = insert 0 (?R (xs @ ys))" by auto
  finally show "hll_Merge (hll_keys hash xs) (hll_keys hash ys) ! i = hll_keys hash (xs @ ys) ! i"
    using i by (simp add: hll_Merge_nth hll_keys_nth del: Max_insert)
qed simp

lemma clz64_bound: "i < 64 \<Longrightarrow> bit w (63 - i) \<Longrightarrow> clz64 w \<le> i"
proof -
  assume i: "i < 64" "bit w (63 - i)"
  then have "[0..<64] ! i = i" by simp
  show "clz64 w \<le> i"
  proof (rule ccontr)
    assume "\<not> clz64 w \<le> i"
    then have "i < length (takeWhile (\<lambda>j. \<not> bit w (63 - j)) [0..<64])" by (simp add: clz64_def)
    then have "\<not> bit w (63 - takeWhile (\<lambda>j. \<not> bit w (63 - j)) [0..<64] ! i)"
      by (metis (mono_tags, lifting) nth_mem set_takeWhileD)
    with i show False
      using takeWhile_nth [OF \<open>i < length _\<close>] by simp
  qed
qed

lemma hll_rank_bound: "hll_rank h \<le> 51"
proof -
  have "bit (or (push_bit 14 h) (push_bit 13 1)) (63 - 50)"
    by (simp add: bit_or_iff bit_push_bit_iff)
  then have "clz64 (or (push_bit 14 h) (push_bit 13 1)) \<le> 50"
    by (intro clz64_bound) auto
  then have "unat (hll_rank h) \<le> 51"
    by (simp add: hll_rank_def Let_def unat_of_nat take_bit_nat_eq_self_iff del: of_nat_Suc of_nat_add push_bit_of_1)
  then show ?thesis by (simp add: word_le_nat_alt)
qed

lemma hll_index_less: "unat (drop_bit 50 (h :: u64)) < 2 ^ 14"
proof -
  have "unat h < 2 ^ 64" by (rule order_less_le_trans [OF unsigned_less]) simp
  then have "drop_bit 50 (unat h) < 2 ^ 14" by (simp add: drop_bit_eq_div div_less_iff_less_mult)
  then show ?thesis by (simp only: unat_drop_bit_eq)
qed

lemma hll_keys_bound:
  assumes "i < 2 ^ 14"
  shows "hll_keys hash ks ! i \<le> 51"
  using assms hll_rank_bound by (auto simp: hll_keys_nth Max_le_iff simp del: Max_insert)

lemma hll_keys_cong:
  assumes "set xs = set ys"
  shows "hll_keys hash xs = hll_keys hash ys"
proof (rule nth_equalityI)
  fix i assume "i < length (hll_keys hash xs)"
  then have "i < 2 ^ 14" by simp
  then show "hll_keys hash xs ! i = hll_keys hash ys ! i"
    using assms by (simp only: hll_keys_nth)
qed simp

lemma shift_nonzero: "r \<le> 51 \<Longrightarrow> push_bit (unat (r :: u32)) (1 :: u64) \<noteq> 0"
proof -
  assume "r \<le> 51"
  then have "unat r < 64" by (simp add: word_le_nat_alt)
  then have "bit (push_bit (unat r) (1 :: u64)) (unat r)"
    by (simp only: bit_push_bit_iff) simp
  then show ?thesis by (metis bit_0_eq bot_apply bot_bool_def)
qed

text \<open>C31. The estimator's registers depend only on the set of keys added, whatever their order and
  repetitions; merging two estimators gives the registers of both streams together; an index is
  always in range, and a register never exceeds 51, so \<open>1 << r\<close> of the estimate cannot vanish.\<close>

theorem hll_streams:
  "hll_Merge (hll_keys hash xs) (hll_keys hash ys) = hll_keys hash (xs @ ys) \<and>
   (set xs = set ys \<longrightarrow> hll_keys hash xs = hll_keys hash ys) \<and>
   unat (drop_bit 50 (hash k)) < length (hll_keys hash xs) \<and>
   (i < 2 ^ 14 \<longrightarrow> hll_keys hash xs ! i \<le> 51 \<and> push_bit (unat (hll_keys hash xs ! i)) (1 :: u64) \<noteq> 0)"
  using hll_keys_merge hll_keys_cong [of xs ys hash] hll_index_less [of "hash k"]
    hll_keys_bound [of i hash xs] shift_nonzero [of "hll_keys hash xs ! i"] by auto

theorem hll_streams_witness:
  "hll_keys (\<lambda>_. 0) [''a'', ''b'', ''a''] = hll_keys (\<lambda>_. 0) [''b'', ''a''] \<and>
   hll_keys (\<lambda>_. 0) [''a'', ''b'', ''a''] ! 5 \<le> 51"
  using hll_streams [of "\<lambda>_. 0" "[''a'', ''b'', ''a'']" "[''b'', ''a'']" "''a''" 5] by auto

end
