(* ===== verification/Livescale_Api.thy ===== *)
theory Livescale_Api
  imports Configs
begin

text \<open>
  \<open>livescale-control-plane\<close>, the service around its state: the counters (\<open>internal/obs\<close>), the
  admission guard and token check (\<open>internal/httpx/middleware.go\<close>), the handlers
  (\<open>internal/httpx/handlers.go\<close>) and the sweeper of \<open>cmd/livescale/main.go\<close>. A handler takes the
  clock reading and the decoded body; a reply is the status, the value that is written and the extra
  headers. Encoding the value is \<open>encoding/json\<close>.
\<close>

section \<open>State\<close>

record ls_metrics =
  lm_Authorized :: i64
  lm_Denied :: i64
  lm_Heartbeats :: i64
  lm_Shed :: i64
  lm_Reaped :: i64
  lm_latNanos :: i64
  lm_latCount :: i64

definition Observe :: "int \<Rightarrow> ls_metrics \<Rightarrow> ls_metrics" where
  "Observe d m = m\<lparr>lm_latNanos := lm_latNanos m + word_of_int d, lm_latCount := lm_latCount m + 1\<rparr>"

definition MeanLatency :: "ls_metrics \<Rightarrow> int" where
  "MeanLatency m = (if lm_latCount m = 0 then 0 else tdiv (sint (lm_latNanos m)) (sint (lm_latCount m)))"

record ls_server =
  sv_cfg :: ls_config
  sv_mgr :: manager
  sv_store :: session_store
  sv_metrics :: ls_metrics

record ls_env =
  le_mgrHash :: "string \<Rightarrow> u64"
  le_hllHash :: "string \<Rightarrow> u64"
  le_storeHash :: "string \<Rightarrow> u64"
  le_mac :: "string \<Rightarrow> string \<Rightarrow> string"

datatype ls_body =
  AuthorizeResp string int
| OkExpires int
| OkBody
| StatsBody int int int int
| ErrBody string
| TextBody string

record ls_reply =
  lr_status :: int
  lr_body :: ls_body
  lr_retryAfter :: "string option"

definition writeJSON :: "int \<Rightarrow> ls_body \<Rightarrow> ls_reply" where
  "writeJSON code v = \<lparr>lr_status = code, lr_body = v, lr_retryAfter = None\<rparr>"

definition writeErr :: "int \<Rightarrow> string \<Rightarrow> ls_reply" where
  "writeErr code msg = writeJSON code (ErrBody msg)"

text \<open>\<open>int(d.Seconds())\<close>.\<close>

definition seconds :: "int \<Rightarrow> int" where
  "seconds d = tdiv d sec"

section \<open>Handlers\<close>

text \<open>The decoded body is \<open>None\<close> when decoding fails; \<open>candidate\<close> is \<open>newID()\<close>.\<close>

definition ls_authorize ::
  "ls_env \<Rightarrow> int \<Rightarrow> string \<Rightarrow> (string \<times> string) option \<Rightarrow> token_claims \<Rightarrow> ls_server \<Rightarrow> ls_reply \<times> ls_server" where
  "ls_authorize e now candidate req c s =
     (case req of
        None \<Rightarrow> (writeErr 400 ''BAD_REQUEST'', s)
      | Some (assetID, deviceID) \<Rightarrow>
          if deviceID = [] then (writeErr 400 ''BAD_REQUEST'', s)
          else
            let expiry = now + lc_SessionTTL (sv_cfg s) in
            case mgr_Admit (le_mgrHash e) (le_hllHash e) (tk_AccountID c) deviceID (sint (tk_DeviceLimit c)) now expiry candidate (sv_mgr s) of
              ((sid, ok), m) \<Rightarrow>
                let s1 = s\<lparr>sv_mgr := m\<rparr> in
                if \<not> ok
                then (writeErr 403 ''DEVICE_LIMIT'',
                      s1\<lparr>sv_metrics := (sv_metrics s)\<lparr>lm_Denied := lm_Denied (sv_metrics s) + 1\<rparr>\<rparr>)
                else
                  let sess = \<lparr>ss_AccountID = tk_AccountID c, ss_DeviceID = deviceID, ss_AssetID = assetID, ss_ExpiresAt = expiry\<rparr>;
                      s2 = (if sid = candidate
                            then s1\<lparr>sv_store := ses_Put (le_storeHash e) sid sess (sv_store s),
                                    sv_metrics := (sv_metrics s)\<lparr>lm_Authorized := lm_Authorized (sv_metrics s) + 1\<rparr>\<rparr>
                            else s1\<lparr>sv_store := snd (ses_Extend (le_storeHash e) sid expiry (sv_store s))\<rparr>)
                  in (writeJSON 200 (AuthorizeResp sid (seconds (lc_SessionTTL (sv_cfg s)))), s2))"

definition ls_heartbeat ::
  "ls_env \<Rightarrow> int \<Rightarrow> string option \<Rightarrow> token_claims \<Rightarrow> ls_server \<Rightarrow> ls_reply \<times> ls_server" where
  "ls_heartbeat e now req c s =
     (case req of
        None \<Rightarrow> (writeErr 400 ''BAD_REQUEST'', s)
      | Some sid \<Rightarrow>
          if sid = [] then (writeErr 400 ''BAD_REQUEST'', s)
          else case ses_Get (le_storeHash e) sid now (sv_store s) of
            None \<Rightarrow> (writeErr 409 ''SESSION_EXPIRED'', s)
          | Some sess \<Rightarrow>
              if ss_AccountID sess \<noteq> tk_AccountID c then (writeErr 409 ''SESSION_EXPIRED'', s)
              else
                let expiry = now + lc_SessionTTL (sv_cfg s) in
                (writeJSON 200 (OkExpires (seconds (lc_SessionTTL (sv_cfg s)))),
                 s\<lparr>sv_store := snd (ses_Extend (le_storeHash e) sid expiry (sv_store s)),
                   sv_mgr := snd (mgr_Refresh (le_mgrHash e) (tk_AccountID c) (ss_DeviceID sess) expiry (sv_mgr s)),
                   sv_metrics := (sv_metrics s)\<lparr>lm_Heartbeats := lm_Heartbeats (sv_metrics s) + 1\<rparr>\<rparr>))"

definition ls_stop :: "ls_env \<Rightarrow> string option \<Rightarrow> token_claims \<Rightarrow> ls_server \<Rightarrow> ls_reply \<times> ls_server" where
  "ls_stop e req c s =
     (case req of
        None \<Rightarrow> (writeErr 400 ''BAD_REQUEST'', s)
      | Some sid \<Rightarrow>
          if sid = [] then (writeErr 400 ''BAD_REQUEST'', s)
          else case ses_Delete (le_storeHash e) sid (sv_store s) of
            (sess, st) \<Rightarrow>
              (writeJSON 200 OkBody,
               s\<lparr>sv_store := st,
                 sv_mgr := (case sess of
                    Some x \<Rightarrow> if ss_AccountID x = tk_AccountID c
                              then mgr_Release (le_mgrHash e) (tk_AccountID c) (ss_DeviceID x) (sv_mgr s) else sv_mgr s
                  | None \<Rightarrow> sv_mgr s)\<rparr>))"

text \<open>\<open>int64(estimate)\<close> truncates; the mean is reported in microseconds.\<close>

definition ls_stats :: "ls_server \<Rightarrow> ls_reply" where
  "ls_stats s =
     writeJSON 200
       (StatsBody \<lfloor>hll_Estimate (mg_hll (sv_mgr s))\<rfloor> (sint (lm_Shed (sv_metrics s))) (sint (lm_Authorized (sv_metrics s)))
         (tdiv (MeanLatency (sv_metrics s)) 1000))"

section \<open>Token check and admission\<close>

definition bearer :: "http_header \<Rightarrow> string" where
  "bearer h =
     (let a = header_get h ''Authorization'' in
      if length a > 7 \<and> take 7 a = ''Bearer '' then drop 7 a else header_get h ''X-Playback-Token'')"

definition authed ::
  "ls_env \<Rightarrow> string \<Rightarrow> int \<Rightarrow> http_header \<Rightarrow> (token_claims \<Rightarrow> ls_server \<Rightarrow> ls_reply \<times> ls_server) \<Rightarrow> ls_server \<Rightarrow> ls_reply \<times> ls_server" where
  "authed e key unix hdr h s =
     (if bearer hdr = [] then (writeJSON 401 (TextBody ''{\"error\":\"NO_TOKEN\"}''), s)
      else case token_Verify (le_mac e) key (bearer hdr) unix of
        Inl err \<Rightarrow> (writeJSON 401 (TextBody ''{\"error\":\"UNAUTHORIZED\"}''), s)
      | Inr c \<Rightarrow> h c s)"

datatype priority = Low | High

record admission =
  am_inflight :: int
  am_softMax :: int
  am_hardMax :: int

definition NewAdmission :: "ls_config \<Rightarrow> admission" where
  "NewAdmission cfg = \<lparr>am_inflight = 0, am_softMax = lc_SoftMaxInflight cfg, am_hardMax = lc_HardMaxInflight cfg\<rparr>"

definition adm_limit :: "priority \<Rightarrow> admission \<Rightarrow> int" where
  "adm_limit p a = (if p = Low then am_softMax a else am_hardMax a)"

text \<open>The two halves of \<open>guard\<close>: counting in with the decision, and the deferred counting out.\<close>

definition guard_enter :: "priority \<Rightarrow> admission \<Rightarrow> bool \<times> admission" where
  "guard_enter p a = (let n = am_inflight a + 1 in (\<not> n > adm_limit p a, a\<lparr>am_inflight := n\<rparr>))"

definition guard_leave :: "admission \<Rightarrow> admission" where
  "guard_leave a = a\<lparr>am_inflight := am_inflight a - 1\<rparr>"

definition overloaded_reply :: ls_reply where
  "overloaded_reply = \<lparr>lr_status = 503, lr_body = TextBody ''{\"error\":\"OVERLOADED\"}'', lr_retryAfter = Some ''1''\<rparr>"

text \<open>A request on its own: \<open>took\<close> is its latency.\<close>

definition guard ::
  "priority \<Rightarrow> int \<Rightarrow> (ls_server \<Rightarrow> ls_reply \<times> ls_server) \<Rightarrow> admission \<Rightarrow> ls_server \<Rightarrow> ls_reply \<times> admission \<times> ls_server" where
  "guard p took h a s =
     (case guard_enter p a of
        (admitted, a1) \<Rightarrow>
          (case (if admitted then h s
                 else (overloaded_reply, s\<lparr>sv_metrics := (sv_metrics s)\<lparr>lm_Shed := lm_Shed (sv_metrics s) + 1\<rparr>\<rparr>)) of
             (r, s1) \<Rightarrow> (r, guard_leave a1, s1\<lparr>sv_metrics := Observe took (sv_metrics s1)\<rparr>)))"

section \<open>The sweeper\<close>

definition sweep_tick :: "ls_env \<Rightarrow> int \<Rightarrow> ls_server \<Rightarrow> ls_server" where
  "sweep_tick e now s =
     (case ses_ReapExpired now (sv_store s) of
        (expired, st) \<Rightarrow>
          (case mgr_ReapExpired now
              (fold (\<lambda>x m. mgr_Release (le_mgrHash e) (ss_AccountID x) (ss_DeviceID x) m) expired (sv_mgr s)) of
             (n, m) \<Rightarrow>
               s\<lparr>sv_store := st, sv_mgr := m,
                 sv_metrics := (if n > 0 \<or> length expired > 0
                    then (sv_metrics s)\<lparr>lm_Reaped := lm_Reaped (sv_metrics s) + of_nat (length expired + n)\<rparr>
                    else sv_metrics s)\<rparr>))"

text \<open>The start of \<open>main\<close> on a valid configuration.\<close>

definition ls_start :: "getenv \<Rightarrow> ls_server option" where
  "ls_start e =
     (let cfg = ls_FromEnv e in
      if \<not> ls_Validate e cfg then None
      else Some \<lparr>sv_cfg = cfg, sv_mgr = mgr_New (lc_ShardCount cfg), sv_store = NewMemory (lc_ShardCount cfg),
                 sv_metrics = \<lparr>lm_Authorized = 0, lm_Denied = 0, lm_Heartbeats = 0, lm_Shed = 0, lm_Reaped = 0,
                               lm_latNanos = 0, lm_latCount = 0\<rparr>\<rparr>)"

section \<open>Requests in flight\<close>

text \<open>Any number of requests between their two halves: \<open>run\<close> are the priorities of the handlers that
  are running, \<open>shed\<close> counts the refused requests that have not left yet.\<close>

record adm_state =
  ad_adm :: admission
  ad_run :: "priority list"
  ad_shed :: nat

inductive adm_step :: "adm_state \<Rightarrow> adm_state \<Rightarrow> bool" where
  admit: "guard_enter p (ad_adm s) = (True, a) \<Longrightarrow>
    adm_step s (s\<lparr>ad_adm := a, ad_run := p # ad_run s\<rparr>)"
| refuse: "guard_enter p (ad_adm s) = (False, a) \<Longrightarrow>
    adm_step s (s\<lparr>ad_adm := a, ad_shed := Suc (ad_shed s)\<rparr>)"
| finish: "ad_run s = xs @ p # ys \<Longrightarrow>
    adm_step s (s\<lparr>ad_adm := guard_leave (ad_adm s), ad_run := xs @ ys\<rparr>)"
| leave: "ad_shed s = Suc n \<Longrightarrow>
    adm_step s (s\<lparr>ad_adm := guard_leave (ad_adm s), ad_shed := n\<rparr>)"

definition adm_init :: "ls_config \<Rightarrow> adm_state" where
  "adm_init cfg = \<lparr>ad_adm = NewAdmission cfg, ad_run = [], ad_shed = 0\<rparr>"

definition adm_inv :: "ls_config \<Rightarrow> adm_state \<Rightarrow> bool" where
  "adm_inv cfg s \<longleftrightarrow>
     am_softMax (ad_adm s) = lc_SoftMaxInflight cfg \<and> am_hardMax (ad_adm s) = lc_HardMaxInflight cfg \<and>
     am_inflight (ad_adm s) = int (length (ad_run s) + ad_shed s) \<and>
     int (count_list (ad_run s) Low) \<le> max 0 (lc_SoftMaxInflight cfg) \<and>
     int (length (ad_run s)) \<le> max 0 (max (lc_SoftMaxInflight cfg) (lc_HardMaxInflight cfg))"

lemma adm_step_inv: "adm_step s s' \<Longrightarrow> adm_inv cfg s \<Longrightarrow> adm_inv cfg s'"
proof (induction rule: adm_step.induct)
  case (admit p s a)
  then have "am_inflight (ad_adm s) + 1 \<le> adm_limit p (ad_adm s)" "a = (ad_adm s)\<lparr>am_inflight := am_inflight (ad_adm s) + 1\<rparr>"
    by (auto simp: guard_enter_def Let_def)
  moreover have "count_list (ad_run s) Low \<le> length (ad_run s)" by (rule count_le_length)
  ultimately show ?case using admit.prems by (auto simp: adm_inv_def adm_limit_def split: if_splits)
qed (auto simp: adm_inv_def guard_enter_def guard_leave_def Let_def split: if_splits)

lemma adm_reachable_inv: "adm_step\<^sup>*\<^sup>* (adm_init cfg) s \<Longrightarrow> adm_inv cfg s"
proof (induction rule: rtranclp_induct)
  case base
  show ?case by (simp add: adm_inv_def adm_init_def NewAdmission_def)
qed (rule adm_step_inv)

text \<open>C33. However requests enter, run, are refused and leave, the counter is exactly the number of
  requests between their two halves and returns to zero when they are gone; no more handlers run
  than the larger limit and no more low-priority ones than the soft limit; a low-priority request is
  let in exactly while fewer than the soft limit are in flight, a high-priority one while fewer than
  the hard limit are.\<close>

theorem admission_bounds:
  assumes "adm_step\<^sup>*\<^sup>* (adm_init cfg) s"
  shows "am_inflight (ad_adm s) = int (length (ad_run s) + ad_shed s) \<and>
    int (length (ad_run s)) \<le> max 0 (max (lc_SoftMaxInflight cfg) (lc_HardMaxInflight cfg)) \<and>
    int (count_list (ad_run s) Low) \<le> max 0 (lc_SoftMaxInflight cfg) \<and>
    (fst (guard_enter Low (ad_adm s)) \<longleftrightarrow> int (length (ad_run s) + ad_shed s) < lc_SoftMaxInflight cfg) \<and>
    (fst (guard_enter High (ad_adm s)) \<longleftrightarrow> int (length (ad_run s) + ad_shed s) < lc_HardMaxInflight cfg)"
  using adm_reachable_inv [OF assms] by (auto simp: adm_inv_def guard_enter_def adm_limit_def Let_def)

theorem admission_bounds_witness:
  "adm_step\<^sup>*\<^sup>* (adm_init ls_Default) \<lparr>ad_adm = \<lparr>am_inflight = 1, am_softMax = 8000, am_hardMax = 20000\<rparr>, ad_run = [Low], ad_shed = 0\<rparr> \<and>
   fst (guard_enter Low \<lparr>am_inflight = 1, am_softMax = 8000, am_hardMax = 20000\<rparr>)"
proof -
  let ?s = "\<lparr>ad_adm = \<lparr>am_inflight = 1, am_softMax = 8000, am_hardMax = 20000\<rparr>, ad_run = [Low], ad_shed = 0\<rparr> :: adm_state"
  have "guard_enter Low (ad_adm (adm_init ls_Default)) = (True, ad_adm ?s)"
    by (simp add: guard_enter_def adm_limit_def adm_init_def NewAdmission_def ls_Default_def)
  from adm_step.admit [OF this] have "adm_step\<^sup>*\<^sup>* (adm_init ls_Default) ?s"
    by (simp add: adm_init_def)
  with admission_bounds [of ls_Default ?s] show ?thesis by (simp add: ls_Default_def)
qed

section \<open>Who may end a session\<close>

lemma ses_at_less: "0 < length st \<Longrightarrow> length st < 2 ^ 64 \<Longrightarrow> ses_at hash sid st < length st"
  by (simp add: ses_at_def mask_index_less)

text \<open>A stop request ends a session of any account: the owner is compared after the deletion.\<close>

theorem stop_deletes_foreign_session:
  assumes "ses_Get (le_storeHash e) sid now (sv_store s) = Some sess" "ss_AccountID sess \<noteq> tk_AccountID c"
    "sid \<noteq> []" "0 < length (sv_store s)" "length (sv_store s) < 2 ^ 64"
  shows "ses_Get (le_storeHash e) sid now (sv_store (snd (ls_stop e (Some sid) c s))) = None"
  using assms ses_at_less [of "sv_store s" "le_storeHash e" sid]
  by (auto simp: ls_stop_def ses_Get_def ses_Delete_def at_idx_def ses_at_def split: option.splits)

text \<open>
  The sweeper frees a slot that is in use. A session of device \<open>d\<close> expires at 30; at 31, before a
  sweep, the device is authorized again and gets a new session in the same slot; the sweep at 35
  reaps the old session and releases the device, whose new session lives until 61.
\<close>

abbreviation release_op :: "session \<Rightarrow> mgr_op" where
  "release_op x \<equiv> MRelease (ss_AccountID x) (ss_DeviceID x)"

lemma delete_fst [simp]: "fst ` set (AList.delete k al) = fst ` set al - {k}"
  by (induction al) auto

lemma releases_absent: "d \<notin> fst ` set ds \<Longrightarrow> d \<notin> fst ` set (fold (dev_exec a) (map release_op xs) ds)"
  by (induction xs arbitrary: ds) auto

lemma releases_release:
  "x \<in> set xs \<Longrightarrow> ss_AccountID x = a \<Longrightarrow> ss_DeviceID x \<notin> fst ` set (fold (dev_exec a) (map release_op xs) ds)"
proof (induction xs arbitrary: ds)
  case (Cons y xs)
  show ?case
  proof (cases "x \<in> set xs")
    case False
    with Cons.prems show ?thesis
      using releases_absent [of "ss_DeviceID x" "AList.delete (ss_DeviceID x) ds" a xs] by auto
  qed (use Cons in auto)
qed simp

lemma releases_run:
  "mgr_run hash hh (map release_op xs) m = fold (\<lambda>x m. mgr_Release hash (ss_AccountID x) (ss_DeviceID x) m) xs m"
  by (induction xs arbitrary: m) simp_all

lemma sweep_tick_run:
  "sv_mgr (sweep_tick e now s) =
     mgr_run (le_mgrHash e) hh (map release_op (fst (ses_ReapExpired now (sv_store s))) @ [MReap now]) (sv_mgr s)"
  by (simp add: sweep_tick_def releases_run ses_ReapExpired_def mgr_ReapExpired_def)

lemma sweep_releases:
  assumes "mgr_ok (sv_mgr s)" "x \<in> set (fst (ses_ReapExpired now (sv_store s)))"
  shows "ss_DeviceID x \<notin> fst ` set (devices_of (le_mgrHash e) (ss_AccountID x) (sv_mgr (sweep_tick e now s)))"
  using releases_release [OF assms(2) refl, of "devices_of (le_mgrHash e) (ss_AccountID x) (sv_mgr s)"]
    mgr_run_refines [OF assms(1), of "le_mgrHash e" "\<lambda>_. 0" "map release_op (fst (ses_ReapExpired now (sv_store s))) @ [MReap now]"]
  by (auto simp: sweep_tick_run [where hh = "\<lambda>_. 0"] live_def)

lemma sweep_keeps_session:
  assumes "ses_Get (le_storeHash e) sid now (sv_store s) = Some y" "\<forall>m \<in> set (sv_store s). distinct (map fst m)"
    "0 < length (sv_store s)" "length (sv_store s) < 2 ^ 64"
  shows "ses_Get (le_storeHash e) sid now (sv_store (sweep_tick e now s)) = Some y"
proof -
  let ?m = "sv_store s ! ses_at (le_storeHash e) sid (sv_store s)"
  have i: "ses_at (le_storeHash e) sid (sv_store s) < length (sv_store s)" using assms ses_at_less by blast
  have y: "map_of ?m sid = Some y" "\<not> ss_ExpiresAt y \<le> now"
    using assms(1) by (auto simp: ses_Get_def split: option.splits if_splits)
  have "distinct (map fst ?m)" using i assms(2) by simp
  then have "map_of (filter (\<lambda>(i, x). \<not> ss_ExpiresAt x \<le> now) ?m) sid = Some y"
    using y by (subst map_of_eq_Some_iff) (auto simp: distinct_map_filter)
  then show ?thesis using i y
    by (simp add: sweep_tick_def ses_ReapExpired_def mgr_ReapExpired_def ses_Get_def ses_at_def)
qed

theorem sweep_frees_live_slot:
  assumes "mgr_ok (sv_mgr s)" "\<forall>m \<in> set (sv_store s). distinct (map fst m)"
    "0 < length (sv_store s)" "length (sv_store s) < 2 ^ 64"
    "x \<in> set (fst (ses_ReapExpired now (sv_store s)))"
    "ses_Get (le_storeHash e) sid now (sv_store s) = Some y"
    "ss_AccountID y = ss_AccountID x" "ss_DeviceID y = ss_DeviceID x"
  shows "ses_Get (le_storeHash e) sid now (sv_store (sweep_tick e now s)) = Some y \<and>
    ss_DeviceID y \<notin> fst ` set (devices_of (le_mgrHash e) (ss_AccountID y) (sv_mgr (sweep_tick e now s)))"
  using sweep_keeps_session [OF assms(6,2,3,4)] sweep_releases [OF assms(1,5), of e] assms(7,8) by simp

end
