(* ===== verification/Orders.thy ===== *)
theory Orders
  imports Encoding "HOL-Library.AList" "HOL-Library.Product_Lexorder"
begin

text \<open>
  \<open>microservice/order\<close>: the order placement saga with its transactional outbox. The memory store,
  the order service and the dispatcher are functions on the store; the margin and exchange gateways
  are arguments, as are random identifiers, clock readings, SHA-256 and whether the context is
  cancelled. The last part lets any number of dispatchers run against one store.
\<close>

section \<open>Domain\<close>

datatype order_status = PendingMargin | PendingRoute | Accepted | Rejected | ReconciliationRequired
datatype margin_state = MarginNone | MarginReserved | MarginReleasePending | MarginReleased
datatype event_kind = ReserveMargin | RouteExchange | ReleaseMargin | OtherKind string
datatype event_state = EventPending | EventRetry | EventProcessing | EventDelivered | EventDead

record order =
  o_ID :: string
  o_AccountID :: string
  o_IdempotencyKey :: string
  o_RequestHash :: string
  o_Instrument :: string
  o_Side :: string
  o_Quantity :: i64
  o_LimitPrice :: i64
  o_Status :: order_status
  o_Margin :: margin_state
  o_ReservationID :: string
  o_ExchangeOrderID :: string
  o_FailureReason :: string
  o_CreatedAt :: int
  o_UpdatedAt :: int

record outbox_event =
  e_ID :: string
  e_OrderID :: string
  e_Kind :: event_kind
  e_State :: event_state
  e_Attempts :: int
  e_AvailableAt :: int
  e_LeaseToken :: string
  e_LeaseUntil :: int
  e_LastError :: string
  e_CreatedAt :: int
  e_DeliveredAt :: int

text \<open>\<open>time.Time{}\<close>.\<close>

definition zero_time :: int where
  "zero_time = - 62135596800 * 1000000000"

definition idempotencyIndex :: "string \<Rightarrow> string \<Rightarrow> string" where
  "idempotencyIndex accountID key = accountID @ CHR 0x00 # key"

text \<open>Errors; a remote one says whether it is temporary.\<close>

datatype order_err =
  ErrInvalidOrder string
| ErrIdempotencyConflict
| ErrOrderNotFound
| ErrLeaseLost
| ErrCancelled
| ErrRandom

section \<open>The memory store\<close>

record order_state =
  os_orders :: "(string \<times> order) list"
  os_byIdempotency :: "(string \<times> string) list"
  os_events :: "(string \<times> outbox_event) list"

definition NewMemoryStore :: order_state where
  "NewMemoryStore = \<lparr>os_orders = [], os_byIdempotency = [], os_events = []\<rparr>"

text \<open>\<open>Transaction\<close> works on a copy, which replaces the state when the body succeeds.\<close>

definition order_transaction :: "bool \<Rightarrow> (order_state \<Rightarrow> order_err + 'a \<times> order_state) \<Rightarrow> order_state \<Rightarrow> (order_err + 'a) \<times> order_state" where
  "order_transaction cancelled body s =
     (if cancelled then (Inl ErrCancelled, s)
      else case body s of Inl err \<Rightarrow> (Inl err, s) | Inr (x, s') \<Rightarrow> (Inr x, s'))"

definition OrderByIdempotency :: "string \<Rightarrow> string \<Rightarrow> order_state \<Rightarrow> order option" where
  "OrderByIdempotency accountID key s =
     (case map_of (os_byIdempotency s) (idempotencyIndex accountID key) of
        None \<Rightarrow> None
      | Some i \<Rightarrow> map_of (os_orders s) i)"

definition tx_Order :: "string \<Rightarrow> order_state \<Rightarrow> order option" where
  "tx_Order i s = map_of (os_orders s) i"

definition PutOrder :: "order \<Rightarrow> order_state \<Rightarrow> order_err + order_state" where
  "PutOrder x s =
     (if map_of (os_orders s) (o_ID x) = None
      then
        let key = idempotencyIndex (o_AccountID x) (o_IdempotencyKey x) in
        if (case map_of (os_byIdempotency s) key of Some other \<Rightarrow> other \<noteq> o_ID x | None \<Rightarrow> False)
        then Inl ErrIdempotencyConflict
        else Inr (s\<lparr>os_byIdempotency := AList.update key (o_ID x) (os_byIdempotency s),
                   os_orders := AList.update (o_ID x) x (os_orders s)\<rparr>)
      else Inr (s\<lparr>os_orders := AList.update (o_ID x) x (os_orders s)\<rparr>))"

definition new_event :: "string \<Rightarrow> string \<Rightarrow> event_kind \<Rightarrow> int \<Rightarrow> outbox_event" where
  "new_event i orderID kind availableAt =
     \<lparr>e_ID = i, e_OrderID = orderID, e_Kind = kind, e_State = EventPending, e_Attempts = 0, e_AvailableAt = availableAt,
      e_LeaseToken = [], e_LeaseUntil = zero_time, e_LastError = [], e_CreatedAt = availableAt, e_DeliveredAt = zero_time\<rparr>"

text \<open>\<open>newid\<close> is the result of \<open>newID()\<close>.\<close>

definition Enqueue :: "string option \<Rightarrow> string \<Rightarrow> event_kind \<Rightarrow> int \<Rightarrow> order_state \<Rightarrow> order_err + order_state" where
  "Enqueue newid orderID kind availableAt s =
     (case newid of
        None \<Rightarrow> Inl ErrRandom
      | Some i \<Rightarrow> Inr (s\<lparr>os_events := AList.update i (new_event i orderID kind availableAt) (os_events s)\<rparr>))"

definition claimable :: "int \<Rightarrow> outbox_event \<Rightarrow> bool" where
  "claimable now ev \<longleftrightarrow>
     ((e_State ev = EventPending \<or> e_State ev = EventRetry) \<and> \<not> e_AvailableAt ev > now) \<or>
     (e_State ev = EventProcessing \<and> \<not> e_LeaseUntil ev > now)"

definition lease :: "string \<Rightarrow> int \<Rightarrow> outbox_event \<Rightarrow> outbox_event" where
  "lease token til ev = ev\<lparr>e_State := EventProcessing, e_LeaseToken := token, e_LeaseUntil := til\<rparr>"

text \<open>The loop over the chosen events; \<open>tokens\<close> are the results of \<open>newID()\<close>. A failure leaves the
  events leased so far.\<close>

fun claim_loop ::
  "int \<Rightarrow> (string \<times> outbox_event) list \<Rightarrow> string option list \<Rightarrow> order_state \<Rightarrow> (order_err + outbox_event list) \<times> order_state" where
  "claim_loop til [] tokens s = (Inr [], s)"
| "claim_loop til (p # ps) [] s = (Inl ErrRandom, s)"
| "claim_loop til (p # ps) (None # ts) s = (Inl ErrRandom, s)"
| "claim_loop til ((i, ev) # ps) (Some token # ts) s =
     (case claim_loop til ps ts (s\<lparr>os_events := AList.update i (lease token til ev) (os_events s)\<rparr>) of
        (Inl err, s') \<Rightarrow> (Inl err, s')
      | (Inr evs, s') \<Rightarrow> (Inr (lease token til ev # evs), s'))"

definition ClaimDue ::
  "bool \<Rightarrow> int \<Rightarrow> int \<Rightarrow> int \<Rightarrow> string option list \<Rightarrow> order_state \<Rightarrow> (order_err + outbox_event list) \<times> order_state" where
  "ClaimDue cancelled now leaseFor limit tokens s =
     (if cancelled then (Inl ErrCancelled, s)
      else if limit \<le> 0 then (Inr [], s)
      else
        let ids = sort_key (\<lambda>(i, ev). (e_AvailableAt ev, e_ID ev)) (filter (\<lambda>(i, ev). claimable now ev) (os_events s))
        in claim_loop (now + leaseFor) (take (nat limit) ids) tokens s)"

definition leased :: "string \<Rightarrow> string \<Rightarrow> order_state \<Rightarrow> outbox_event option" where
  "leased eventID leaseToken s =
     (case map_of (os_events s) eventID of
        None \<Rightarrow> None
      | Some ev \<Rightarrow> if e_State ev \<noteq> EventProcessing \<or> e_LeaseToken ev \<noteq> leaseToken then None else Some ev)"

definition close_event :: "string \<Rightarrow> (outbox_event \<Rightarrow> outbox_event) \<Rightarrow> order_state \<Rightarrow> order_state" where
  "close_event eventID f s =
     (case map_of (os_events s) eventID of
        None \<Rightarrow> s
      | Some current \<Rightarrow> s\<lparr>os_events := AList.update eventID (f current) (os_events s)\<rparr>)"

definition Finalize ::
  "bool \<Rightarrow> int \<Rightarrow> string \<Rightarrow> string \<Rightarrow> (order_state \<Rightarrow> order_err + order_state) \<Rightarrow> order_state \<Rightarrow> (order_err + unit) \<times> order_state" where
  "Finalize cancelled now eventID leaseToken apply_tx s =
     (case leased eventID leaseToken s of
        None \<Rightarrow> (Inl ErrLeaseLost, s)
      | Some ev \<Rightarrow>
          order_transaction cancelled
            (\<lambda>t. case apply_tx t of
                   Inl err \<Rightarrow> Inl err
                 | Inr t' \<Rightarrow>
                     Inr ((), close_event eventID
                       (\<lambda>x. x\<lparr>e_State := EventDelivered, e_LeaseToken := [], e_LeaseUntil := zero_time, e_DeliveredAt := now\<rparr>) t')) s)"

definition Retry ::
  "bool \<Rightarrow> string \<Rightarrow> string \<Rightarrow> int \<Rightarrow> string \<Rightarrow> order_state \<Rightarrow> (order_err + unit) \<times> order_state" where
  "Retry cancelled eventID leaseToken availableAt why s =
     (if cancelled then (Inl ErrCancelled, s)
      else case leased eventID leaseToken s of
        None \<Rightarrow> (Inl ErrLeaseLost, s)
      | Some ev \<Rightarrow>
          (Inr (), s\<lparr>os_events := AList.update eventID
             (ev\<lparr>e_State := EventRetry, e_LeaseToken := [], e_LeaseUntil := zero_time,
                 e_Attempts := e_Attempts ev + 1, e_AvailableAt := availableAt, e_LastError := why\<rparr>) (os_events s)\<rparr>))"

definition Abandon ::
  "bool \<Rightarrow> string \<Rightarrow> string \<Rightarrow> string \<Rightarrow> (order_state \<Rightarrow> order_err + order_state) \<Rightarrow> order_state \<Rightarrow> (order_err + unit) \<times> order_state" where
  "Abandon cancelled eventID leaseToken why apply_tx s =
     (case leased eventID leaseToken s of
        None \<Rightarrow> (Inl ErrLeaseLost, s)
      | Some ev \<Rightarrow>
          order_transaction cancelled
            (\<lambda>t. case apply_tx t of
                   Inl err \<Rightarrow> Inl err
                 | Inr t' \<Rightarrow>
                     Inr ((), close_event eventID
                       (\<lambda>x. x\<lparr>e_State := EventDead, e_LeaseToken := [], e_LeaseUntil := zero_time,
                              e_Attempts := e_Attempts x + 1, e_LastError := why\<rparr>) t')) s)"

definition Snapshot :: "order_state \<Rightarrow> order list \<times> outbox_event list" where
  "Snapshot s = (sort_key o_ID (map snd (os_orders s)), sort_key e_ID (map snd (os_events s)))"

section \<open>Placing an order\<close>

record place_request =
  r_AccountID :: string
  r_IdempotencyKey :: string
  r_Instrument :: string
  r_Side :: string
  r_Quantity :: i64
  r_LimitPrice :: i64

definition validate_order :: "place_request \<Rightarrow> order_err option" where
  "validate_order r =
     (if r_AccountID r = [] then Some (ErrInvalidOrder ''account ID is required'')
      else if r_IdempotencyKey r = [] then Some (ErrInvalidOrder ''idempotency key is required'')
      else if r_Instrument r = [] then Some (ErrInvalidOrder ''instrument is required'')
      else if r_Side r \<noteq> ''BUY'' \<and> r_Side r \<noteq> ''SELL'' then Some (ErrInvalidOrder ''side must be BUY or SELL'')
      else if sint (r_Quantity r) \<le> 0 then Some (ErrInvalidOrder ''quantity must be positive'')
      else if sint (r_LimitPrice r) \<le> 0 then Some (ErrInvalidOrder ''limit price must be positive'')
      else None)"

definition fingerprint_text :: "place_request \<Rightarrow> string" where
  "fingerprint_text r =
     r_Instrument r @ ''|'' @ r_Side r @ ''|'' @ itoa (sint (r_Quantity r)) @ ''|'' @ itoa (sint (r_LimitPrice r))"

definition requestFingerprint :: "(string \<Rightarrow> string) \<Rightarrow> place_request \<Rightarrow> string" where
  "requestFingerprint sha r = hex_encode (sha (fingerprint_text r))"

definition new_order :: "string \<Rightarrow> string \<Rightarrow> int \<Rightarrow> place_request \<Rightarrow> order" where
  "new_order i fingerprint now r =
     \<lparr>o_ID = i, o_AccountID = r_AccountID r, o_IdempotencyKey = r_IdempotencyKey r, o_RequestHash = fingerprint,
      o_Instrument = r_Instrument r, o_Side = r_Side r, o_Quantity = r_Quantity r, o_LimitPrice = r_LimitPrice r,
      o_Status = PendingMargin, o_Margin = MarginNone, o_ReservationID = [], o_ExchangeOrderID = [], o_FailureReason = [],
      o_CreatedAt = now, o_UpdatedAt = now\<rparr>"

text \<open>The order and whether it is a replay. The two identifiers are results of \<open>newID()\<close>.\<close>

definition Place ::
  "(string \<Rightarrow> string) \<Rightarrow> bool \<Rightarrow> string option \<Rightarrow> string option \<Rightarrow> int \<Rightarrow> place_request \<Rightarrow> order_state \<Rightarrow> (order_err + order \<times> bool) \<times> order_state" where
  "Place sha cancelled oid eid now r s =
     (case validate_order r of
        Some err \<Rightarrow> (Inl err, s)
      | None \<Rightarrow>
          let fingerprint = requestFingerprint sha r in
          order_transaction cancelled
            (\<lambda>t. case OrderByIdempotency (r_AccountID r) (r_IdempotencyKey r) t of
                   Some existing \<Rightarrow>
                     if o_RequestHash existing \<noteq> fingerprint then Inl ErrIdempotencyConflict
                     else Inr ((existing, True), t)
                 | None \<Rightarrow>
                    (case oid of
                       None \<Rightarrow> Inl ErrRandom
                     | Some i \<Rightarrow>
                         let x = new_order i fingerprint now r in
                         case PutOrder x t of
                           Inl err \<Rightarrow> Inl err
                         | Inr t1 \<Rightarrow>
                            (case Enqueue eid i ReserveMargin now t1 of
                               Inl err \<Rightarrow> Inl err
                             | Inr t2 \<Rightarrow> Inr ((x, False), t2)))) s)"

section \<open>The dispatcher\<close>

text \<open>The outcome of a remote call: an error with its \<open>Temporary()\<close>, or the answer.\<close>

datatype 'a remote = Failed string bool | Answer 'a

record retry_policy =
  p_MaxAttempts :: int
  p_BaseBackoff :: int
  p_MaxBackoff :: int

fun delay_loop :: "int \<Rightarrow> nat \<Rightarrow> int \<Rightarrow> int" where
  "delay_loop maxBackoff 0 d = (if d > maxBackoff then maxBackoff else d)"
| "delay_loop maxBackoff (Suc n) d = (if d \<ge> tdiv maxBackoff 2 then maxBackoff else delay_loop maxBackoff n (d * 2))"

definition delay :: "retry_policy \<Rightarrow> int \<Rightarrow> int" where
  "delay p attempt = (if p_BaseBackoff p \<le> 0 then 0 else delay_loop (p_MaxBackoff p) (nat (attempt - 1)) (p_BaseBackoff p))"

record dispatcher =
  d_retry :: retry_policy
  d_leaseFor :: int

definition NewDispatcher :: "retry_policy \<Rightarrow> dispatcher" where
  "NewDispatcher p =
     \<lparr>d_retry =
        \<lparr>p_MaxAttempts = (if p_MaxAttempts p \<le> 0 then 8 else p_MaxAttempts p),
         p_BaseBackoff = (if p_BaseBackoff p \<le> 0 then 1000000000 else p_BaseBackoff p),
         p_MaxBackoff = (if p_MaxBackoff p \<le> 0 then 2 * 60 * 1000000000 else p_MaxBackoff p)\<rparr>,
      d_leaseFor = 30 * 1000000000\<rparr>"

text \<open>What one delivery meets: the context, the clock, an identifier, and the gateways. \<open>Reserve\<close> and
  \<open>Route\<close> answer with an identifier, a decision and a reason.\<close>

record delivery =
  c_cancelled :: bool
  c_now :: int
  c_newid :: "string option"
  c_Reserve :: "order \<Rightarrow> string \<Rightarrow> (string \<times> bool \<times> string) remote"
  c_Route :: "order \<Rightarrow> string \<Rightarrow> (string \<times> bool \<times> string) remote"
  c_Release :: "string \<Rightarrow> string \<Rightarrow> unit remote"

definition orderFor :: "bool \<Rightarrow> outbox_event \<Rightarrow> order_state \<Rightarrow> order_err + order" where
  "orderFor cancelled ev s =
     (if cancelled then Inl ErrCancelled
      else case tx_Order (e_OrderID ev) s of None \<Rightarrow> Inl ErrOrderNotFound | Some x \<Rightarrow> Inr x)"

definition abandon :: "delivery \<Rightarrow> outbox_event \<Rightarrow> string \<Rightarrow> order_state \<Rightarrow> (order_err + unit) \<times> order_state" where
  "abandon c ev cause s =
     Abandon (c_cancelled c) (e_ID ev) (e_LeaseToken ev) cause
       (\<lambda>t. case tx_Order (e_OrderID ev) t of
              None \<Rightarrow> Inl ErrOrderNotFound
            | Some current \<Rightarrow>
                PutOrder (current\<lparr>o_Status := ReconciliationRequired, o_FailureReason := cause, o_UpdatedAt := c_now c\<rparr>) t) s"

definition handleRemoteError :: "dispatcher \<Rightarrow> delivery \<Rightarrow> outbox_event \<Rightarrow> string \<Rightarrow> bool \<Rightarrow> order_state \<Rightarrow> (order_err + unit) \<times> order_state" where
  "handleRemoteError d c ev msg temporary s =
     (if \<not> temporary then abandon c ev msg s
      else if e_Attempts ev + 1 \<ge> p_MaxAttempts (d_retry d) then abandon c ev msg s
      else Retry (c_cancelled c) (e_ID ev) (e_LeaseToken ev) (c_now c + delay (d_retry d) (e_Attempts ev + 1)) msg s)"

text \<open>\<open>reserve\<close>, \<open>route\<close> and \<open>release\<close> after the remote call.\<close>

definition reserve_tx :: "delivery \<Rightarrow> string \<Rightarrow> string \<Rightarrow> bool \<Rightarrow> string \<Rightarrow> order_state \<Rightarrow> order_err + order_state" where
  "reserve_tx c orderID reservationID approved why t =
     (case tx_Order orderID t of
        None \<Rightarrow> Inl ErrOrderNotFound
      | Some current \<Rightarrow>
          if \<not> approved
          then PutOrder (current\<lparr>o_Status := Rejected, o_FailureReason := why, o_UpdatedAt := c_now c\<rparr>) t
          else case PutOrder (current\<lparr>o_Status := PendingRoute, o_Margin := MarginReserved,
                                      o_ReservationID := reservationID, o_UpdatedAt := c_now c\<rparr>) t of
            Inl err \<Rightarrow> Inl err
          | Inr t1 \<Rightarrow> Enqueue (c_newid c) (o_ID current) RouteExchange (c_now c) t1)"

definition route_tx :: "delivery \<Rightarrow> string \<Rightarrow> string \<Rightarrow> bool \<Rightarrow> string \<Rightarrow> order_state \<Rightarrow> order_err + order_state" where
  "route_tx c orderID exchangeOrderID accepted why t =
     (case tx_Order orderID t of
        None \<Rightarrow> Inl ErrOrderNotFound
      | Some current \<Rightarrow>
          if accepted
          then PutOrder (current\<lparr>o_Status := Accepted, o_ExchangeOrderID := exchangeOrderID, o_UpdatedAt := c_now c\<rparr>) t
          else case PutOrder (current\<lparr>o_Status := Rejected, o_Margin := MarginReleasePending,
                                      o_FailureReason := why, o_UpdatedAt := c_now c\<rparr>) t of
            Inl err \<Rightarrow> Inl err
          | Inr t1 \<Rightarrow> Enqueue (c_newid c) (o_ID current) ReleaseMargin (c_now c) t1)"

definition release_tx :: "delivery \<Rightarrow> string \<Rightarrow> order_state \<Rightarrow> order_err + order_state" where
  "release_tx c orderID t =
     (case tx_Order orderID t of
        None \<Rightarrow> Inl ErrOrderNotFound
      | Some current \<Rightarrow> PutOrder (current\<lparr>o_Margin := MarginReleased, o_UpdatedAt := c_now c\<rparr>) t)"

definition finish_tx :: "delivery \<Rightarrow> event_kind \<Rightarrow> string \<Rightarrow> string \<times> bool \<times> string \<Rightarrow> order_state \<Rightarrow> order_err + order_state" where
  "finish_tx c kind orderID answer =
     (case answer of (i, ok, why) \<Rightarrow>
        (case kind of
           ReserveMargin \<Rightarrow> reserve_tx c orderID i ok why
         | RouteExchange \<Rightarrow> route_tx c orderID i ok why
         | _ \<Rightarrow> release_tx c orderID))"

definition finish ::
  "dispatcher \<Rightarrow> delivery \<Rightarrow> outbox_event \<Rightarrow> order \<Rightarrow> (string \<times> bool \<times> string) remote \<Rightarrow> order_state \<Rightarrow> (order_err + unit) \<times> order_state" where
  "finish d c ev x reply s =
     (case reply of
        Failed msg temporary \<Rightarrow> handleRemoteError d c ev msg temporary s
      | Answer answer \<Rightarrow>
          Finalize (c_cancelled c) (c_now c) (e_ID ev) (e_LeaseToken ev) (finish_tx c (e_Kind ev) (o_ID x) answer) s)"

text \<open>The remote call of an event.\<close>

definition remote_call :: "delivery \<Rightarrow> outbox_event \<Rightarrow> order \<Rightarrow> (string \<times> bool \<times> string) remote" where
  "remote_call c ev x =
     (case e_Kind ev of
        ReserveMargin \<Rightarrow> c_Reserve c x (e_ID ev)
      | RouteExchange \<Rightarrow> c_Route c x (e_ID ev)
      | _ \<Rightarrow> (case c_Release c (o_ReservationID x) (e_ID ev) of
                Failed msg temporary \<Rightarrow> Failed msg temporary
              | Answer _ \<Rightarrow> Answer ([], True, [])))"

definition deliver_event :: "dispatcher \<Rightarrow> delivery \<Rightarrow> outbox_event \<Rightarrow> order_state \<Rightarrow> (order_err + unit) \<times> order_state" where
  "deliver_event d c ev s =
     (case e_Kind ev of
        OtherKind k \<Rightarrow> abandon c ev (''unknown event kind '' @ k) s
      | _ \<Rightarrow>
         (case orderFor (c_cancelled c) ev s of
            Inl err \<Rightarrow> (Inl err, s)
          | Inr x \<Rightarrow> finish d c ev x (remote_call c ev x) s))"

fun deliver_all :: "dispatcher \<Rightarrow> (outbox_event \<times> delivery) list \<Rightarrow> order_state \<Rightarrow> order_err option \<times> order_state" where
  "deliver_all d [] s = (None, s)"
| "deliver_all d ((ev, c) # es) s =
     (case deliver_event d c ev s of
        (Inl err, s') \<Rightarrow> if err \<noteq> ErrLeaseLost then (Some err, s') else deliver_all d es s'
      | (Inr (), s') \<Rightarrow> deliver_all d es s')"

text \<open>\<open>cs\<close> gives what each delivery of the batch meets.\<close>

definition DispatchOnce ::
  "dispatcher \<Rightarrow> bool \<Rightarrow> int \<Rightarrow> string option list \<Rightarrow> (outbox_event \<Rightarrow> delivery) \<Rightarrow> int \<Rightarrow> order_state \<Rightarrow> (order_err + nat) \<times> order_state" where
  "DispatchOnce d cancelled now tokens cs limit s =
     (case ClaimDue cancelled now (d_leaseFor d) limit tokens s of
        (Inl err, s') \<Rightarrow> (Inl err, s')
      | (Inr evs, s') \<Rightarrow>
         (case deliver_all d (map (\<lambda>ev. (ev, cs ev)) evs) s' of
            (Some err, s'') \<Rightarrow> (Inl err, s'')
          | (None, s'') \<Rightarrow> (Inr (length evs), s'')))"

section \<open>The demo server\<close>

text \<open>\<open>cmd/order-demo\<close>: an operator console over the saga with gateways in the process. A reply is the
  status and the value written; bodies arrive decoded, or as the decoder's error.\<close>

definition demo_Reserve :: "order \<Rightarrow> string \<Rightarrow> (string \<times> bool \<times> string) remote" where
  "demo_Reserve x op = Answer (''margin-'' @ take 8 (o_ID x), True, [])"

definition demo_Release :: "string \<Rightarrow> string \<Rightarrow> unit remote" where
  "demo_Release reservation op = Answer ()"

text \<open>The answer and the behaviour left for the next call.\<close>

definition demo_Route :: "string \<Rightarrow> order \<Rightarrow> (string \<times> bool \<times> string) remote \<times> string" where
  "demo_Route behavior x =
     ((if behavior = ''REJECT'' then Answer ([], False, ''exchange rejected: price-band protection'')
       else if behavior = ''TIMEOUT'' then Failed ''exchange gateway timed out; outcome is being retried'' True
       else Answer (''EXCH-'' @ take 8 (o_ID x), True, [])), ''ACCEPT'')"

record demo_server =
  ds_store :: order_state
  ds_behavior :: string

definition demo_dispatcher :: dispatcher where
  "demo_dispatcher = NewDispatcher \<lparr>p_MaxAttempts = 3, p_BaseBackoff = 1000000000, p_MaxBackoff = 5 * 1000000000\<rparr>"

definition demo_newServer :: demo_server where
  "demo_newServer = \<lparr>ds_store = NewMemoryStore, ds_behavior = ''ACCEPT''\<rparr>"

datatype demo_value =
  DemoError "string + order_err"
| DemoOrder order bool
| DemoProcessed nat string
| DemoState "order list" "outbox_event list" string
| DemoPage

definition demo_placeOrder ::
  "(string \<Rightarrow> string) \<Rightarrow> bool \<Rightarrow> string option \<Rightarrow> string option \<Rightarrow> int \<Rightarrow> string + place_request \<Rightarrow> demo_server \<Rightarrow> (int \<times> demo_value) \<times> demo_server" where
  "demo_placeOrder sha cancelled oid eid now input s =
     (case input of
        Inl err \<Rightarrow> ((400, DemoError (Inl err)), s)
      | Inr r \<Rightarrow>
         (case Place sha cancelled oid eid now r (ds_store s) of
            (Inl err, st) \<Rightarrow> ((if err = ErrIdempotencyConflict then 409 else 400, DemoError (Inr err)), s\<lparr>ds_store := st\<rparr>)
          | (Inr (x, replayed), st) \<Rightarrow> ((if replayed then 200 else 201, DemoOrder x replayed), s\<lparr>ds_store := st\<rparr>)))"

text \<open>One event at most is dispatched, so that at most one call uses up the behaviour.\<close>

definition demo_delivery :: "bool \<Rightarrow> int \<Rightarrow> string option \<Rightarrow> string \<Rightarrow> delivery" where
  "demo_delivery cancelled now newid behavior =
     \<lparr>c_cancelled = cancelled, c_now = now, c_newid = newid, c_Reserve = demo_Reserve,
      c_Route = (\<lambda>x op. fst (demo_Route behavior x)), c_Release = demo_Release\<rparr>"

definition demo_dispatch ::
  "bool \<Rightarrow> int \<Rightarrow> string option \<Rightarrow> string option \<Rightarrow> demo_server \<Rightarrow> (int \<times> demo_value) \<times> demo_server" where
  "demo_dispatch cancelled now token newid s =
     (let c = demo_delivery cancelled now newid (ds_behavior s);
          claimed = fst (ClaimDue cancelled now (d_leaseFor demo_dispatcher) 1 [token] (ds_store s));
          routed = (case claimed of Inr [ev] \<Rightarrow> e_Kind ev = RouteExchange \<and> \<not> cancelled | _ \<Rightarrow> False)
      in case DispatchOnce demo_dispatcher cancelled now [token] (\<lambda>ev. c) 1 (ds_store s) of
           (Inl err, st) \<Rightarrow> ((500, DemoError (Inr err)), s\<lparr>ds_store := st, ds_behavior := (if routed then ''ACCEPT'' else ds_behavior s)\<rparr>)
         | (Inr n, st) \<Rightarrow>
             ((200, DemoProcessed n
                (if n = 1 then ''Processed one durable workflow event.''
                 else ''No ready work. A retried event may still be in its back-off window.'')),
              s\<lparr>ds_store := st, ds_behavior := (if routed then ''ACCEPT'' else ds_behavior s)\<rparr>))"

definition demo_writeState :: "demo_server \<Rightarrow> int \<times> demo_value" where
  "demo_writeState s = (case Snapshot (ds_store s) of (orders, events) \<Rightarrow> (200, DemoState orders events (ds_behavior s)))"

text \<open>\<open>upper\<close> is \<open>strings.ToUpper\<close> of the input.\<close>

definition demo_setRouteBehavior :: "string + string \<Rightarrow> demo_server \<Rightarrow> (int \<times> demo_value) \<times> demo_server" where
  "demo_setRouteBehavior upper s =
     (case upper of
        Inl err \<Rightarrow> ((400, DemoError (Inl err)), s)
      | Inr b \<Rightarrow>
          if b \<noteq> ''ACCEPT'' \<and> b \<noteq> ''REJECT'' \<and> b \<noteq> ''TIMEOUT''
          then ((400, DemoError (Inl ''behavior must be ACCEPT, REJECT, or TIMEOUT'')), s)
          else (demo_writeState (s\<lparr>ds_behavior := b\<rparr>), s\<lparr>ds_behavior := b\<rparr>))"

section \<open>Back-off\<close>

lemma delay_loop_bounds:
  assumes "0 < d" "0 < mx"
  shows "min mx (d * 2 ^ n) \<le> delay_loop mx n d \<and> delay_loop mx n d \<le> mx \<and> (even mx \<longrightarrow> delay_loop mx n d = min mx (d * 2 ^ n))"
  using assms
proof (induction n arbitrary: d)
  case (Suc n)
  have half: "tdiv mx 2 = mx div 2" using Suc.prems by (simp add: tdiv_def)
  show ?case
  proof (cases "d \<ge> mx div 2")
    case True
    moreover have "d * 2 * 1 \<le> d * 2 * 2 ^ n" using Suc.prems by (intro mult_left_mono) auto
    ultimately show ?thesis by (auto simp: half min_def)
  next
    case False
    then show ?thesis using Suc.IH [of "d * 2"] Suc.prems by (simp add: half mult.assoc)
  qed
qed auto

section \<open>Many dispatchers on one store\<close>

text \<open>
  \<open>y_jobs\<close> are the claimed events whose remote call has not been made, \<open>y_calls\<close> the calls that have
  been answered and not yet recorded, \<open>y_log\<close> the calls the gateways have seen, with the operation
  identifier they carried. A dispatcher may stop anywhere. Identifiers are new: \<open>newID\<close> draws 128
  random bits.
\<close>

record saga =
  y_store :: order_state
  y_jobs :: "outbox_event list"
  y_calls :: "(outbox_event \<times> order \<times> (string \<times> bool \<times> string) remote) list"
  y_log :: "(event_kind \<times> string \<times> string) list"

definition fresh_order :: "string option \<Rightarrow> order_state \<Rightarrow> bool" where
  "fresh_order i s \<longleftrightarrow> (case i of None \<Rightarrow> True | Some k \<Rightarrow> k \<notin> fst ` set (os_orders s))"

definition fresh_event :: "string option \<Rightarrow> order_state \<Rightarrow> bool" where
  "fresh_event i s \<longleftrightarrow> (case i of None \<Rightarrow> True | Some k \<Rightarrow> k \<notin> fst ` set (os_events s))"

inductive saga_step :: "(string \<Rightarrow> string) \<Rightarrow> dispatcher \<Rightarrow> saga \<Rightarrow> saga \<Rightarrow> bool" for sha d where
  place: "fresh_order oid (y_store y) \<Longrightarrow> fresh_event eid (y_store y) \<Longrightarrow>
    saga_step sha d y (y\<lparr>y_store := snd (Place sha cancelled oid eid now r (y_store y))\<rparr>)"
| claim: "ClaimDue cancelled now (d_leaseFor d) limit tokens (y_store y) = (res, s') \<Longrightarrow>
    saga_step sha d y (y\<lparr>y_store := s', y_jobs := (case res of Inl _ \<Rightarrow> y_jobs y | Inr evs \<Rightarrow> y_jobs y @ evs)\<rparr>)"
| call: "y_jobs y = xs @ ev # ys \<Longrightarrow> \<forall>k. e_Kind ev \<noteq> OtherKind k \<Longrightarrow> orderFor False ev (y_store y) = Inr x \<Longrightarrow>
    saga_step sha d y (y\<lparr>y_jobs := xs @ ys, y_calls := (ev, x, remote_call c ev x) # y_calls y,
                         y_log := (e_Kind ev, e_OrderID ev, e_ID ev) # y_log y\<rparr>)"
| unknown: "y_jobs y = xs @ ev # ys \<Longrightarrow> e_Kind ev = OtherKind k \<Longrightarrow>
    saga_step sha d y (y\<lparr>y_store := snd (deliver_event d c ev (y_store y)), y_jobs := xs @ ys\<rparr>)"
| finish: "y_calls y = xs @ (ev, x, reply) # ys \<Longrightarrow> fresh_event (c_newid c) (y_store y) \<Longrightarrow>
    saga_step sha d y (y\<lparr>y_store := snd (finish d c ev x reply (y_store y)), y_calls := xs @ ys\<rparr>)"
| stop: "set js \<subseteq> set (y_jobs y) \<Longrightarrow> set cs \<subseteq> set (y_calls y) \<Longrightarrow>
    saga_step sha d y (y\<lparr>y_jobs := js, y_calls := cs\<rparr>)"

definition saga_init :: saga where
  "saga_init = \<lparr>y_store = NewMemoryStore, y_jobs = [], y_calls = [], y_log = []\<rparr>"

section \<open>The workflow of an order\<close>

text \<open>The events of an order, in the order they were added, with how far each has come.\<close>

datatype phase = Live | Done | Dead

fun phase_of :: "event_state \<Rightarrow> phase" where
  "phase_of EventDelivered = Done"
| "phase_of EventDead = Dead"
| "phase_of _ = Live"

type_synonym track = "(string \<times> string \<times> event_kind \<times> phase) list"

definition tracks :: "order_state \<Rightarrow> track" where
  "tracks s = map (\<lambda>(i, ev). (i, e_OrderID ev, e_Kind ev, phase_of (e_State ev))) (os_events s)"

definition track_of :: "string \<Rightarrow> track \<Rightarrow> (event_kind \<times> phase) list" where
  "track_of oid tr = map (\<lambda>(i, q, k, p). (k, p)) (filter (\<lambda>(i, q, k, p). q = oid) tr)"

text \<open>The events an order in a given state must have.\<close>

fun workflow :: "order_status \<Rightarrow> margin_state \<Rightarrow> (event_kind \<times> phase) list option" where
  "workflow PendingMargin MarginNone = Some [(ReserveMargin, Live)]"
| "workflow Rejected MarginNone = Some [(ReserveMargin, Done)]"
| "workflow ReconciliationRequired MarginNone = Some [(ReserveMargin, Dead)]"
| "workflow PendingRoute MarginReserved = Some [(ReserveMargin, Done), (RouteExchange, Live)]"
| "workflow Accepted MarginReserved = Some [(ReserveMargin, Done), (RouteExchange, Done)]"
| "workflow ReconciliationRequired MarginReserved = Some [(ReserveMargin, Done), (RouteExchange, Dead)]"
| "workflow Rejected MarginReleasePending = Some [(ReserveMargin, Done), (RouteExchange, Done), (ReleaseMargin, Live)]"
| "workflow Rejected MarginReleased = Some [(ReserveMargin, Done), (RouteExchange, Done), (ReleaseMargin, Done)]"
| "workflow ReconciliationRequired MarginReleasePending =
     Some [(ReserveMargin, Done), (RouteExchange, Done), (ReleaseMargin, Dead)]"
| "workflow _ _ = None"

definition order_ok :: "order_state \<Rightarrow> string \<Rightarrow> order \<Rightarrow> bool" where
  "order_ok s i x \<longleftrightarrow> o_ID x = i \<and> workflow (o_Status x) (o_Margin x) = Some (track_of i (tracks s)) \<and>
     map_of (os_byIdempotency s) (idempotencyIndex (o_AccountID x) (o_IdempotencyKey x)) = Some i"

definition event_ok :: "order_state \<Rightarrow> string \<Rightarrow> outbox_event \<Rightarrow> bool" where
  "event_ok s i ev \<longleftrightarrow> e_ID ev = i \<and> map_of (os_orders s) (e_OrderID ev) \<noteq> None"

definition store_inv :: "order_state \<Rightarrow> bool" where
  "store_inv s \<longleftrightarrow>
     distinct (map fst (os_events s)) \<and>
     (\<forall>i x. map_of (os_orders s) i = Some x \<longrightarrow> order_ok s i x) \<and>
     (\<forall>k i. map_of (os_byIdempotency s) k = Some i \<longrightarrow> map_of (os_orders s) i \<noteq> None) \<and>
     (\<forall>i ev. map_of (os_events s) i = Some ev \<longrightarrow> event_ok s i ev)"

definition known :: "order_state \<Rightarrow> (string \<times> string \<times> event_kind) set" where
  "known s = (\<lambda>(i, ev). (i, e_OrderID ev, e_Kind ev)) ` set (os_events s)"

definition saga_inv :: "saga \<Rightarrow> bool" where
  "saga_inv y \<longleftrightarrow> store_inv (y_store y) \<and>
     (\<forall>ev \<in> set (y_jobs y). (e_ID ev, e_OrderID ev, e_Kind ev) \<in> known (y_store y)) \<and>
     (\<forall>(ev, x, reply) \<in> set (y_calls y). o_ID x = e_OrderID ev \<and> (e_ID ev, e_OrderID ev, e_Kind ev) \<in> known (y_store y)) \<and>
     (\<forall>(k, oid, i) \<in> set (y_log y). (i, oid, k) \<in> known (y_store y))"

lemma update_present:
  "distinct (map fst al) \<Longrightarrow> k \<in> fst ` set al \<Longrightarrow> AList.update k v al = map (\<lambda>(i, e). if i = k then (i, v) else (i, e)) al"
proof (induction al)
  case (Cons p al)
  show ?case
  proof (cases "fst p = k")
    case True
    then have "k \<notin> fst ` set al" using Cons.prems by auto
    then have "map (\<lambda>(i, e). if i = k then (i, v) else (i, e)) al = al"
      by (intro map_idI) force
    then show ?thesis using True by (cases p) simp
  qed (use Cons in \<open>cases p, auto\<close>)
qed simp

lemma update_absent: "k \<notin> fst ` set al \<Longrightarrow> AList.update k v al = al @ [(k, v)]"
  by (induction al) auto

lemma set_update_subset: "set (AList.update k v al) \<subseteq> insert (k, v) (set al)"
  by (induction al) auto

text \<open>Moving one event of a track to a new phase.\<close>

definition set_phase :: "string \<Rightarrow> phase \<Rightarrow> track \<Rightarrow> track" where
  "set_phase i p tr = map (\<lambda>(j, q, k, p'). (j, q, k, if j = i then p else p')) tr"

lemma track_of_append: "track_of oid (a @ b) = track_of oid a @ track_of oid b"
  by (simp add: track_of_def)

lemma set_phase_other: "i \<notin> fst ` set tr \<Longrightarrow> set_phase i p tr = tr"
  unfolding set_phase_def by (intro map_idI) force

lemma set_phase_append: "set_phase i p (a @ b) = set_phase i p a @ set_phase i p b"
  by (simp add: set_phase_def)

lemma track_set_phase_other: "\<forall>(j, q, k, p') \<in> set tr. j = i \<longrightarrow> q \<noteq> oid \<Longrightarrow> track_of oid (set_phase i p tr) = track_of oid tr"
  unfolding track_of_def set_phase_def by (induction tr) auto

lemma track_split:
  assumes "distinct (map fst tr)" "(i, oid, k, Live) \<in> set tr" "track_of oid tr = xs @ [(k', Live)]" "Live \<notin> snd ` set xs"
  shows "k' = k \<and> track_of oid (set_phase i p tr) = xs @ [(k, p)]"
proof -
  obtain a b where tr: "tr = a @ (i, oid, k, Live) # b" using assms(2) by (meson split_list)
  have t: "track_of oid tr = track_of oid a @ (k, Live) # track_of oid b"
    by (simp add: tr track_of_def)
  have "track_of oid b = []"
  proof (rule ccontr)
    assume "track_of oid b \<noteq> []"
    then have "butlast (track_of oid tr) = track_of oid a @ (k, Live) # butlast (track_of oid b)"
      by (simp add: t butlast_append)
    with assms(3,4) show False by (force simp: image_iff)
  qed
  then have xs: "xs = track_of oid a" "k' = k" using assms(3) t by auto
  have "i \<notin> fst ` set a" "i \<notin> fst ` set b" using assms(1) by (auto simp: tr)
  then have "set_phase i p tr = a @ (i, oid, k, p) # b"
    using set_phase_other by (simp add: tr set_phase_def)
  then show ?thesis using xs \<open>track_of oid b = []\<close> by (simp add: track_of_append) (simp add: track_of_def)
qed

lemma workflow_live:
  assumes "workflow st m = Some tr" "(k, Live) \<in> set tr"
  obtains "st = PendingMargin" "m = MarginNone" "k = ReserveMargin" "tr = [] @ [(k, Live)]"
  | "st = PendingRoute" "m = MarginReserved" "k = RouteExchange" "tr = [(ReserveMargin, Done)] @ [(k, Live)]"
  | "st = Rejected" "m = MarginReleasePending" "k = ReleaseMargin"
      "tr = [(ReserveMargin, Done), (RouteExchange, Done)] @ [(k, Live)]"
  using assms by (cases st; cases m) auto

lemma tracks_ids [simp]: "map fst (tracks s) = map fst (os_events s)" "fst ` set (tracks s) = fst ` set (os_events s)"
  by (auto simp: tracks_def image_image intro!: image_cong)

lemma track_absent: "oid \<notin> (\<lambda>(i, ev). e_OrderID ev) ` set (os_events s) \<Longrightarrow> track_of oid (tracks s) = []"
  by (auto simp: track_of_def tracks_def filter_empty_conv image_iff)

text \<open>An event rewritten in place.\<close>

lemma tracks_update:
  assumes "distinct (map fst (os_events s))" "map_of (os_events s) i = Some ev"
    "e_OrderID ev' = e_OrderID ev" "e_Kind ev' = e_Kind ev"
  shows "tracks (s\<lparr>os_events := AList.update i ev' (os_events s)\<rparr>) = set_phase i (phase_of (e_State ev')) (tracks s)"
    and "known (s\<lparr>os_events := AList.update i ev' (os_events s)\<rparr>) = known s"
proof -
  have i: "i \<in> fst ` set (os_events s)" using assms(2) by (metis domI dom_map_of_conv_image_fst)
  have same: "e = ev" if "(i, e) \<in> set (os_events s)" for e
    using assms(1,2) that by (simp add: map_of_eq_Some_iff)
  show "tracks (s\<lparr>os_events := AList.update i ev' (os_events s)\<rparr>) = set_phase i (phase_of (e_State ev')) (tracks s)"
    using same assms(3,4) by (auto simp: tracks_def set_phase_def update_present [OF assms(1) i])
  show "known (s\<lparr>os_events := AList.update i ev' (os_events s)\<rparr>) = known s"
    using same assms(3,4) unfolding known_def
    by (simp add: update_present [OF assms(1) i] image_image) (intro image_cong, auto)
qed

lemma set_phase_same: "distinct (map fst tr) \<Longrightarrow> (i, q, k, p) \<in> set tr \<Longrightarrow> set_phase i p tr = tr"
  unfolding set_phase_def by (intro map_idI) (auto dest: eq_key_imp_eq_value)

lemma store_invD:
  assumes "store_inv s"
  shows "distinct (map fst (os_events s))"
    and "map_of (os_orders s) i = Some x \<Longrightarrow> order_ok s i x"
    and "map_of (os_byIdempotency s) key = Some i \<Longrightarrow> map_of (os_orders s) i \<noteq> None"
    and "map_of (os_events s) j = Some ev \<Longrightarrow> event_ok s j ev"
  using assms unfolding store_inv_def by blast+

lemma event_track:
  "map_of (os_events s) i = Some ev \<Longrightarrow> (i, e_OrderID ev, e_Kind ev, phase_of (e_State ev)) \<in> set (tracks s)"
  by (force simp: tracks_def dest: map_of_SomeD)

text \<open>An event that changes without changing phase.\<close>

lemma relabel:
  assumes inv: "store_inv s" and ev: "map_of (os_events s) i = Some ev"
    and same: "e_ID ev' = e_ID ev" "e_OrderID ev' = e_OrderID ev" "e_Kind ev' = e_Kind ev"
      "phase_of (e_State ev') = phase_of (e_State ev)"
  shows "store_inv (s\<lparr>os_events := AList.update i ev' (os_events s)\<rparr>)"
    and "known (s\<lparr>os_events := AList.update i ev' (os_events s)\<rparr>) = known s"
proof -
  let ?s = "s\<lparr>os_events := AList.update i ev' (os_events s)\<rparr>"
  note D = store_invD [OF inv]
  have "set_phase i (phase_of (e_State ev)) (tracks s) = tracks s"
    using set_phase_same event_track [OF ev] D(1) by (metis tracks_ids(1))
  then have "tracks ?s = tracks s" using tracks_update(1) [OF D(1) ev same(2,3)] same(4) by simp
  then have "order_ok ?s j x \<longleftrightarrow> order_ok s j x" for j x by (simp add: order_ok_def)
  moreover have "event_ok ?s j e \<longleftrightarrow> event_ok s j e" for j e by (simp add: event_ok_def)
  moreover have "event_ok s i ev'" using D(4) [OF ev] same(1,2) by (simp add: event_ok_def)
  ultimately show "store_inv ?s"
    using inv unfolding store_inv_def by (simp add: distinct_update update_conv')
  show "known ?s = known s" using tracks_update(2) [OF D(1) ev same(2,3)] .
qed

lemma Retry_inv:
  assumes "store_inv s"
  shows "store_inv (snd (Retry cancelled i tok at' why s)) \<and> known (snd (Retry cancelled i tok at' why s)) = known s"
  using assms relabel [OF assms] by (auto simp: Retry_def leased_def split: option.splits)

lemma claim_loop_inv:
  assumes "store_inv s" "distinct (map fst ps)" "\<forall>(i, ev) \<in> set ps. map_of (os_events s) i = Some ev \<and> phase_of (e_State ev) = Live"
    "claim_loop til ps tokens s = (res, s')"
  shows "store_inv s' \<and> known s' = known s \<and>
    (\<forall>evs. res = Inr evs \<longrightarrow> (\<forall>ev \<in> set evs. (e_ID ev, e_OrderID ev, e_Kind ev) \<in> known s))"
  using assms
proof (induction til ps tokens s arbitrary: res s' rule: claim_loop.induct)
  case (4 til i ev ps token ts s)
  let ?s = "s\<lparr>os_events := AList.update i (lease token til ev) (os_events s)\<rparr>"
  have ev: "map_of (os_events s) i = Some ev" "phase_of (e_State ev) = Live" using "4.prems"(3) by auto
  have k: "known ?s = known s" and inv: "store_inv ?s"
    using relabel [OF "4.prems"(1) ev(1), of "lease token til ev"] ev(2) by (auto simp: lease_def)
  have rest: "\<forall>(j, e) \<in> set ps. map_of (os_events ?s) j = Some e \<and> phase_of (e_State e) = Live"
    using "4.prems"(2,3) by (auto simp: update_conv') force+
  obtain r s1 where r: "claim_loop til ps ts ?s = (r, s1)" by force
  from "4.IH" [OF inv _ rest r] "4.prems"(2)
  have IH: "store_inv s1" "known s1 = known s"
    "\<forall>evs. r = Inr evs \<longrightarrow> (\<forall>e \<in> set evs. (e_ID e, e_OrderID e, e_Kind e) \<in> known s)"
    using k by auto
  have "(i, e_OrderID ev, e_Kind ev) \<in> known s" using map_of_SomeD [OF ev(1)] by (force simp: known_def)
  moreover have "e_ID ev = i" using store_invD(4) [OF "4.prems"(1) ev(1)] by (simp add: event_ok_def)
  ultimately have "(e_ID (lease token til ev), e_OrderID (lease token til ev), e_Kind (lease token til ev)) \<in> known s"
    by (simp add: lease_def)
  then show ?case using IH r "4.prems"(4) by (auto split: sum.splits)
qed auto

lemma distinct_map_sort: "distinct (map g (sort_key f xs)) = distinct (map g xs)"
  by (simp add: distinct_map)

lemma ClaimDue_inv:
  assumes "store_inv s" "ClaimDue cancelled now leaseFor limit tokens s = (res, s')"
  shows "store_inv s' \<and> known s' = known s \<and>
    (\<forall>evs. res = Inr evs \<longrightarrow> (\<forall>ev \<in> set evs. (e_ID ev, e_OrderID ev, e_Kind ev) \<in> known s))"
proof (cases "cancelled \<or> limit \<le> 0")
  case False
  let ?ids = "sort_key (\<lambda>(i, ev). (e_AvailableAt ev, e_ID ev)) (filter (\<lambda>(i, ev). claimable now ev) (os_events s))"
  have "distinct (map fst ?ids)"
    using store_invD(1) [OF assms(1)] by (simp add: distinct_map_sort distinct_map_filter)
  then have "distinct (map fst (take (nat limit) ?ids))" by (simp add: take_map [symmetric] distinct_take)
  moreover have "\<forall>(i, ev) \<in> set (take (nat limit) ?ids). map_of (os_events s) i = Some ev \<and> phase_of (e_State ev) = Live"
    using store_invD(1) [OF assms(1)] by (auto dest!: in_set_takeD simp: claimable_def)
  ultimately show ?thesis
    using claim_loop_inv [OF assms(1)] assms(2) False by (simp add: ClaimDue_def Let_def)
qed (use assms in \<open>auto simp: ClaimDue_def split: if_splits\<close>)

text \<open>The transaction that records an answer: the order moves on, the event leaves its live phase and
  at most one new event of the order is added.\<close>

definition advance :: "string \<Rightarrow> order \<Rightarrow> string \<Rightarrow> outbox_event \<Rightarrow> (string \<times> outbox_event) list \<Rightarrow> order_state \<Rightarrow> order_state" where
  "advance oid x' eid ev' new s =
     s\<lparr>os_orders := AList.update oid x' (os_orders s), os_events := AList.update eid ev' (os_events s @ new)\<rparr>"

definition next_events :: "string \<Rightarrow> order_state \<Rightarrow> (string \<times> outbox_event) list \<Rightarrow> bool" where
  "next_events oid s new \<longleftrightarrow> new = [] \<or>
     (\<exists>nid k now. new = [(nid, new_event nid oid k now)] \<and> nid \<notin> fst ` set (os_events s))"

definition new_track :: "(string \<times> outbox_event) list \<Rightarrow> (event_kind \<times> phase) list" where
  "new_track new = map (\<lambda>(i, ev). (e_Kind ev, Live)) new"

lemma tracks_append: "tracks (s\<lparr>os_events := os_events s @ new\<rparr>) = tracks s @ map (\<lambda>(i, ev). (i, e_OrderID ev, e_Kind ev, phase_of (e_State ev))) new"
  by (simp add: tracks_def)

lemma tracks_fields [simp]: "tracks (s\<lparr>os_orders := os\<rparr>) = tracks s" "tracks (s\<lparr>os_byIdempotency := b\<rparr>) = tracks s"
  "known (s\<lparr>os_orders := os\<rparr>) = known s" "known (s\<lparr>os_byIdempotency := b\<rparr>) = known s"
  by (simp_all add: tracks_def known_def)

lemma advance_tracks:
  assumes "distinct (map fst (os_events s))" "map_of (os_events s) eid = Some ev"
    "e_OrderID ev' = e_OrderID ev" "e_Kind ev' = e_Kind ev" "next_events oid s new"
  shows "tracks (advance oid x' eid ev' new s) = set_phase eid (phase_of (e_State ev')) (tracks s) @
      map (\<lambda>(i, ev). (i, e_OrderID ev, e_Kind ev, phase_of (e_State ev))) new"
    and "known s \<subseteq> known (advance oid x' eid ev' new s)"
    and "distinct (map fst (os_events (advance oid x' eid ev' new s)))"
proof -
  let ?s1 = "s\<lparr>os_orders := AList.update oid x' (os_orders s), os_events := os_events s @ new\<rparr>"
  have eid: "eid \<in> fst ` set (os_events s)" using assms(2) by (metis domI dom_map_of_conv_image_fst)
  have d: "distinct (map fst (os_events ?s1))" using assms(1,5) by (force simp: next_events_def)
  have m: "map_of (os_events ?s1) eid = Some ev" using assms(2) by (simp add: map_add_Some_iff)
  have adv: "advance oid x' eid ev' new s = ?s1\<lparr>os_events := AList.update eid ev' (os_events ?s1)\<rparr>"
    by (simp add: advance_def)
  have t1: "tracks ?s1 = tracks s @ map (\<lambda>(i, ev). (i, e_OrderID ev, e_Kind ev, phase_of (e_State ev))) new"
    by (simp add: tracks_def)
  have "eid \<notin> fst ` set (map (\<lambda>(i, ev). (i, e_OrderID ev, e_Kind ev, phase_of (e_State ev))) new)"
    using assms(5) eid by (force simp: next_events_def)
  then show "tracks (advance oid x' eid ev' new s) = set_phase eid (phase_of (e_State ev')) (tracks s) @
      map (\<lambda>(i, ev). (i, e_OrderID ev, e_Kind ev, phase_of (e_State ev))) new"
    unfolding adv tracks_update(1) [OF d m assms(3,4)] t1 by (simp add: set_phase_append set_phase_other)
  show "known s \<subseteq> known (advance oid x' eid ev' new s)"
    unfolding adv tracks_update(2) [OF d m assms(3,4)] by (auto simp: known_def)
  show "distinct (map fst (os_events (advance oid x' eid ev' new s)))"
    using d by (simp add: adv distinct_update)
qed

lemma advance_track:
  assumes inv: "store_inv s" and x: "map_of (os_orders s) oid = Some x"
    and ev: "map_of (os_events s) eid = Some ev" "e_OrderID ev = oid" "phase_of (e_State ev) = Live"
    and ev': "e_OrderID ev' = oid" "e_Kind ev' = e_Kind ev" and new: "next_events oid s new"
  obtains xs where "workflow (o_Status x) (o_Margin x) = Some (xs @ [(e_Kind ev, Live)])"
    "track_of oid (tracks (advance oid x' eid ev' new s)) = xs @ (e_Kind ev, phase_of (e_State ev')) # new_track new"
    "\<And>q. q \<noteq> oid \<Longrightarrow> track_of q (tracks (advance oid x' eid ev' new s)) = track_of q (tracks s)"
proof -
  let ?n = "map (\<lambda>(i, ev). (i, e_OrderID ev, e_Kind ev, phase_of (e_State ev))) new"
  note D = store_invD [OF inv]
  have e: "e_OrderID ev' = e_OrderID ev" using ev(2) ev'(1) by simp
  note T = advance_tracks(1) [OF D(1) ev(1) e ev'(2) new, of x']
  have tr: "(eid, oid, e_Kind ev, Live) \<in> set (tracks s)" using event_track [OF ev(1)] ev(2,3) by simp
  then have "(e_Kind ev, Live) \<in> set (track_of oid (tracks s))" by (force simp: track_of_def)
  moreover have w: "workflow (o_Status x) (o_Margin x) = Some (track_of oid (tracks s))"
    using D(2) [OF x] by (simp add: order_ok_def)
  ultimately obtain xs where xs: "track_of oid (tracks s) = xs @ [(e_Kind ev, Live)]" "Live \<notin> snd ` set xs"
    by (elim workflow_live) auto
  have ids: "distinct (map fst (tracks s))" using D(1) by simp
  have n: "track_of oid ?n = new_track new" "q \<noteq> oid \<Longrightarrow> track_of q ?n = []" for q
    using new by (auto simp: next_events_def track_of_def new_track_def new_event_def)
  have own: "track_of oid (tracks (advance oid x' eid ev' new s)) = xs @ (e_Kind ev, phase_of (e_State ev')) # new_track new"
    using track_split [OF ids tr xs] by (simp add: T track_of_append n)
  have other: "track_of q (tracks (advance oid x' eid ev' new s)) = track_of q (tracks s)" if "q \<noteq> oid" for q
  proof -
    have "\<forall>(j, q', k, p) \<in> set (tracks s). j = eid \<longrightarrow> q' \<noteq> q"
      using eq_key_imp_eq_value [OF ids tr] that by blast
    then show ?thesis by (simp add: T track_of_append n(2) [OF that] track_set_phase_other)
  qed
  show ?thesis using that [of xs] own other w xs(1) by simp
qed

lemma advance_inv:
  assumes inv: "store_inv s" and x: "map_of (os_orders s) oid = Some x"
    and x': "o_ID x' = oid" "o_AccountID x' = o_AccountID x" "o_IdempotencyKey x' = o_IdempotencyKey x"
    and ev: "map_of (os_events s) eid = Some ev" "e_OrderID ev = oid" "phase_of (e_State ev) = Live"
    and ev': "e_ID ev' = eid" "e_OrderID ev' = oid" "e_Kind ev' = e_Kind ev"
    and new: "next_events oid s new"
    and step: "\<And>xs. workflow (o_Status x) (o_Margin x) = Some (xs @ [(e_Kind ev, Live)]) \<Longrightarrow>
      workflow (o_Status x') (o_Margin x') = Some (xs @ (e_Kind ev, phase_of (e_State ev')) # new_track new)"
  shows "store_inv (advance oid x' eid ev' new s)"
proof -
  let ?s = "advance oid x' eid ev' new s"
  note D = store_invD [OF inv]
  obtain xs where w: "workflow (o_Status x) (o_Margin x) = Some (xs @ [(e_Kind ev, Live)])"
    and own: "track_of oid (tracks ?s) = xs @ (e_Kind ev, phase_of (e_State ev')) # new_track new"
    and other: "\<And>q. q \<noteq> oid \<Longrightarrow> track_of q (tracks ?s) = track_of q (tracks s)"
    using advance_track [OF inv x ev ev'(2,3) new] by metis
  have "order_ok ?s q y" if y: "map_of (os_orders ?s) q = Some y" for q y
  proof (cases "q = oid")
    case True
    with y have "y = x'" by (simp add: advance_def update_conv')
    moreover have "order_ok s oid x" using D(2) [OF x] .
    ultimately show ?thesis
      using True x' step [OF w] own by (simp add: order_ok_def) (simp add: advance_def)
  next
    case False
    with y have "order_ok s q y" using D(2) by (simp add: advance_def update_conv')
    then show ?thesis using other [OF False] by (simp add: order_ok_def) (simp add: advance_def)
  qed
  moreover have "event_ok ?s i e" if e: "map_of (os_events ?s) i = Some e" for i e
  proof -
    from e new ev' have "(i = eid \<and> e = ev') \<or> map_of (os_events s) i = Some e \<or> (e_ID e = i \<and> e_OrderID e = oid)"
      by (auto simp: advance_def update_conv' next_events_def new_event_def map_add_Some_iff split: if_splits)
    then show ?thesis using D(4) [of i e] ev' by (auto simp: event_ok_def advance_def update_conv')
  qed
  moreover have "map_of (os_orders ?s) i \<noteq> None" if "map_of (os_byIdempotency ?s) k = Some i" for k i
    using that D(3) [of k i] by (simp add: advance_def update_conv')
  moreover have "distinct (map fst (os_events ?s))"
    using advance_tracks(3) [OF D(1) ev(1) _ ev'(3) new] ev(2) ev'(2) by simp
  ultimately show ?thesis unfolding store_inv_def by blast
qed

section \<open>Each operation keeps the workflow\<close>

lemma workflow_last:
  assumes "workflow st m = Some (xs @ [(k, Live)])"
  shows "st = PendingMargin \<and> m = MarginNone \<and> k = ReserveMargin \<and> xs = [] \<or>
    st = PendingRoute \<and> m = MarginReserved \<and> k = RouteExchange \<and> xs = [(ReserveMargin, Done)] \<or>
    st = Rejected \<and> m = MarginReleasePending \<and> k = ReleaseMargin \<and> xs = [(ReserveMargin, Done), (RouteExchange, Done)]"
  using assms by (elim workflow_live) auto

lemma workflow_moves:
  "workflow st m = Some (xs @ [(ReserveMargin, Live)]) \<Longrightarrow> workflow Rejected m = Some (xs @ [(ReserveMargin, Done)])"
  "workflow st m = Some (xs @ [(ReserveMargin, Live)]) \<Longrightarrow>
    workflow PendingRoute MarginReserved = Some (xs @ [(ReserveMargin, Done), (RouteExchange, Live)])"
  "workflow st m = Some (xs @ [(RouteExchange, Live)]) \<Longrightarrow> workflow Accepted m = Some (xs @ [(RouteExchange, Done)])"
  "workflow st m = Some (xs @ [(RouteExchange, Live)]) \<Longrightarrow>
    workflow Rejected MarginReleasePending = Some (xs @ [(RouteExchange, Done), (ReleaseMargin, Live)])"
  "workflow st m = Some (xs @ [(ReleaseMargin, Live)]) \<Longrightarrow> workflow st MarginReleased = Some (xs @ [(ReleaseMargin, Done)])"
  "workflow st m = Some (xs @ [(k, Live)]) \<Longrightarrow> workflow ReconciliationRequired m = Some (xs @ [(k, Dead)])"
  by (drule workflow_last, auto)+

lemma known_current:
  "store_inv s \<Longrightarrow> (i, oid, k) \<in> known s \<Longrightarrow> map_of (os_events s) i = Some ev \<Longrightarrow> e_OrderID ev = oid \<and> e_Kind ev = k"
  using store_invD(1) [of s] by (auto simp: known_def map_of_eq_Some_iff dest: eq_key_imp_eq_value)

lemma leased_current:
  "leased i tok s = Some ev \<Longrightarrow> map_of (os_events s) i = Some ev \<and> phase_of (e_State ev) = Live"
  by (auto simp: leased_def split: option.splits if_splits)

lemma PutOrder_present:
  "map_of (os_orders s) (o_ID x) = Some y \<Longrightarrow> PutOrder x s = Inr (s\<lparr>os_orders := AList.update (o_ID x) x (os_orders s)\<rparr>)"
  by (simp add: PutOrder_def)

lemma close_advance:
  "map_of (os_events s) eid = Some ev \<Longrightarrow>
    close_event eid f (s\<lparr>os_orders := AList.update oid x' (os_orders s), os_events := os_events s @ new\<rparr>) =
      advance oid x' eid (f ev) new s"
  by (simp add: close_event_def advance_def map_add_def)

text \<open>A transaction body that takes the order of an event of kind \<open>k\<close> one step along its workflow.\<close>

definition progress :: "event_kind \<Rightarrow> phase \<Rightarrow> string \<Rightarrow> order_state \<Rightarrow> order_state \<Rightarrow> bool" where
  "progress k p oid s t \<longleftrightarrow> (\<exists>x x' new. map_of (os_orders s) oid = Some x \<and>
     o_ID x' = oid \<and> o_AccountID x' = o_AccountID x \<and> o_IdempotencyKey x' = o_IdempotencyKey x \<and>
     o_RequestHash x' = o_RequestHash x \<and> next_events oid s new \<and>
     t = s\<lparr>os_orders := AList.update oid x' (os_orders s), os_events := os_events s @ new\<rparr> \<and>
     (\<forall>xs. workflow (o_Status x) (o_Margin x) = Some (xs @ [(k, Live)]) \<longrightarrow>
        workflow (o_Status x') (o_Margin x') = Some (xs @ (k, p) # new_track new)))"

text \<open>Nothing an operation does removes an order or an event, or changes what was asked.\<close>

definition kept :: "order_state \<Rightarrow> order_state \<Rightarrow> bool" where
  "kept s t \<longleftrightarrow> known s \<subseteq> known t \<and>
     (\<forall>i x. map_of (os_orders s) i = Some x \<longrightarrow>
        (\<exists>x'. map_of (os_orders t) i = Some x' \<and> o_AccountID x' = o_AccountID x \<and>
          o_IdempotencyKey x' = o_IdempotencyKey x \<and> o_RequestHash x' = o_RequestHash x))"

lemma kept_refl [simp]: "kept s s"
  by (simp add: kept_def)

lemma kept_trans: "kept s t \<Longrightarrow> kept t u \<Longrightarrow> kept s u"
  unfolding kept_def by (metis subset_trans)

lemma kept_events: "known t = known s \<Longrightarrow> os_orders t = os_orders s \<Longrightarrow> kept s t"
  by (simp add: kept_def)

lemma kept_advance:
  "known s \<subseteq> known (advance oid x' eid ev' new s) \<Longrightarrow> map_of (os_orders s) oid = Some x \<Longrightarrow>
    o_AccountID x' = o_AccountID x \<Longrightarrow> o_IdempotencyKey x' = o_IdempotencyKey x \<Longrightarrow> o_RequestHash x' = o_RequestHash x \<Longrightarrow>
    kept s (advance oid x' eid ev' new s)"
  by (simp add: kept_def) (simp add: advance_def update_conv')

lemma progress_advance:
  assumes "store_inv s" "progress (e_Kind ev) p (e_OrderID ev) s t" "map_of (os_events s) eid = Some ev"
    "phase_of (e_State ev) = Live" "e_ID (f ev) = e_ID ev" "e_OrderID (f ev) = e_OrderID ev" "e_Kind (f ev) = e_Kind ev"
    "phase_of (e_State (f ev)) = p"
  shows "store_inv (close_event eid f t) \<and> kept s (close_event eid f t)"
proof -
  from assms(2) obtain x x' new where x: "map_of (os_orders s) (e_OrderID ev) = Some x"
    "o_ID x' = e_OrderID ev" "o_AccountID x' = o_AccountID x" "o_IdempotencyKey x' = o_IdempotencyKey x"
    "next_events (e_OrderID ev) s new" "o_RequestHash x' = o_RequestHash x"
    and t: "t = s\<lparr>os_orders := AList.update (e_OrderID ev) x' (os_orders s), os_events := os_events s @ new\<rparr>"
    and w: "\<And>xs. workflow (o_Status x) (o_Margin x) = Some (xs @ [(e_Kind ev, Live)]) \<Longrightarrow>
      workflow (o_Status x') (o_Margin x') = Some (xs @ (e_Kind ev, p) # new_track new)"
    unfolding progress_def by blast
  have "e_ID (f ev) = eid" using store_invD(4) [OF assms(1,3)] assms(5) by (simp add: event_ok_def)
  then show ?thesis
    using advance_inv [OF assms(1) x(1-4) assms(3) refl assms(4) _ assms(6,7) x(5)] w assms(8)
      kept_advance [OF advance_tracks(2) [OF store_invD(1) [OF assms(1)] assms(3,6,7) x(5)] x(1,3,4,6)] close_advance [OF assms(3)]
    by (simp add: t)
qed

lemma progress_put:
  assumes "map_of (os_orders s) oid = Some x" "o_ID x' = oid" "o_AccountID x' = o_AccountID x" "o_IdempotencyKey x' = o_IdempotencyKey x"
    "o_RequestHash x' = o_RequestHash x" "\<And>xs. workflow (o_Status x) (o_Margin x) = Some (xs @ [(k, Live)]) \<Longrightarrow> workflow (o_Status x') (o_Margin x') = Some (xs @ [(k, p)])"
  shows "\<exists>t. PutOrder x' s = Inr t \<and> progress k p oid s t"
  using assms PutOrder_present [of s x' x]
  by (auto simp: progress_def next_events_def new_track_def intro!: exI [of _ x] exI [of _ x'] exI [of _ "[]"])

lemma progress_enqueue:
  assumes "map_of (os_orders s) oid = Some x" "o_ID x' = oid" "o_AccountID x' = o_AccountID x" "o_IdempotencyKey x' = o_IdempotencyKey x"
    "o_RequestHash x' = o_RequestHash x" "\<And>xs. workflow (o_Status x) (o_Margin x) = Some (xs @ [(k, Live)]) \<Longrightarrow>
      workflow (o_Status x') (o_Margin x') = Some (xs @ [(k, p), (k2, Live)])"
    "fresh_event nid s" "PutOrder x' s = Inr t1" "Enqueue nid oid k2 now t1 = Inr t"
  shows "progress k p oid s t"
proof -
  from assms(9) obtain n where n: "nid = Some n"
    and t: "t = t1\<lparr>os_events := AList.update n (new_event n oid k2 now) (os_events t1)\<rparr>"
    by (auto simp: Enqueue_def split: option.splits)
  have t1: "t1 = s\<lparr>os_orders := AList.update oid x' (os_orders s)\<rparr>"
    using assms(1,2,8) PutOrder_present [of s x' x] by simp
  have f: "n \<notin> fst ` set (os_events s)" using assms(7) n by (simp add: fresh_event_def)
  have "t = s\<lparr>os_orders := AList.update oid x' (os_orders s), os_events := os_events s @ [(n, new_event n oid k2 now)]\<rparr>"
    using f by (simp add: t t1 update_absent)
  moreover have "next_events oid s [(n, new_event n oid k2 now)]" using f by (auto simp: next_events_def)
  moreover have "new_track [(n, new_event n oid k2 now)] = [(k2, Live)]" by (simp add: new_track_def new_event_def)
  ultimately show ?thesis using assms(1-6) unfolding progress_def by metis
qed

lemma reserve_tx_progress:
  assumes "reserve_tx c oid i ok why s = Inr t" "fresh_event (c_newid c) s" "\<And>x. map_of (os_orders s) oid = Some x \<Longrightarrow> o_ID x = oid"
  shows "progress ReserveMargin Done oid s t"
proof -
  from assms(1) obtain x where x: "map_of (os_orders s) oid = Some x"
    by (auto simp: reserve_tx_def tx_Order_def split: option.splits)
  let ?x = "x\<lparr>o_Status := Rejected, o_FailureReason := why, o_UpdatedAt := c_now c\<rparr>"
  let ?y = "x\<lparr>o_Status := PendingRoute, o_Margin := MarginReserved, o_ReservationID := i, o_UpdatedAt := c_now c\<rparr>"
  have 1: "\<exists>t. PutOrder ?x s = Inr t \<and> progress ReserveMargin Done oid s t"
    using progress_put [OF x, of ?x ReserveMargin Done] workflow_moves(1) assms(3) [OF x] by simp
  have 2: "progress ReserveMargin Done oid s t" if "PutOrder ?y s = Inr t1" "Enqueue (c_newid c) oid RouteExchange (c_now c) t1 = Inr t" for t1
    using progress_enqueue [OF x, of ?y ReserveMargin Done RouteExchange "c_newid c" t1 "c_now c" t] that assms(2) assms(3) [OF x]
      workflow_moves(2) by simp
  show ?thesis
    using assms(1) 1 2 assms(3) [OF x] by (cases ok) (auto simp: reserve_tx_def tx_Order_def x split: sum.splits)
qed

lemma route_tx_progress:
  assumes "route_tx c oid i ok why s = Inr t" "fresh_event (c_newid c) s" "\<And>x. map_of (os_orders s) oid = Some x \<Longrightarrow> o_ID x = oid"
  shows "progress RouteExchange Done oid s t"
proof -
  from assms(1) obtain x where x: "map_of (os_orders s) oid = Some x"
    by (auto simp: route_tx_def tx_Order_def split: option.splits)
  let ?x = "x\<lparr>o_Status := Accepted, o_ExchangeOrderID := i, o_UpdatedAt := c_now c\<rparr>"
  let ?y = "x\<lparr>o_Status := Rejected, o_Margin := MarginReleasePending, o_FailureReason := why, o_UpdatedAt := c_now c\<rparr>"
  have 1: "\<exists>t. PutOrder ?x s = Inr t \<and> progress RouteExchange Done oid s t"
    using progress_put [OF x, of ?x RouteExchange Done] workflow_moves(3) assms(3) [OF x] by simp
  have 2: "progress RouteExchange Done oid s t" if "PutOrder ?y s = Inr t1" "Enqueue (c_newid c) oid ReleaseMargin (c_now c) t1 = Inr t" for t1
    using progress_enqueue [OF x, of ?y RouteExchange Done ReleaseMargin "c_newid c" t1 "c_now c" t] that assms(2) assms(3) [OF x]
      workflow_moves(4) by simp
  show ?thesis
    using assms(1) 1 2 assms(3) [OF x] by (cases ok) (auto simp: route_tx_def tx_Order_def x split: sum.splits)
qed

lemma release_tx_progress:
  assumes "release_tx c oid s = Inr t" "\<And>x. map_of (os_orders s) oid = Some x \<Longrightarrow> o_ID x = oid"
  shows "progress ReleaseMargin Done oid s t"
proof -
  from assms(1) obtain x where x: "map_of (os_orders s) oid = Some x"
    by (auto simp: release_tx_def tx_Order_def split: option.splits)
  let ?x = "x\<lparr>o_Margin := MarginReleased, o_UpdatedAt := c_now c\<rparr>"
  have "\<exists>t. PutOrder ?x s = Inr t \<and> progress ReleaseMargin Done oid s t"
    using progress_put [OF x, of ?x ReleaseMargin Done] workflow_moves(5) assms(2) [OF x] by simp
  then show ?thesis using assms(1) by (auto simp: release_tx_def tx_Order_def x)
qed

lemma finish_tx_progress:
  assumes "finish_tx c k oid answer s = Inr t" "fresh_event (c_newid c) s" "\<And>x. map_of (os_orders s) oid = Some x \<Longrightarrow> o_ID x = oid"
    "\<And>j. k \<noteq> OtherKind j"
  shows "progress k Done oid s t"
  using assms reserve_tx_progress [OF _ assms(2,3)] route_tx_progress [OF _ assms(2,3)] release_tx_progress [OF _ assms(3)]
  by (cases k) (auto simp: finish_tx_def split: prod.splits)

lemma Finalize_inv:
  assumes "store_inv s" "(e_ID ev, e_OrderID ev, e_Kind ev) \<in> known s" "\<And>j. e_Kind ev \<noteq> OtherKind j"
    "fresh_event (c_newid c) s"
  shows "store_inv (snd (Finalize cancelled now (e_ID ev) tok (finish_tx c (e_Kind ev) (e_OrderID ev) answer) s)) \<and>
    kept s (snd (Finalize cancelled now (e_ID ev) tok (finish_tx c (e_Kind ev) (e_OrderID ev) answer) s))"
proof (cases "leased (e_ID ev) tok s")
  case (Some cur)
  have cur: "map_of (os_events s) (e_ID ev) = Some cur" "phase_of (e_State cur) = Live"
    using leased_current [OF Some] by auto
  have same: "e_OrderID cur = e_OrderID ev" "e_Kind cur = e_Kind ev" using known_current [OF assms(1,2) cur(1)] by auto
  have id: "map_of (os_orders s) oid = Some x \<Longrightarrow> o_ID x = oid" for oid x
    using store_invD(2) [OF assms(1)] by (simp add: order_ok_def)
  show ?thesis
  proof (cases "finish_tx c (e_Kind ev) (e_OrderID ev) answer s")
    case (Inr t)
    have "progress (e_Kind cur) Done (e_OrderID cur) s t"
      using finish_tx_progress [OF Inr assms(4) id assms(3)] same by simp
    from progress_advance [OF assms(1) this cur, of
        "\<lambda>x. x\<lparr>e_State := EventDelivered, e_LeaseToken := [], e_LeaseUntil := zero_time, e_DeliveredAt := now\<rparr>"]
    show ?thesis using Some Inr assms(1) by (simp add: Finalize_def order_transaction_def)
  qed (use Some assms(1) in \<open>simp add: Finalize_def order_transaction_def\<close>)
qed (use assms(1) in \<open>simp add: Finalize_def\<close>)

lemma abandon_inv:
  assumes "store_inv s" "(e_ID ev, e_OrderID ev, e_Kind ev) \<in> known s"
  shows "store_inv (snd (abandon c ev cause s)) \<and> kept s (snd (abandon c ev cause s))"
proof (cases "leased (e_ID ev) (e_LeaseToken ev) s")
  case (Some cur)
  have cur: "map_of (os_events s) (e_ID ev) = Some cur" "phase_of (e_State cur) = Live"
    using leased_current [OF Some] by auto
  have same: "e_OrderID cur = e_OrderID ev" "e_Kind cur = e_Kind ev" using known_current [OF assms cur(1)] by auto
  obtain x where x: "map_of (os_orders s) (e_OrderID ev) = Some x" "o_ID x = e_OrderID ev"
    using store_invD(4) [OF assms(1) cur(1)] store_invD(2) [OF assms(1)] same by (auto simp: event_ok_def order_ok_def)
  let ?x = "x\<lparr>o_Status := ReconciliationRequired, o_FailureReason := cause, o_UpdatedAt := c_now c\<rparr>"
  have "\<exists>t. PutOrder ?x s = Inr t \<and> progress (e_Kind cur) Dead (e_OrderID cur) s t"
    using progress_put [OF x(1), of ?x "e_Kind ev" Dead] workflow_moves(6) x(2) same by simp
  then obtain t where t: "PutOrder ?x s = Inr t" "progress (e_Kind cur) Dead (e_OrderID cur) s t" by blast
  from progress_advance [OF assms(1) t(2) cur, of
      "\<lambda>x. x\<lparr>e_State := EventDead, e_LeaseToken := [], e_LeaseUntil := zero_time, e_Attempts := e_Attempts x + 1, e_LastError := cause\<rparr>"]
  show ?thesis using Some assms(1) t(1) x(1) by (simp add: abandon_def Abandon_def order_transaction_def tx_Order_def)
qed (use assms(1) in \<open>simp add: abandon_def Abandon_def\<close>)

lemma Retry_orders: "os_orders (snd (Retry cancelled i tok at' why s)) = os_orders s"
  by (simp add: Retry_def split: option.split)

lemma Retry_kept:
  "store_inv s \<Longrightarrow> store_inv (snd (Retry cancelled i tok at' why s)) \<and> kept s (snd (Retry cancelled i tok at' why s))"
  using Retry_inv kept_events Retry_orders by simp

lemma finish_inv:
  assumes "store_inv s" "(e_ID ev, e_OrderID ev, e_Kind ev) \<in> known s" "\<And>j. e_Kind ev \<noteq> OtherKind j"
    "o_ID x = e_OrderID ev" "fresh_event (c_newid c) s"
  shows "store_inv (snd (finish d c ev x reply s)) \<and> kept s (snd (finish d c ev x reply s))"
  using Finalize_inv [OF assms(1,2,3,5)] abandon_inv [OF assms(1,2)] Retry_kept [OF assms(1)] assms(4)
  by (simp add: finish_def handleRemoteError_def split: remote.splits)

lemma claim_loop_orders: "os_orders (snd (claim_loop til ps tokens s)) = os_orders s"
  by (induction til ps tokens s rule: claim_loop.induct) (auto split: prod.splits sum.splits)

lemma ClaimDue_orders: "os_orders (snd (ClaimDue cancelled now leaseFor limit tokens s)) = os_orders s"
  by (simp add: ClaimDue_def Let_def claim_loop_orders)

text \<open>Placing.\<close>

definition placed :: "string \<Rightarrow> order \<Rightarrow> string \<Rightarrow> outbox_event \<Rightarrow> order_state \<Rightarrow> order_state" where
  "placed i x e ev s =
     s\<lparr>os_byIdempotency := AList.update (idempotencyIndex (o_AccountID x) (o_IdempotencyKey x)) i (os_byIdempotency s),
       os_orders := AList.update i x (os_orders s), os_events := os_events s @ [(e, ev)]\<rparr>"

lemma key_unused:
  assumes "store_inv s" "OrderByIdempotency a k s = None"
  shows "map_of (os_byIdempotency s) (idempotencyIndex a k) = None"
proof (cases "map_of (os_byIdempotency s) (idempotencyIndex a k)")
  case (Some i)
  with assms(2) store_invD(3) [OF assms(1) Some] show ?thesis by (simp add: OrderByIdempotency_def)
qed

lemma Place_cases:
  assumes "store_inv s" "fresh_order oid s" "fresh_event eid s"
  obtains (same) "snd (Place sha cancelled oid eid now r s) = s"
  | (added) i e where "oid = Some i" "map_of (os_orders s) i = None" "e \<notin> fst ` set (os_events s)"
      "map_of (os_byIdempotency s) (idempotencyIndex (r_AccountID r) (r_IdempotencyKey r)) = None"
      "Place sha cancelled oid eid now r s =
        (Inr (new_order i (requestFingerprint sha r) now r, False),
         placed i (new_order i (requestFingerprint sha r) now r) e (new_event e i ReserveMargin now) s)"
proof (cases "snd (Place sha cancelled oid eid now r s) = s")
  case False
  then have v: "validate_order r = None" "\<not> cancelled" and n: "OrderByIdempotency (r_AccountID r) (r_IdempotencyKey r) s = None"
    by (auto simp: Place_def order_transaction_def Let_def split: option.splits if_splits)
  from False v n obtain i e where i: "oid = Some i" "eid = Some e"
    by (auto simp: Place_def order_transaction_def Let_def Enqueue_def split: option.splits sum.splits)
  have f: "map_of (os_orders s) i = None" "e \<notin> fst ` set (os_events s)"
    using assms(2,3) i by (auto simp: fresh_order_def fresh_event_def map_of_eq_None_iff)
  note k = key_unused [OF assms(1) n]
  have "Place sha cancelled oid eid now r s =
        (Inr (new_order i (requestFingerprint sha r) now r, False),
         placed i (new_order i (requestFingerprint sha r) now r) e (new_event e i ReserveMargin now) s)"
    using v n i f k by (simp add: Place_def order_transaction_def Let_def PutOrder_def Enqueue_def placed_def new_order_def update_absent)
  with added i f k show ?thesis by blast
qed (rule same)

lemma no_events_of:
  assumes "store_inv s" "map_of (os_orders s) i = None"
  shows "track_of i (tracks s) = []"
proof -
  have False if "(j, ev) \<in> set (os_events s)" "e_OrderID ev = i" for j ev
  proof -
    have "map_of (os_events s) j = Some ev" using that(1) store_invD(1) [OF assms(1)] by simp
    from store_invD(4) [OF assms(1) this] show False using that(2) assms(2) by (simp add: event_ok_def)
  qed
  then show ?thesis by (intro track_absent) auto
qed

lemma placed_inv:
  assumes inv: "store_inv s" and i: "map_of (os_orders s) i = None" and e: "e \<notin> fst ` set (os_events s)"
    and k: "map_of (os_byIdempotency s) (idempotencyIndex (r_AccountID r) (r_IdempotencyKey r)) = None"
  shows "store_inv (placed i (new_order i h now r) e (new_event e i ReserveMargin now) s) \<and>
    kept s (placed i (new_order i h now r) e (new_event e i ReserveMargin now) s)"
proof -
  let ?x = "new_order i h now r" and ?ev = "new_event e i ReserveMargin now"
  let ?s = "placed i ?x e ?ev s"
  note D = store_invD [OF inv]
  have tr: "tracks ?s = tracks s @ [(e, i, ReserveMargin, Live)]"
    by (simp add: tracks_def placed_def new_event_def)
  have own: "track_of i (tracks ?s) = [(ReserveMargin, Live)]"
    using no_events_of [OF inv i] by (simp add: tr track_of_append) (simp add: track_of_def)
  have other: "track_of q (tracks ?s) = track_of q (tracks s)" if "q \<noteq> i" for q
    using that by (simp add: tr track_of_append) (simp add: track_of_def)
  have "order_ok ?s q y" if y: "map_of (os_orders ?s) q = Some y" for q y
  proof (cases "q = i")
    case True
    with y have "y = ?x" by (simp add: placed_def update_conv')
    then show ?thesis using True own by (simp add: order_ok_def) (simp add: placed_def new_order_def update_conv')
  next
    case False
    with y have "order_ok s q y" using D(2) by (simp add: placed_def update_conv')
    with False k other [OF False] show ?thesis
      by (auto simp: order_ok_def) (auto simp: placed_def new_order_def update_conv')
  qed
  moreover have "event_ok ?s j ev" if "map_of (os_events ?s) j = Some ev" for j ev
    using that D(4) [of j ev]
    by (auto simp: placed_def event_ok_def new_event_def map_add_Some_iff update_conv' split: if_splits)
  moreover have "map_of (os_orders ?s) j \<noteq> None" if "map_of (os_byIdempotency ?s) kk = Some j" for kk j
    using that D(3) [of kk j] by (auto simp: placed_def update_conv' split: if_splits)
  moreover have "distinct (map fst (os_events ?s))" using D(1) e by (simp add: placed_def)
  moreover have "kept s ?s" using i by (auto simp: kept_def known_def placed_def update_conv')
  ultimately show ?thesis unfolding store_inv_def by blast
qed

section \<open>Every interleaving\<close>

lemma saga_inv_store:
  "saga_inv y \<Longrightarrow> store_inv s' \<Longrightarrow> kept (y_store y) s' \<Longrightarrow> saga_inv (y\<lparr>y_store := s'\<rparr>)"
  unfolding saga_inv_def kept_def by (simp add: subset_iff) blast

lemma workflow_kinds:
  "workflow st m = Some tr \<Longrightarrow> distinct (map fst tr) \<and> fst ` set tr \<subseteq> {ReserveMargin, RouteExchange, ReleaseMargin}"
  by (cases st; cases m) auto

lemma workflow_accepted: "workflow Accepted m = Some tr \<Longrightarrow> tr = [(ReserveMargin, Done), (RouteExchange, Done)]"
  by (cases m) auto

lemma known_order:
  assumes "store_inv s" "(i, oid, k) \<in> known s"
  obtains x p where "map_of (os_orders s) oid = Some x" "order_ok s oid x" "(i, oid, k, p) \<in> set (tracks s)"
proof -
  from assms(2) obtain ev where ev: "(i, ev) \<in> set (os_events s)" "e_OrderID ev = oid" "e_Kind ev = k"
    by (auto simp: known_def)
  then have m: "map_of (os_events s) i = Some ev" using store_invD(1) [OF assms(1)] by simp
  then obtain x where "map_of (os_orders s) oid = Some x"
    using store_invD(4) [OF assms(1)] ev(2) by (auto simp: event_ok_def)
  then show ?thesis using that store_invD(2) [OF assms(1)] event_track [OF m] ev(2,3) by blast
qed

lemma known_kind:
  assumes "store_inv s" "(i, oid, k) \<in> known s"
  shows "k \<noteq> OtherKind j"
proof -
  obtain x p where "order_ok s oid x" "(i, oid, k, p) \<in> set (tracks s)" using known_order [OF assms] by metis
  then have "k \<in> fst ` set (track_of oid (tracks s))" by (force simp: track_of_def)
  with workflow_kinds \<open>order_ok s oid x\<close> show ?thesis unfolding order_ok_def by fastforce
qed

lemma known_unique:
  assumes "store_inv s" "(a, oid, k) \<in> known s" "(b, oid, k) \<in> known s"
  shows "a = b"
proof -
  let ?F = "filter (\<lambda>(i, q, k, p). q = oid) (tracks s)"
  obtain x p where x: "order_ok s oid x" "(a, oid, k, p) \<in> set (tracks s)" using known_order [OF assms(1,2)] by metis
  obtain q where q: "(b, oid, k, q) \<in> set (tracks s)" using known_order [OF assms(1,3)] by metis
  have "map (\<lambda>(i, q, k, p). k) ?F = map fst (track_of oid (tracks s))"
    by (simp add: track_of_def case_prod_beta)
  moreover have "distinct (map fst (track_of oid (tracks s)))"
    using workflow_kinds x(1) unfolding order_ok_def by blast
  ultimately have "distinct (map (\<lambda>(i, q, k, p). k) ?F)" by simp
  then have "inj_on (\<lambda>(i, q, k, p). k) (set ?F)" by (simp add: distinct_map)
  from inj_onD [OF this, of "(a, oid, k, p)" "(b, oid, k, q)"] show ?thesis using x(2) q by simp
qed

lemma saga_step_inv:
  assumes "saga_step sha d y y'" "saga_inv y"
  shows "saga_inv y' \<and> kept (y_store y) (y_store y')"
  using assms
proof (induction rule: saga_step.induct)
  case (place oid y eid cancelled now r)
  have inv: "store_inv (y_store y)" using place.prems by (simp add: saga_inv_def)
  have "store_inv (snd (Place sha cancelled oid eid now r (y_store y))) \<and>
      kept (y_store y) (snd (Place sha cancelled oid eid now r (y_store y)))"
    using Place_cases [OF inv place.hyps(1,2)] placed_inv [OF inv] inv by (metis kept_refl snd_conv)
  then show ?case using saga_inv_store [OF place.prems] by simp
next
  case (claim cancelled now limit tokens y res s')
  have inv: "store_inv (y_store y)" using claim.prems by (simp add: saga_inv_def)
  note C = ClaimDue_inv [OF inv claim.hyps]
  have k: "kept (y_store y) s'"
    using C ClaimDue_orders [of cancelled now "d_leaseFor d" limit tokens "y_store y"] claim.hyps by (intro kept_events) auto
  have "saga_inv (y\<lparr>y_store := s'\<rparr>)" using saga_inv_store [OF claim.prems _ k] C by blast
  then show ?case using C k by (cases res) (auto simp: saga_inv_def)
next
  case (call y xs ev ys x c)
  have inv: "store_inv (y_store y)" and ev: "(e_ID ev, e_OrderID ev, e_Kind ev) \<in> known (y_store y)"
    using call.prems call.hyps(1) by (auto simp: saga_inv_def)
  have "o_ID x = e_OrderID ev"
    using call.hyps(3) store_invD(2) [OF inv] by (auto simp: orderFor_def tx_Order_def order_ok_def split: option.splits)
  then show ?case using call.prems call.hyps(1) ev by (auto simp: saga_inv_def)
next
  case (unknown y xs ev ys k c)
  have inv: "store_inv (y_store y)" and ev: "(e_ID ev, e_OrderID ev, e_Kind ev) \<in> known (y_store y)"
    using unknown.prems unknown.hyps(1) by (auto simp: saga_inv_def)
  with known_kind unknown.hyps(2) show ?case by blast
next
  case (finish y xs ev x reply ys c)
  have inv: "store_inv (y_store y)" and ev: "(e_ID ev, e_OrderID ev, e_Kind ev) \<in> known (y_store y)" "o_ID x = e_OrderID ev"
    using finish.prems finish.hyps(1) by (auto simp: saga_inv_def)
  note F = finish_inv [OF inv ev(1) known_kind [OF inv ev(1)] ev(2) finish.hyps(2), of d reply]
  then have "saga_inv (y\<lparr>y_store := snd (finish d c ev x reply (y_store y))\<rparr>)"
    using saga_inv_store [OF finish.prems] by blast
  then show ?case using F finish.hyps(1) by (auto simp: saga_inv_def)
next
  case (stop js y cs)
  then show ?case by (auto simp: saga_inv_def)
qed

lemma saga_init_inv: "saga_inv saga_init"
  by (simp add: saga_inv_def saga_init_def store_inv_def NewMemoryStore_def)

lemma saga_run_inv:
  assumes "(saga_step sha d)\<^sup>*\<^sup>* y y'" "saga_inv y"
  shows "saga_inv y' \<and> kept (y_store y) (y_store y')"
  using assms(1)
proof (induction rule: rtranclp_induct)
  case (step z w)
  then show ?case using saga_step_inv [of sha d z w] kept_trans by blast
qed (use assms(2) in simp)

text \<open>C34. However orders are placed, events claimed, re-claimed after a lease runs out, answered, retried,
  abandoned, and dispatchers stopped, the events of every order are exactly those its status and
  margin call for: an order that is not settled has one live event, a settled one has none, margin
  is released only after a rejection by the exchange, and an accepted order has no release. Every
  call a gateway sees for a step of an order carries the same operation identifier, so that a retry
  is recognisable; no release is ever asked for an accepted order; and two orders never share an
  account and an idempotency key.\<close>

theorem order_saga:
  assumes "(saga_step sha d)\<^sup>*\<^sup>* saga_init y"
  shows "(map_of (os_orders (y_store y)) i = Some x \<longrightarrow>
      workflow (o_Status x) (o_Margin x) = Some (track_of i (tracks (y_store y)))) \<and>
    ((k, i, a) \<in> set (y_log y) \<and> (k, i, b) \<in> set (y_log y) \<longrightarrow> a = b) \<and>
    (map_of (os_orders (y_store y)) i = Some x \<and> o_Status x = Accepted \<longrightarrow> (ReleaseMargin, i, a) \<notin> set (y_log y)) \<and>
    (map_of (os_orders (y_store y)) i = Some x \<and> map_of (os_orders (y_store y)) j = Some x' \<and>
       o_AccountID x' = o_AccountID x \<and> o_IdempotencyKey x' = o_IdempotencyKey x \<longrightarrow> i = j)"
proof -
  have inv: "saga_inv y" using saga_run_inv [OF assms saga_init_inv] by simp
  then have st: "store_inv (y_store y)" by (simp add: saga_inv_def)
  have ok: "order_ok (y_store y) i x" if "map_of (os_orders (y_store y)) i = Some x" for i x
    using store_invD(2) [OF st that] .
  have log: "(a, i, k) \<in> known (y_store y)" if "(k, i, a) \<in> set (y_log y)" for a i k
    using inv that by (auto simp: saga_inv_def)
  have acc: "(ReleaseMargin, i, a) \<notin> set (y_log y)" if x: "map_of (os_orders (y_store y)) i = Some x" "o_Status x = Accepted"
  proof
    assume "(ReleaseMargin, i, a) \<in> set (y_log y)"
    from known_order [OF st log [OF this]] obtain p where "(a, i, ReleaseMargin, p) \<in> set (tracks (y_store y))" by metis
    then have "ReleaseMargin \<in> fst ` set (track_of i (tracks (y_store y)))" by (force simp: track_of_def)
    moreover have "workflow Accepted (o_Margin x) = Some (track_of i (tracks (y_store y)))"
      using ok [OF x(1)] x(2) by (simp add: order_ok_def)
    ultimately show False using workflow_accepted by fastforce
  qed
  have idem: "i = j" if "map_of (os_orders (y_store y)) i = Some x" "map_of (os_orders (y_store y)) j = Some x'"
      "o_AccountID x' = o_AccountID x" "o_IdempotencyKey x' = o_IdempotencyKey x"
    using ok [OF that(1)] ok [OF that(2)] that(3,4) by (simp add: order_ok_def)
  have "a = b" if "(k, i, a) \<in> set (y_log y)" "(k, i, b) \<in> set (y_log y)"
    using known_unique [OF st log [OF that(1)] log [OF that(2)]] .
  then show ?thesis using idem acc ok unfolding order_ok_def by blast
qed

definition demo_request :: place_request where
  "demo_request = \<lparr>r_AccountID = ''acct'', r_IdempotencyKey = ''k1'', r_Instrument = ''INFY'', r_Side = ''BUY'',
     r_Quantity = 10, r_LimitPrice = 150000\<rparr>"

definition demo_saga :: saga where
  "demo_saga = saga_init\<lparr>y_store := snd (Place (\<lambda>t. t) False (Some ''o1'') (Some ''e1'') 5 demo_request NewMemoryStore)\<rparr>"

lemma demo_saga_reached: "(saga_step (\<lambda>t. t) d)\<^sup>*\<^sup>* saga_init demo_saga"
proof -
  have "saga_step (\<lambda>t. t) d saga_init demo_saga"
    using saga_step.place [of "Some ''o1''" saga_init "Some ''e1''" "\<lambda>t. t" d False 5 demo_request]
    by (simp add: demo_saga_def saga_init_def fresh_order_def fresh_event_def NewMemoryStore_def)
  then show ?thesis by blast
qed

lemma demo_order:
  "map_of (os_orders (y_store demo_saga)) ''o1'' = Some (new_order ''o1'' (requestFingerprint (\<lambda>t. t) demo_request) 5 demo_request)"
  by (simp add: demo_saga_def Place_def validate_order_def demo_request_def order_transaction_def OrderByIdempotency_def
      NewMemoryStore_def PutOrder_def Enqueue_def new_order_def Let_def)

theorem order_saga_witness:
  "workflow PendingMargin MarginNone = Some (track_of ''o1'' (tracks (y_store demo_saga)))"
  using order_saga [OF demo_saga_reached, THEN conjunct1, THEN mp, OF demo_order] by (simp add: new_order_def)

lemma Place_new:
  assumes "Place sha cancelled oid eid now r s = (Inr (x, False), s')"
  obtains i where "x = new_order i (requestFingerprint sha r) now r" "map_of (os_orders s') i = Some x"
  using assms
  by (auto simp: Place_def order_transaction_def Let_def PutOrder_def Enqueue_def update_conv' new_order_def
      split: option.splits if_splits sum.splits)

lemma Place_again:
  assumes "OrderByIdempotency (r_AccountID r) (r_IdempotencyKey r) s = Some x" "validate_order r = None"
  shows "Place sha False oid eid now r s =
    (if requestFingerprint sha r = o_RequestHash x then Inr (x, True) else Inl ErrIdempotencyConflict, s)"
  using assms by (simp add: Place_def order_transaction_def)

text \<open>C35. An order that was placed stays placed: whatever happens afterwards, placing with the same
  account and key again answers with that order and changes nothing when the request has the same
  fingerprint, and is refused as a conflict otherwise.\<close>

theorem Place_replays:
  assumes "(saga_step sha d)\<^sup>*\<^sup>* saga_init y" "fresh_order oid (y_store y)" "fresh_event eid (y_store y)"
    and first: "Place sha cancelled oid eid now r (y_store y) = (Inr (x, False), s')"
    and later: "(saga_step sha d)\<^sup>*\<^sup>* (y\<lparr>y_store := s'\<rparr>) z"
    and again: "validate_order r' = None" "r_AccountID r' = r_AccountID r" "r_IdempotencyKey r' = r_IdempotencyKey r"
  shows "\<exists>x'. o_ID x' = o_ID x \<and> map_of (os_orders (y_store z)) (o_ID x) = Some x' \<and>
    Place sha False oid' eid' now' r' (y_store z) =
      (if requestFingerprint sha r' = requestFingerprint sha r then Inr (x', True) else Inl ErrIdempotencyConflict, y_store z)"
proof -
  have y: "saga_inv y" using saga_run_inv [OF assms(1) saga_init_inv] by simp
  then have inv: "store_inv (y_store y)" by (simp add: saga_inv_def)
  have step: "saga_step sha d y (y\<lparr>y_store := s'\<rparr>)"
    using saga_step.place [OF assms(2,3), of sha d cancelled now r] first by simp
  from saga_step_inv [OF step y] have y': "saga_inv (y\<lparr>y_store := s'\<rparr>)" by simp
  from saga_run_inv [OF later y'] have z: "store_inv (y_store z)" "kept s' (y_store z)"
    by (simp_all add: saga_inv_def)
  obtain i where i: "x = new_order i (requestFingerprint sha r) now r" "map_of (os_orders s') i = Some x"
    using Place_new [OF first] by metis
  then obtain x' where x': "map_of (os_orders (y_store z)) i = Some x'" "o_AccountID x' = o_AccountID x"
    "o_IdempotencyKey x' = o_IdempotencyKey x" "o_RequestHash x' = o_RequestHash x"
    using z(2) unfolding kept_def by blast
  have ok: "order_ok (y_store z) i x'" using store_invD(2) [OF z(1) x'(1)] .
  then have "OrderByIdempotency (r_AccountID r') (r_IdempotencyKey r') (y_store z) = Some x'"
    using x' i(1) again(2,3) by (simp add: OrderByIdempotency_def order_ok_def new_order_def)
  from Place_again [OF this again(1)] show ?thesis
    using x' ok i(1) by (intro exI [of _ x']) (simp add: order_ok_def new_order_def)
qed

theorem Place_replays_witness:
  "\<exists>x'. Place (\<lambda>t. t) False None None 9 demo_request (y_store demo_saga) = (Inr (x', True), y_store demo_saga)"
proof -
  have p: "Place (\<lambda>t. t) False (Some ''o1'') (Some ''e1'') 5 demo_request (y_store saga_init) =
      (Inr (new_order ''o1'' (requestFingerprint (\<lambda>t. t) demo_request) 5 demo_request, False), y_store demo_saga)"
    by (simp add: demo_saga_def Place_def validate_order_def demo_request_def order_transaction_def OrderByIdempotency_def
        NewMemoryStore_def PutOrder_def Enqueue_def new_order_def Let_def saga_init_def)
  have "validate_order demo_request = None" by (simp add: validate_order_def demo_request_def)
  then show ?thesis
    using Place_replays [OF rtranclp.rtrancl_refl _ _ p rtranclp.rtrancl_refl _ refl refl, where oid' = None and eid' = None and now' = 9]
    by (auto simp: fresh_order_def fresh_event_def saga_init_def NewMemoryStore_def demo_saga_def)
qed

section \<open>What separates two requests\<close>

text \<open>The index joins account and key with a zero byte, which neither is checked for: two customers
  can share an entry.\<close>

theorem idempotencyIndex_collision:
  "idempotencyIndex ''a'' (''b'' @ CHR 0x00 # ''c'') = idempotencyIndex (''a'' @ CHR 0x00 # ''b'') ''c'' \<and>
   (''a'', ''b'' @ CHR 0x00 # ''c'') \<noteq> (''a'' @ CHR 0x00 # ''b'', ''c'')"
  by (simp add: idempotencyIndex_def)

end
