(* ===== verification/Seat_Store.thy ===== *)
theory Seat_Store
  imports Go_Prelude
begin

text \<open>
  \<open>cricket-stadium-booking/internal/store\<close>: holds, confirmations and seat maps over the tables of
  \<open>migrations/\<close>. A statement is a function on the database; the unique indexes, the foreign key and
  the check constraint are the conditions under which an insert fails. A transaction is one step:
  it commits or leaves the tables as they were, except for the identity counter. What other sessions
  do between the statements of one request is an argument.
\<close>

section \<open>Tables\<close>

datatype seat_status = SHeld | SConfirmed | SExpired | SCancelled

record booking_row =
  b_id :: int
  b_match :: string
  b_seat :: string
  b_buyer :: string
  b_status :: seat_status
  b_expires :: "int option"
  b_confirmed :: "int option"
  b_cancelled :: "int option"

record seat_db =
  db_seats :: "(string \<times> string \<times> string) list"
  db_rows :: "booking_row list"
  db_keys :: "(string \<times> int) list"
  db_next :: int

datatype store_err = ErrSeatUnavailable | ErrHoldExpired | ErrNotFound | ErrIdempotencyKeyReuse | ErrDatabase string

text \<open>\<open>UPDATE\<close> on the rows that satisfy a condition.\<close>

definition update_rows :: "(booking_row \<Rightarrow> bool) \<Rightarrow> (booking_row \<Rightarrow> booking_row) \<Rightarrow> booking_row list \<Rightarrow> booking_row list" where
  "update_rows p f rows = map (\<lambda>r. if p r then f r else r) rows"

definition row_active :: "booking_row \<Rightarrow> bool" where
  "row_active r \<longleftrightarrow> b_status r = SHeld \<or> b_status r = SConfirmed"

text \<open>\<open>ux_bookings_active_seat\<close> and \<open>ux_bookings_one_held_seat_per_buyer\<close> on a new held row.\<close>

definition unique_violation :: "string \<Rightarrow> string \<Rightarrow> string \<Rightarrow> booking_row list \<Rightarrow> bool" where
  "unique_violation matchID seatID buyerID rows \<longleftrightarrow>
     list_ex (\<lambda>r. b_match r = matchID \<and> b_seat r = seatID \<and> row_active r) rows \<or>
     list_ex (\<lambda>r. b_match r = matchID \<and> b_buyer r = buyerID \<and> b_status r = SHeld) rows"

definition seat_exists :: "string \<Rightarrow> string \<Rightarrow> seat_db \<Rightarrow> bool" where
  "seat_exists matchID seatID db \<longleftrightarrow> list_ex (\<lambda>(m, s, sec). m = matchID \<and> s = seatID) (db_seats db)"

section \<open>Looking up a key\<close>

datatype idem_state = IdemMiss | IdemLive | IdemDead | IdemMismatch

definition row_live :: "int \<Rightarrow> booking_row \<Rightarrow> bool" where
  "row_live now r \<longleftrightarrow> b_status r = SConfirmed \<or>
     (b_status r = SHeld \<and> (case b_expires r of Some t \<Rightarrow> t > now | None \<Rightarrow> False))"

definition find_row :: "int \<Rightarrow> seat_db \<Rightarrow> booking_row option" where
  "find_row i db = find_first (\<lambda>r. b_id r = i) (db_rows db)"

definition lookupIdempotentHold ::
  "int \<Rightarrow> string \<Rightarrow> string \<Rightarrow> string \<Rightarrow> string \<Rightarrow> seat_db \<Rightarrow> idem_state \<times> booking_row option" where
  "lookupIdempotentHold now matchID seatID buyerID idemKey db =
     (case Option.bind (map_of (db_keys db) idemKey) (\<lambda>i. find_row i db) of
        None \<Rightarrow> (IdemMiss, None)
      | Some r \<Rightarrow>
          if b_match r \<noteq> matchID \<or> b_seat r \<noteq> seatID \<or> b_buyer r \<noteq> buyerID then (IdemMismatch, None)
          else if \<not> row_live now r then (IdemDead, Some r)
          else (IdemLive, Some r))"

section \<open>Placing a hold\<close>

datatype hold_result = HoldRow booking_row | HoldTaken | HoldKeyTaken | HoldFailed string

definition cancel_previous :: "int \<Rightarrow> string \<Rightarrow> string \<Rightarrow> string \<Rightarrow> booking_row list \<Rightarrow> booking_row list" where
  "cancel_previous now matchID buyerID seatID =
     update_rows (\<lambda>r. b_match r = matchID \<and> b_buyer r = buyerID \<and> b_status r = SHeld \<and> b_seat r \<noteq> seatID)
       (\<lambda>r. r\<lparr>b_status := SCancelled, b_cancelled := Some now\<rparr>)"

definition expire_stale :: "int \<Rightarrow> string \<Rightarrow> string \<Rightarrow> booking_row list \<Rightarrow> booking_row list" where
  "expire_stale now matchID seatID =
     update_rows
       (\<lambda>r. b_match r = matchID \<and> b_seat r = seatID \<and> b_status r = SHeld \<and>
            (case b_expires r of Some t \<Rightarrow> t < now | None \<Rightarrow> False))
       (\<lambda>r. r\<lparr>b_status := SExpired\<rparr>)"

text \<open>The time-to-live in whole microseconds.\<close>

definition hold_expiry :: "int \<Rightarrow> int \<Rightarrow> int" where
  "hold_expiry now ttl = now + tdiv ttl 1000 * 1000"

definition hold_tx ::
  "int \<Rightarrow> string \<Rightarrow> string \<Rightarrow> string \<Rightarrow> int \<Rightarrow> string \<Rightarrow> int option \<Rightarrow> seat_db \<Rightarrow> hold_result \<times> seat_db" where
  "hold_tx now matchID seatID buyerID ttl idemKey stale db =
     (let keys = (case stale of None \<Rightarrow> db_keys db | Some i \<Rightarrow> filter (\<lambda>(k, b). \<not> (k = idemKey \<and> b = i)) (db_keys db));
          rows = expire_stale now matchID seatID (cancel_previous now matchID buyerID seatID (db_rows db));
          row = \<lparr>b_id = db_next db, b_match = matchID, b_seat = seatID, b_buyer = buyerID, b_status = SHeld,
                 b_expires = Some (hold_expiry now ttl), b_confirmed = None, b_cancelled = None\<rparr>;
          rolled = db\<lparr>db_next := db_next db + 1\<rparr>
      in if unique_violation matchID seatID buyerID rows then (HoldTaken, rolled)
         else if \<not> seat_exists matchID seatID db then (HoldFailed ''place hold: insert'', rolled)
         else if idemKey \<noteq> [] \<and> map_of keys idemKey \<noteq> None then (HoldKeyTaken, rolled)
         else (HoldRow row,
               rolled\<lparr>db_rows := rows @ [row],
                      db_keys := (if idemKey = [] then keys else keys @ [(idemKey, b_id row)])\<rparr>))"

text \<open>After a unique violation: the key may point at the hold of an earlier attempt.\<close>

definition replay ::
  "int \<Rightarrow> string \<Rightarrow> string \<Rightarrow> string \<Rightarrow> string \<Rightarrow> seat_db \<Rightarrow> store_err + booking_row" where
  "replay now matchID seatID buyerID idemKey db =
     (case lookupIdempotentHold now matchID seatID buyerID idemKey db of
        (IdemMismatch, _) \<Rightarrow> Inl ErrIdempotencyKeyReuse
      | (IdemLive, Some r) \<Rightarrow> Inr r
      | _ \<Rightarrow> Inl ErrSeatUnavailable)"

text \<open>\<open>mid1\<close> and \<open>mid2\<close> are what other sessions do before the transaction and after it failed; \<open>t1\<close>,
  \<open>t2\<close>, \<open>t3\<close> are the readings of \<open>now()\<close>. The database's own failures are errors of the driver.\<close>

definition placeHold ::
  "(seat_db \<Rightarrow> seat_db) \<Rightarrow> (seat_db \<Rightarrow> seat_db) \<Rightarrow> int \<Rightarrow> int \<Rightarrow> int \<Rightarrow>
   string \<Rightarrow> string \<Rightarrow> string \<Rightarrow> int \<Rightarrow> string \<Rightarrow> seat_db \<Rightarrow> (store_err + booking_row) \<times> seat_db" where
  "placeHold mid1 mid2 t1 t2 t3 matchID seatID buyerID ttl idemKey db =
     (let first = (if idemKey \<noteq> [] then lookupIdempotentHold t1 matchID seatID buyerID idemKey db else (IdemMiss, None)) in
      case first of
        (IdemMismatch, _) \<Rightarrow> (Inl ErrIdempotencyKeyReuse, db)
      | (IdemLive, Some r) \<Rightarrow> (Inr r, db)
      | (st, r) \<Rightarrow>
          let stale = (if st = IdemDead then map_option b_id r else None) in
          case hold_tx t2 matchID seatID buyerID ttl idemKey stale (mid1 db) of
            (HoldRow row, db') \<Rightarrow> (Inr row, db')
          | (HoldFailed err, db') \<Rightarrow> (Inl (ErrDatabase err), db')
          | (_, db') \<Rightarrow>
              if idemKey = [] then (Inl ErrSeatUnavailable, db')
              else (replay t3 matchID seatID buyerID idemKey (mid2 db'), mid2 db'))"

section \<open>Confirming and releasing\<close>

definition confirmable :: "int \<Rightarrow> int \<Rightarrow> string \<Rightarrow> booking_row \<Rightarrow> bool" where
  "confirmable now holdID buyerID r \<longleftrightarrow> b_id r = holdID \<and> b_buyer r = buyerID \<and> b_status r = SHeld \<and>
     (case b_expires r of Some t \<Rightarrow> t > now | None \<Rightarrow> False)"

definition confirm_row :: "int \<Rightarrow> booking_row \<Rightarrow> booking_row" where
  "confirm_row now r = r\<lparr>b_status := SConfirmed, b_confirmed := Some now, b_expires := None\<rparr>"

definition st_ConfirmHold :: "int \<Rightarrow> int \<Rightarrow> string \<Rightarrow> seat_db \<Rightarrow> (store_err + booking_row) \<times> seat_db" where
  "st_ConfirmHold now holdID buyerID db =
     (case find_first (confirmable now holdID buyerID) (db_rows db) of
        None \<Rightarrow> (Inl ErrHoldExpired, db)
      | Some r \<Rightarrow>
          (Inr (confirm_row now r), db\<lparr>db_rows := update_rows (confirmable now holdID buyerID) (confirm_row now) (db_rows db)\<rparr>))"

definition releasable :: "int \<Rightarrow> string \<Rightarrow> booking_row \<Rightarrow> bool" where
  "releasable holdID buyerID r \<longleftrightarrow> b_id r = holdID \<and> b_buyer r = buyerID \<and> b_status r = SHeld"

definition st_ReleaseHold :: "int \<Rightarrow> int \<Rightarrow> string \<Rightarrow> seat_db \<Rightarrow> (store_err + string) \<times> seat_db" where
  "st_ReleaseHold now holdID buyerID db =
     (case find_first (releasable holdID buyerID) (db_rows db) of
        None \<Rightarrow> (Inl ErrNotFound, db)
      | Some r \<Rightarrow>
          (Inr (b_match r),
           db\<lparr>db_rows := update_rows (releasable holdID buyerID) (\<lambda>r. r\<lparr>b_status := SCancelled, b_cancelled := Some now\<rparr>) (db_rows db)\<rparr>))"

section \<open>The seat map\<close>

record seat_view =
  sv_seat :: string
  sv_section :: string
  sv_status :: string
  sv_expires :: "int option"

fun status_text :: "seat_status \<Rightarrow> string" where
  "status_text SHeld = ''held''"
| "status_text SConfirmed = ''confirmed''"
| "status_text SExpired = ''expired''"
| "status_text SCancelled = ''cancelled''"

text \<open>The left join: one line per live booking of a seat, or one line that says it is available.\<close>

definition seat_lines :: "int \<Rightarrow> string \<Rightarrow> booking_row list \<Rightarrow> string \<times> string \<Rightarrow> seat_view list" where
  "seat_lines now matchID rows p =
     (case p of (seatID, sec) \<Rightarrow>
        (case filter (\<lambda>r. b_match r = matchID \<and> b_seat r = seatID \<and> row_live now r) rows of
           [] \<Rightarrow> [\<lparr>sv_seat = seatID, sv_section = sec, sv_status = ''available'', sv_expires = None\<rparr>]
         | rs \<Rightarrow> map (\<lambda>r. \<lparr>sv_seat = seatID, sv_section = sec, sv_status = status_text (b_status r), sv_expires = b_expires r\<rparr>) rs))"

definition st_ListSeats :: "int \<Rightarrow> string \<Rightarrow> seat_db \<Rightarrow> seat_view list" where
  "st_ListSeats now matchID db =
     concat (map (seat_lines now matchID (db_rows db))
       (sort_key snd (sort_key fst (map (\<lambda>(m, s, sec). (s, sec)) (filter (\<lambda>(m, s, sec). m = matchID) (db_seats db))))))"

section \<open>What the constraints keep\<close>

text \<open>The two unique indexes, the primary keys, the foreign keys and the check constraint.\<close>

definition same_seat :: "booking_row \<Rightarrow> booking_row \<Rightarrow> bool" where
  "same_seat r s \<longleftrightarrow> b_match r = b_match s \<and> b_seat r = b_seat s"

definition one_active :: "booking_row list \<Rightarrow> bool" where
  "one_active rows \<longleftrightarrow> (\<forall>r \<in> set rows. \<forall>s \<in> set rows. row_active r \<and> row_active s \<and> same_seat r s \<longrightarrow> b_id r = b_id s)"

definition one_held :: "booking_row list \<Rightarrow> bool" where
  "one_held rows \<longleftrightarrow> (\<forall>r \<in> set rows. \<forall>s \<in> set rows.
     b_status r = SHeld \<and> b_status s = SHeld \<and> b_match r = b_match s \<and> b_buyer r = b_buyer s \<longrightarrow> b_id r = b_id s)"

definition row_ok :: "seat_db \<Rightarrow> booking_row \<Rightarrow> bool" where
  "row_ok db r \<longleftrightarrow> b_id r < db_next db \<and> seat_exists (b_match r) (b_seat r) db \<and> (b_status r = SHeld \<longrightarrow> b_expires r \<noteq> None)"

definition db_ok :: "seat_db \<Rightarrow> bool" where
  "db_ok db \<longleftrightarrow> distinct (map b_id (db_rows db)) \<and> (\<forall>r \<in> set (db_rows db). row_ok db r) \<and>
     one_active (db_rows db) \<and> one_held (db_rows db) \<and>
     distinct (map fst (db_keys db)) \<and> snd ` set (db_keys db) \<subseteq> b_id ` set (db_rows db)"

text \<open>An update that keeps identity, place and buyer, and never makes a row active or held.\<close>

definition demotes :: "(booking_row \<Rightarrow> booking_row) \<Rightarrow> booking_row \<Rightarrow> bool" where
  "demotes f r \<longleftrightarrow> b_id (f r) = b_id r \<and> b_match (f r) = b_match r \<and> b_seat (f r) = b_seat r \<and> b_buyer (f r) = b_buyer r \<and>
     (row_active (f r) \<longrightarrow> row_active r) \<and> (b_status (f r) = SHeld \<longrightarrow> b_status r = SHeld \<and> b_expires (f r) = b_expires r)"

lemma seat_exists_fields [simp]:
  "seat_exists m s (db\<lparr>db_rows := rs\<rparr>) = seat_exists m s db"
  "seat_exists m s (db\<lparr>db_keys := ks\<rparr>) = seat_exists m s db"
  "seat_exists m s (db\<lparr>db_next := n\<rparr>) = seat_exists m s db"
  by (simp_all add: seat_exists_def)

lemma demotes_ids: "\<forall>r \<in> set rows. demotes f r \<Longrightarrow> map b_id (map f rows) = map b_id rows"
  by (simp add: demotes_def)

lemma demotesD:
  "demotes f r \<Longrightarrow> b_id (f r) = b_id r" "demotes f r \<Longrightarrow> b_match (f r) = b_match r" "demotes f r \<Longrightarrow> b_seat (f r) = b_seat r"
  "demotes f r \<Longrightarrow> b_buyer (f r) = b_buyer r" "demotes f r \<Longrightarrow> row_active (f r) \<Longrightarrow> row_active r"
  "demotes f r \<Longrightarrow> b_status (f r) = SHeld \<Longrightarrow> b_status r = SHeld \<and> b_expires (f r) = b_expires r"
  by (auto simp: demotes_def)

lemma one_activeI:
  "(\<And>r s. r \<in> set rows \<Longrightarrow> s \<in> set rows \<Longrightarrow> row_active r \<Longrightarrow> row_active s \<Longrightarrow> same_seat r s \<Longrightarrow> b_id r = b_id s) \<Longrightarrow> one_active rows"
  unfolding one_active_def by blast

lemma one_activeD: "one_active rows \<Longrightarrow> r \<in> set rows \<Longrightarrow> s \<in> set rows \<Longrightarrow> row_active r \<Longrightarrow> row_active s \<Longrightarrow> same_seat r s \<Longrightarrow> b_id r = b_id s"
  unfolding one_active_def by blast

lemma one_heldI:
  "(\<And>r s. r \<in> set rows \<Longrightarrow> s \<in> set rows \<Longrightarrow> b_status r = SHeld \<Longrightarrow> b_status s = SHeld \<Longrightarrow>
     b_match r = b_match s \<Longrightarrow> b_buyer r = b_buyer s \<Longrightarrow> b_id r = b_id s) \<Longrightarrow> one_held rows"
  unfolding one_held_def by blast

lemma one_heldD:
  "one_held rows \<Longrightarrow> r \<in> set rows \<Longrightarrow> s \<in> set rows \<Longrightarrow> b_status r = SHeld \<Longrightarrow> b_status s = SHeld \<Longrightarrow>
     b_match r = b_match s \<Longrightarrow> b_buyer r = b_buyer s \<Longrightarrow> b_id r = b_id s"
  unfolding one_held_def by blast

lemma demotes_one_active:
  assumes "one_active rows" "\<forall>r \<in> set rows. demotes f r"
  shows "one_active (map f rows)"
proof (rule one_activeI)
  fix a b assume a: "a \<in> set (map f rows)" "b \<in> set (map f rows)" "row_active a" "row_active b" "same_seat a b"
  then obtain r s where r: "r \<in> set rows" "a = f r" "s \<in> set rows" "b = f s" by auto
  then have d: "demotes f r" "demotes f s" using assms(2) by auto
  have "row_active r" "row_active s" using a(3,4) r(2,4) demotesD(5) d by blast+
  moreover have "same_seat r s" using a(5) d by (simp add: same_seat_def r(2,4) demotesD(2,3))
  ultimately have "b_id r = b_id s" using one_activeD [OF assms(1) r(1,3)] by blast
  then show "b_id a = b_id b" using d by (simp add: r(2,4) demotesD(1))
qed

lemma demotes_one_held:
  assumes "one_held rows" "\<forall>r \<in> set rows. demotes f r"
  shows "one_held (map f rows)"
proof (rule one_heldI)
  fix a b assume a: "a \<in> set (map f rows)" "b \<in> set (map f rows)" "b_status a = SHeld" "b_status b = SHeld"
    "b_match a = b_match b" "b_buyer a = b_buyer b"
  then obtain r s where r: "r \<in> set rows" "a = f r" "s \<in> set rows" "b = f s" by auto
  then have d: "demotes f r" "demotes f s" using assms(2) by auto
  have "b_status r = SHeld" "b_status s = SHeld" using a(3,4) r(2,4) demotesD(6) d by blast+
  moreover have "b_match r = b_match s" "b_buyer r = b_buyer s" using a(5,6) d by (simp_all add: r(2,4) demotesD(2,4))
  ultimately have "b_id r = b_id s" using one_heldD [OF assms(1) r(1,3)] by blast
  then show "b_id a = b_id b" using d by (simp add: r(2,4) demotesD(1))
qed

lemma map_demotes_ok:
  assumes "db_ok db" "\<forall>r \<in> set (db_rows db). demotes f r"
  shows "db_ok (db\<lparr>db_rows := map f (db_rows db)\<rparr>)"
proof -
  have ids: "map b_id (map f (db_rows db)) = map b_id (db_rows db)" by (rule demotes_ids [OF assms(2)])
  then have "b_id ` set (map f (db_rows db)) = b_id ` set (db_rows db)" by (metis list.set_map)
  moreover have "\<forall>r \<in> set (map f (db_rows db)). row_ok (db\<lparr>db_rows := map f (db_rows db)\<rparr>) r"
  proof -
    have "row_ok (db\<lparr>db_rows := map f (db_rows db)\<rparr>) (f r)" if "r \<in> set (db_rows db)" for r
    proof -
      have "demotes f r" "row_ok db r" using assms that by (auto simp: db_ok_def)
      then show ?thesis using demotesD(6) [of f r] by (auto simp: row_ok_def demotesD(1,2,3))
    qed
    then show ?thesis by simp
  qed
  moreover have "distinct (map b_id (map f (db_rows db)))" using ids assms(1) by (simp only: db_ok_def)
  ultimately show ?thesis
    using assms demotes_one_active [OF _ assms(2)] demotes_one_held [OF _ assms(2)]
    by (simp add: db_ok_def del: map_map set_map)
qed

lemma update_rows_map: "update_rows p f rows = map (\<lambda>r. if p r then f r else r) rows"
  by (simp add: update_rows_def)

lemma demotes_id [simp]: "demotes (\<lambda>r. r) r"
  by (simp add: demotes_def)

lemma demotes_if: "(p r \<Longrightarrow> demotes f r) \<Longrightarrow> demotes (\<lambda>r. if p r then f r else r) r"
  by (simp add: demotes_def)

text \<open>The statements that close rows.\<close>

lemma closes_demotes:
  "demotes (\<lambda>r. r\<lparr>b_status := SCancelled, b_cancelled := c\<rparr>) r" "demotes (\<lambda>r. r\<lparr>b_status := SExpired\<rparr>) r"
  by (simp_all add: demotes_def row_active_def)

lemma release_ok: "db_ok db \<Longrightarrow> db_ok (snd (st_ReleaseHold now i b db))"
  by (auto simp: st_ReleaseHold_def update_rows_map intro!: map_demotes_ok demotes_if closes_demotes split: option.splits)

lemma confirm_demotes: "confirmable now i b r \<Longrightarrow> demotes (confirm_row now) r"
  by (simp add: confirmable_def confirm_row_def demotes_def row_active_def)

lemma confirm_ok: "db_ok db \<Longrightarrow> db_ok (snd (st_ConfirmHold now i b db))"
  by (auto simp: st_ConfirmHold_def update_rows_map intro!: map_demotes_ok demotes_if confirm_demotes split: option.splits)

definition cleared :: "int \<Rightarrow> string \<Rightarrow> string \<Rightarrow> string \<Rightarrow> booking_row list \<Rightarrow> booking_row list" where
  "cleared now m s b rows = expire_stale now m s (cancel_previous now m b s rows)"

lemma cancel_previous_ok: "db_ok db \<Longrightarrow> db_ok (db\<lparr>db_rows := cancel_previous now m b s (db_rows db)\<rparr>)"
  unfolding cancel_previous_def update_rows_map by (intro map_demotes_ok ballI demotes_if closes_demotes)

lemma expire_stale_ok: "db_ok db \<Longrightarrow> db_ok (db\<lparr>db_rows := expire_stale now m s (db_rows db)\<rparr>)"
  unfolding expire_stale_def update_rows_map by (intro map_demotes_ok ballI demotes_if closes_demotes)

lemma cleared_ok: "db_ok db \<Longrightarrow> db_ok (db\<lparr>db_rows := cleared now m s b (db_rows db)\<rparr>)"
  using expire_stale_ok [OF cancel_previous_ok] by (simp add: cleared_def)

lemma insert_ok:
  assumes ok: "db_ok db" and v: "\<not> unique_violation (b_match r) (b_seat r) (b_buyer r) (db_rows db)"
    and r: "b_id r = db_next db" "seat_exists (b_match r) (b_seat r) db" "b_expires r \<noteq> None"
  shows "db_ok (db\<lparr>db_next := db_next db + 1, db_rows := db_rows db @ [r]\<rparr>)"
proof -
  have fresh: "b_id r \<notin> b_id ` set (db_rows db)" using ok r(1) by (force simp: db_ok_def row_ok_def)
  have act: "\<not> (row_active x \<and> same_seat r x)" "\<not> (row_active x \<and> same_seat x r)" if "x \<in> set (db_rows db)" for x
    using v that by (auto simp: unique_violation_def list_ex_iff same_seat_def)
  have held: "\<not> (b_status x = SHeld \<and> b_match x = b_match r \<and> b_buyer x = b_buyer r)" if "x \<in> set (db_rows db)" for x
    using v that by (auto simp: unique_violation_def list_ex_iff)
  have "one_active (db_rows db @ [r])"
  proof (rule one_activeI)
    fix a b assume "a \<in> set (db_rows db @ [r])" "b \<in> set (db_rows db @ [r])" "row_active a" "row_active b" "same_seat a b"
    then show "b_id a = b_id b"
      using act one_activeD [of "db_rows db" a b] ok unfolding db_ok_def by (cases "a = r"; cases "b = r") auto
  qed
  moreover have "one_held (db_rows db @ [r])"
  proof (rule one_heldI)
    fix a b assume "a \<in> set (db_rows db @ [r])" "b \<in> set (db_rows db @ [r])" "b_status a = SHeld" "b_status b = SHeld"
      "b_match a = b_match b" "b_buyer a = b_buyer b"
    then show "b_id a = b_id b"
      using held [of a] held [of b] one_heldD [of "db_rows db" a b] ok unfolding db_ok_def by (cases "a = r"; cases "b = r") auto
  qed
  moreover have "\<forall>x \<in> set (db_rows db @ [r]). row_ok (db\<lparr>db_next := db_next db + 1, db_rows := db_rows db @ [r]\<rparr>) x"
    using ok r unfolding db_ok_def by (auto simp: row_ok_def)
  ultimately show ?thesis using ok fresh unfolding db_ok_def by auto
qed

lemma keys_ok:
  assumes "db_ok db" "distinct (map fst ks)" "snd ` set ks \<subseteq> b_id ` set (db_rows db)"
  shows "db_ok (db\<lparr>db_keys := ks\<rparr>)"
  using assms by (simp add: db_ok_def row_ok_def)

lemma next_ok: "db_ok db \<Longrightarrow> db_ok (db\<lparr>db_next := db_next db + 1\<rparr>)"
  by (force simp: db_ok_def row_ok_def)

definition keys_after :: "string \<Rightarrow> int option \<Rightarrow> (string \<times> int) list \<Rightarrow> (string \<times> int) list" where
  "keys_after k stale ks = (case stale of None \<Rightarrow> ks | Some i \<Rightarrow> filter (\<lambda>(k', b). \<not> (k' = k \<and> b = i)) ks)"

definition new_hold :: "int \<Rightarrow> string \<Rightarrow> string \<Rightarrow> string \<Rightarrow> int \<Rightarrow> seat_db \<Rightarrow> booking_row" where
  "new_hold now m s b ttl db = \<lparr>b_id = db_next db, b_match = m, b_seat = s, b_buyer = b, b_status = SHeld,
     b_expires = Some (hold_expiry now ttl), b_confirmed = None, b_cancelled = None\<rparr>"

definition held_db :: "int \<Rightarrow> string \<Rightarrow> string \<Rightarrow> string \<Rightarrow> int \<Rightarrow> string \<Rightarrow> int option \<Rightarrow> seat_db \<Rightarrow> seat_db" where
  "held_db now m s b ttl k stale db =
     db\<lparr>db_next := db_next db + 1, db_rows := cleared now m s b (db_rows db) @ [new_hold now m s b ttl db],
        db_keys := (if k = [] then keys_after k stale (db_keys db) else keys_after k stale (db_keys db) @ [(k, db_next db)])\<rparr>"

text \<open>The two outcomes of the transaction.\<close>

lemma hold_tx_cases:
  obtains (fails) res where "hold_tx now m s b ttl k stale db = (res, db\<lparr>db_next := db_next db + 1\<rparr>)" "\<And>r. res \<noteq> HoldRow r"
  | (holds) "\<not> unique_violation m s b (cleared now m s b (db_rows db))" "seat_exists m s db"
      "k = [] \<or> map_of (keys_after k stale (db_keys db)) k = None"
      "hold_tx now m s b ttl k stale db = (HoldRow (new_hold now m s b ttl db), held_db now m s b ttl k stale db)"
  unfolding hold_tx_def held_db_def new_hold_def keys_after_def cleared_def Let_def
  by (cases "unique_violation m s b (expire_stale now m s (cancel_previous now m b s (db_rows db)))"; cases "seat_exists m s db";
      cases "k = [] \<or> map_of (case stale of None \<Rightarrow> db_keys db | Some i \<Rightarrow> filter (\<lambda>(k', b). \<not> (k' = k \<and> b = i)) (db_keys db)) k = None") auto

lemma keys_after_subset: "set (keys_after k stale ks) \<subseteq> set ks"
  by (auto simp: keys_after_def split: option.splits)

lemma keys_after_distinct: "distinct (map fst ks) \<Longrightarrow> distinct (map fst (keys_after k stale ks))"
  by (simp add: keys_after_def distinct_map_filter split: option.splits)

lemma cleared_ids: "map b_id (cleared now m s b rows) = map b_id rows"
  by (simp add: cleared_def expire_stale_def cancel_previous_def update_rows_def)

lemma cleared_id_set: "b_id ` set (cleared now m s b rows) = b_id ` set rows"
  by (metis cleared_ids list.set_map)

lemma held_rows_ok:
  assumes "db_ok db" "\<not> unique_violation m s b (cleared now m s b (db_rows db))" "seat_exists m s db"
  shows "db_ok (db\<lparr>db_next := db_next db + 1, db_rows := cleared now m s b (db_rows db) @ [new_hold now m s b ttl db]\<rparr>)"
  using insert_ok [OF cleared_ok [OF assms(1)], of "new_hold now m s b ttl db"] assms(2,3) by (simp add: new_hold_def)

lemma held_keys_ok:
  assumes "db_ok db" "k = [] \<or> map_of (keys_after k stale (db_keys db)) k = None"
  shows "distinct (map fst (db_keys (held_db now m s b ttl k stale db)))"
    and "snd ` set (db_keys (held_db now m s b ttl k stale db)) \<subseteq> b_id ` set (db_rows (held_db now m s b ttl k stale db))"
proof -
  have d: "distinct (map fst (keys_after k stale (db_keys db)))" "snd ` set (db_keys db) \<subseteq> b_id ` set (db_rows db)"
    using keys_after_distinct assms(1) unfolding db_ok_def by blast+
  show "distinct (map fst (db_keys (held_db now m s b ttl k stale db)))"
    using d(1) assms(2) by (cases "k = []") (simp_all add: held_db_def map_of_eq_None_iff)
  have "b_id ` set (db_rows (held_db now m s b ttl k stale db)) = insert (db_next db) (b_id ` set (db_rows db))"
    by (simp add: held_db_def image_Un cleared_id_set new_hold_def)
  moreover have "snd ` set (keys_after k stale (db_keys db)) \<subseteq> b_id ` set (db_rows db)"
    using d(2) image_mono [OF keys_after_subset [of k stale "db_keys db"], of snd] by blast
  ultimately show "snd ` set (db_keys (held_db now m s b ttl k stale db)) \<subseteq> b_id ` set (db_rows (held_db now m s b ttl k stale db))"
    by (cases "k = []") (simp_all add: held_db_def subset_insertI2)
qed

lemma hold_tx_ok:
  assumes "db_ok db"
  shows "db_ok (snd (hold_tx now m s b ttl k stale db))"
proof (cases rule: hold_tx_cases [of now m s b ttl k stale db])
  case (fails res)
  then show ?thesis using next_ok [OF assms] by simp
next
  case holds
  have "db_ok (held_db now m s b ttl k stale db)"
    using keys_ok [OF held_rows_ok [OF assms holds(1,2), of ttl]] held_keys_ok [OF assms holds(3)]
    by (simp add: held_db_def)
  then show ?thesis using holds(4) by simp
qed

section \<open>Sessions\<close>

text \<open>
  The database over time: any session may run one of the store's transactions, at a clock reading
  that does not go back. A transaction that clears a key of a dead booking does so because a lookup
  found the booking dead; dead bookings stay dead.
\<close>

definition stale_dead :: "int \<Rightarrow> int option \<Rightarrow> seat_db \<Rightarrow> bool" where
  "stale_dead now stale db \<longleftrightarrow> (case stale of None \<Rightarrow> True
     | Some i \<Rightarrow> (case find_row i db of None \<Rightarrow> True | Some r \<Rightarrow> \<not> row_live now r))"

inductive seat_step :: "int \<times> seat_db \<Rightarrow> int \<times> seat_db \<Rightarrow> bool" where
  hold: "t \<le> t' \<Longrightarrow> stale_dead t' stale db \<Longrightarrow> seat_step (t, db) (t', snd (hold_tx t' m s b ttl k stale db))"
| confirm: "t \<le> t' \<Longrightarrow> seat_step (t, db) (t', snd (st_ConfirmHold t' i b db))"
| release: "t \<le> t' \<Longrightarrow> seat_step (t, db) (t', snd (st_ReleaseHold t' i b db))"
| tick: "t \<le> t' \<Longrightarrow> seat_step (t, db) (t', db)"

lemma seat_step_ok: "seat_step x y \<Longrightarrow> db_ok (snd x) \<Longrightarrow> db_ok (snd y)"
  by (induction rule: seat_step.induct) (auto simp: hold_tx_ok confirm_ok release_ok)

lemma seat_run_ok: "seat_step\<^sup>*\<^sup>* x y \<Longrightarrow> db_ok (snd x) \<Longrightarrow> db_ok (snd y)"
  by (induction rule: rtranclp_induct) (auto simp: seat_step_ok)

text \<open>Every transaction rewrites the rows in place and may add one at the end.\<close>

definition evolves :: "int \<Rightarrow> booking_row \<Rightarrow> booking_row \<Rightarrow> bool" where
  "evolves t r r' \<longleftrightarrow> b_id r' = b_id r \<and> b_match r' = b_match r \<and> b_seat r' = b_seat r \<and> b_buyer r' = b_buyer r \<and>
     (b_status r = SConfirmed \<longrightarrow> r' = r) \<and> (row_live t r' \<longrightarrow> row_live t r)"

lemma evolves_refl [simp]: "evolves t r r"
  by (simp add: evolves_def)

definition becomes :: "int \<Rightarrow> seat_db \<Rightarrow> seat_db \<Rightarrow> bool" where
  "becomes t db db' \<longleftrightarrow> (\<exists>f new. db_rows db' = map f (db_rows db) @ new \<and> (\<forall>r \<in> set (db_rows db). evolves t r (f r)))"

lemma becomes_same: "db_rows db' = db_rows db \<Longrightarrow> becomes t db db'"
  unfolding becomes_def by (intro exI [of _ "\<lambda>r. r"] exI [of _ "[]"]) simp

lemma becomes_update:
  "db_rows db' = update_rows p f (db_rows db) \<Longrightarrow> (\<And>r. p r \<Longrightarrow> evolves t r (f r)) \<Longrightarrow> becomes t db db'"
  unfolding becomes_def update_rows_def
  by (intro exI [of _ "\<lambda>r. if p r then f r else r"] exI [of _ "[]"]) simp

lemma evolves_trans: "evolves t r r' \<Longrightarrow> evolves t r' r'' \<Longrightarrow> evolves t r r''"
  by (auto simp: evolves_def)

lemma cleared_becomes: "db_rows db' = cleared t m s b (db_rows db) @ new \<Longrightarrow> becomes t db db'"
proof -
  assume rows: "db_rows db' = cleared t m s b (db_rows db) @ new"
  let ?c = "\<lambda>r. if b_match r = m \<and> b_buyer r = b \<and> b_status r = SHeld \<and> b_seat r \<noteq> s
                then r\<lparr>b_status := SCancelled, b_cancelled := Some t\<rparr> else r"
  let ?e = "\<lambda>r. if b_match r = m \<and> b_seat r = s \<and> b_status r = SHeld \<and> (case b_expires r of Some u \<Rightarrow> u < t | None \<Rightarrow> False)
                then r\<lparr>b_status := SExpired\<rparr> else r"
  have "evolves t r (?c r)" "evolves t r (?e r)" for r by (auto simp: evolves_def row_live_def)
  then have "evolves t r (?e (?c r))" for r using evolves_trans by blast
  then show ?thesis
    unfolding becomes_def using rows
    by (intro exI [of _ "\<lambda>r. ?e (?c r)"] exI [of _ new]) (simp add: cleared_def expire_stale_def cancel_previous_def update_rows_def)
qed

lemma hold_becomes: "becomes t db (snd (hold_tx t m s b ttl k stale db))"
  by (cases rule: hold_tx_cases [of t m s b ttl k stale db])
    (auto intro: becomes_same cleared_becomes simp: held_db_def)

lemma confirm_becomes: "becomes t db (snd (st_ConfirmHold t i b db))"
proof (cases "find_first (confirmable t i b) (db_rows db)")
  case (Some r)
  then show ?thesis
    by (intro becomes_update [where p = "confirmable t i b" and f = "confirm_row t"])
      (auto simp: st_ConfirmHold_def confirmable_def confirm_row_def evolves_def row_live_def)
qed (simp add: st_ConfirmHold_def becomes_same)

lemma release_becomes: "becomes t db (snd (st_ReleaseHold t i b db))"
proof (cases "find_first (releasable i b) (db_rows db)")
  case (Some r)
  then show ?thesis
    by (intro becomes_update [where p = "releasable i b" and f = "\<lambda>r. r\<lparr>b_status := SCancelled, b_cancelled := Some t\<rparr>"])
      (auto simp: st_ReleaseHold_def releasable_def evolves_def row_live_def)
qed (simp add: st_ReleaseHold_def becomes_same)

lemma seat_step_becomes: "seat_step x y \<Longrightarrow> becomes (fst y) (snd x) (snd y) \<and> fst x \<le> fst y"
  by (induction rule: seat_step.induct) (auto simp: hold_becomes confirm_becomes release_becomes becomes_same)

lemma find_first_map:
  "(\<And>x. x \<in> set xs \<Longrightarrow> P (f x) = P x) \<Longrightarrow> find_first P (map f xs @ ys) =
     (case find_first P xs of Some x \<Rightarrow> Some (f x) | None \<Rightarrow> find_first P ys)"
  by (induction xs) auto

lemma becomes_find:
  assumes "becomes t db db'" "find_row i db = Some r"
  obtains r' where "find_row i db' = Some r'" "evolves t r r'"
proof -
  from assms(1) obtain f new where f: "db_rows db' = map f (db_rows db) @ new" "\<forall>r \<in> set (db_rows db). evolves t r (f r)"
    unfolding becomes_def by blast
  then have "find_row i db' = Some (f r)"
    using assms(2) find_first_map [of "db_rows db" "\<lambda>r. b_id r = i" f new] by (simp add: find_row_def evolves_def)
  moreover have "r \<in> set (db_rows db)" using assms(2) find_first_SomeD unfolding find_row_def by fastforce
  ultimately show ?thesis using that f(2) by blast
qed

lemma becomes_sold: "becomes t db db' \<Longrightarrow> r \<in> set (db_rows db) \<Longrightarrow> b_status r = SConfirmed \<Longrightarrow> r \<in> set (db_rows db')"
  unfolding becomes_def evolves_def by force

lemma seat_run_sold: "seat_step\<^sup>*\<^sup>* x y \<Longrightarrow> r \<in> set (db_rows (snd x)) \<Longrightarrow> b_status r = SConfirmed \<Longrightarrow> r \<in> set (db_rows (snd y))"
  by (induction rule: rtranclp_induct) (auto dest: seat_step_becomes becomes_sold)

lemma row_live_earlier: "row_live t' r \<Longrightarrow> t \<le> t' \<Longrightarrow> row_live t r"
  by (auto simp: row_live_def split: option.splits)

text \<open>A key leads to its booking as long as the booking is live.\<close>

definition key_leads :: "int \<Rightarrow> string \<Rightarrow> booking_row \<Rightarrow> seat_db \<Rightarrow> bool" where
  "key_leads t k r db \<longleftrightarrow> (\<exists>r'. find_row (b_id r) db = Some r' \<and> b_match r' = b_match r \<and> b_seat r' = b_seat r \<and> b_buyer r' = b_buyer r \<and>
     (row_live t r' \<longrightarrow> map_of (db_keys db) k = Some (b_id r)))"

lemma keys_after_keeps:
  assumes "distinct (map fst ks)" "map_of ks k = Some i" "\<not> (k' = k \<and> stale = Some i)"
  shows "map_of (keys_after k' stale ks) k = Some i"
proof (cases stale)
  case (Some j)
  have "(k, i) \<in> set ks" using assms(2) map_of_SomeD by metis
  then have "(k, i) \<in> set (keys_after k' stale ks)" using assms(3) Some by (auto simp: keys_after_def)
  then show ?thesis using keys_after_distinct [OF assms(1)] by simp
qed (use assms(2) in \<open>simp add: keys_after_def\<close>)

lemma hold_keeps_key:
  assumes "db_ok db" "map_of (db_keys db) k = Some i" "\<not> (k' = k \<and> stale = Some i)"
  shows "map_of (db_keys (snd (hold_tx t m s b ttl k' stale db))) k = Some i"
proof (cases rule: hold_tx_cases [of t m s b ttl k' stale db])
  case (fails res)
  then show ?thesis using assms(2) by simp
next
  case holds
  have "distinct (map fst (db_keys db))" using assms(1) by (simp add: db_ok_def)
  from keys_after_keeps [OF this assms(2,3)] show ?thesis using holds(3,4) by (auto simp: held_db_def map_add_Some_iff)
qed

lemma key_leads_step:
  assumes "seat_step x y" "db_ok (snd x)" "key_leads (fst x) k r (snd x)"
  shows "key_leads (fst y) k r (snd y)"
proof -
  obtain t db where x: "x = (t, db)" by (cases x)
  obtain t' db' where y: "y = (t', db')" by (cases y)
  from assms(3) obtain r0 where r0: "find_row (b_id r) db = Some r0" "b_match r0 = b_match r" "b_seat r0 = b_seat r"
    "b_buyer r0 = b_buyer r" "row_live t r0 \<longrightarrow> map_of (db_keys db) k = Some (b_id r)"
    unfolding key_leads_def x by auto
  have b: "becomes t' db db'" "t \<le> t'" using seat_step_becomes [OF assms(1)] by (auto simp: x y)
  obtain r1 where r1: "find_row (b_id r) db' = Some r1" "evolves t' r0 r1" using becomes_find [OF b(1) r0(1)] .
  have "map_of (db_keys db') k = Some (b_id r)" if live: "row_live t' r1"
  proof -
    have l: "row_live t' r0" using r1(2) live by (simp add: evolves_def)
    then have m: "map_of (db_keys db) k = Some (b_id r)" using r0(5) row_live_earlier b(2) by blast
    from assms(1) show ?thesis unfolding x y
    proof (cases rule: seat_step.cases)
      case (hold stale m' s b ttl k')
      then have "stale \<noteq> Some (b_id r)" using r0(1) l by (auto simp: stale_dead_def)
      then show ?thesis using hold_keeps_key [OF _ m] assms(2) hold(1) by (simp add: x)
    qed (use m in \<open>auto simp: st_ConfirmHold_def st_ReleaseHold_def split: option.splits\<close>)
  qed
  then show ?thesis using r1 r0 by (auto simp: key_leads_def y evolves_def)
qed

lemma key_leads_run:
  assumes "seat_step\<^sup>*\<^sup>* x y" "db_ok (snd x)" "key_leads (fst x) k r (snd x)"
  shows "key_leads (fst y) k r (snd y)"
  using assms(1)
proof (induction rule: rtranclp_induct)
  case (step y z)
  then show ?case using key_leads_step [OF step(2)] seat_run_ok [OF step(1) assms(2)] by blast
qed (rule assms(3))

lemma hold_key_leads:
  assumes "db_ok db" "hold_tx t m s b ttl k stale db = (HoldRow r, db')" "k \<noteq> []"
  shows "key_leads t k r db' \<and> b_match r = m \<and> b_seat r = s \<and> b_buyer r = b"
proof (cases rule: hold_tx_cases [of t m s b ttl k stale db])
  case holds
  then have r: "r = new_hold t m s b ttl db" "db' = held_db t m s b ttl k stale db" using assms(2) by auto
  have "\<forall>x \<in> set (cleared t m s b (db_rows db)). b_id x \<noteq> db_next db"
    using assms(1) cleared_id_set [of t m s b "db_rows db"] by (force simp: db_ok_def row_ok_def)
  then have "find_row (b_id r) db' = Some r"
    using find_first_map [of "cleared t m s b (db_rows db)" "\<lambda>x. b_id x = db_next db" "\<lambda>x. x" "[r]"]
    by (simp add: find_row_def r held_db_def new_hold_def find_first_None [THEN iffD2])
  moreover have "map_of (db_keys db') k = Some (b_id r)"
    using holds(3) assms(3) by (simp add: r held_db_def new_hold_def map_add_Some_iff)
  ultimately show ?thesis by (auto simp: key_leads_def r new_hold_def)
qed (use assms(2) in auto)

text \<open>C36. However sessions place, confirm and release holds, a seat never has two active bookings and a
  buyer never two holds in a match; a booking that has been confirmed stays as it is, its seat is
  refused to everyone, and only the holder confirms, and only while the hold has not run out.\<close>

theorem seat_sold_once:
  assumes "db_ok db" "seat_step\<^sup>*\<^sup>* (t, db) (t', db')"
  shows "(x \<in> set (db_rows db') \<and> y \<in> set (db_rows db') \<and> row_active x \<and> row_active y \<and> same_seat x y \<longrightarrow> x = y) \<and>
    (x \<in> set (db_rows db') \<and> y \<in> set (db_rows db') \<and> b_status x = SHeld \<and> b_status y = SHeld \<and>
       b_match x = b_match y \<and> b_buyer x = b_buyer y \<longrightarrow> x = y) \<and>
    (r \<in> set (db_rows db) \<and> b_status r = SConfirmed \<longrightarrow>
       r \<in> set (db_rows db') \<and> fst (hold_tx now (b_match r) (b_seat r) b ttl k stale db') = HoldTaken) \<and>
    (fst (st_ConfirmHold now i b db') = Inr z \<longrightarrow>
       (\<exists>h \<in> set (db_rows db'). b_id h = i \<and> b_buyer h = b \<and> b_status h = SHeld \<and> row_live now h \<and> z = confirm_row now h))"
proof -
  have ok: "db_ok db'" using seat_run_ok [OF assms(2)] assms(1) by simp
  have eq: "x = y" if "x \<in> set (db_rows db')" "y \<in> set (db_rows db')" "b_id x = b_id y" for x y
    using ok that by (auto simp: db_ok_def distinct_map dest: inj_onD)
  have "r \<in> set (db_rows db') \<and> fst (hold_tx now (b_match r) (b_seat r) b ttl k stale db') = HoldTaken"
    if r: "r \<in> set (db_rows db)" "b_status r = SConfirmed"
  proof -
    have m: "r \<in> set (db_rows db')" using seat_run_sold [OF assms(2)] r by simp
    then have "r \<in> set (cleared now (b_match r) (b_seat r) b (db_rows db'))"
      using r(2) by (force simp: cleared_def expire_stale_def cancel_previous_def update_rows_def)
    then have "unique_violation (b_match r) (b_seat r) b (cleared now (b_match r) (b_seat r) b (db_rows db'))"
      using r(2) by (auto simp: unique_violation_def list_ex_iff row_active_def)
    then show ?thesis using m by (simp add: hold_tx_def Let_def cleared_def)
  qed
  moreover have "\<exists>h \<in> set (db_rows db'). b_id h = i \<and> b_buyer h = b \<and> b_status h = SHeld \<and> row_live now h \<and> z = confirm_row now h"
    if "fst (st_ConfirmHold now i b db') = Inr z"
    using that by (auto simp: st_ConfirmHold_def confirmable_def row_live_def dest!: find_first_SomeD split: option.splits)
  ultimately show ?thesis
    using eq ok one_activeD [of "db_rows db'" x y] one_heldD [of "db_rows db'" x y] unfolding db_ok_def by blast
qed

definition demo_db :: seat_db where
  "demo_db = \<lparr>db_seats = [(''m1'', ''N-1'', ''NORTH''), (''m1'', ''N-2'', ''NORTH'')],
     db_rows = [\<lparr>b_id = 1, b_match = ''m1'', b_seat = ''N-1'', b_buyer = ''ann'', b_status = SConfirmed, b_expires = None,
                b_confirmed = Some 5, b_cancelled = None\<rparr>],
     db_keys = [], db_next = 2\<rparr>"

lemma demo_db_ok: "db_ok demo_db"
  by (simp add: db_ok_def demo_db_def row_ok_def seat_exists_def one_active_def one_held_def)

theorem seat_sold_once_witness:
  "fst (hold_tx 9 ''m1'' ''N-1'' ''bob'' 1000000 [] None demo_db) = HoldTaken"
  using seat_sold_once [OF demo_db_ok rtranclp.rtrancl_refl, where r = "hd (db_rows demo_db)" and now = 9
      and b = "''bob''" and ttl = 1000000 and k = "[]" and stale = None]
  by (auto simp: demo_db_def)



end
