(* ===== verification/Booking.thy ===== *)
theory Booking
  imports Seat_Store Http
begin

text \<open>
  \<open>cricket-stadium-booking\<close> above its store: the booking service with its retries and its seat-map
  cache (\<open>internal/booking\<close>), the handlers and the per-address limiter (\<open>internal/httpapi\<close>) and the
  worker (\<open>cmd/worker\<close>). The operations of the store that are not in the tree (cancelling a booking,
  listing bookings, the outbox) are arguments, as are the token buckets of \<open>golang.org/x/time/rate\<close>,
  JSON decoding, the context and the clock.
\<close>

section \<open>Retries\<close>

text \<open>Errors of the service: one of the store, a code of the database, or the context with the last
  failure before it.\<close>

datatype svc_err = StoreErr store_err | PgError string | CtxErr string "svc_err option"

definition bk_isRetryable :: "svc_err \<Rightarrow> bool" where
  "bk_isRetryable e = (case e of PgError code \<Rightarrow> code = ''40001'' \<or> code = ''40P01'' | _ \<Rightarrow> False)"

definition retryCtxErr :: "string \<Rightarrow> svc_err option \<Rightarrow> svc_err" where
  "retryCtxErr ctxErr lastErr = CtxErr ctxErr lastErr"

definition baseBackoff :: int where "baseBackoff = 10 * 1000000"
definition maxBackoff :: int where "maxBackoff = 1000000000"

text \<open>\<open>draw n\<close> is \<open>rand.Int64N(n)\<close>.\<close>

definition backoff_ceiling :: "nat \<Rightarrow> int" where
  "backoff_ceiling attempt =
     (let a = (if attempt > 20 then 20 else attempt); c = sint (push_bit a (word_of_int baseBackoff) :: i64)
      in if c \<le> 0 \<or> c > maxBackoff then maxBackoff else c)"

definition backoffFor :: "(int \<Rightarrow> int) \<Rightarrow> nat \<Rightarrow> int" where
  "backoffFor draw attempt = draw (backoff_ceiling attempt + 1)"

text \<open>\<open>ctx a\<close> is \<open>ctx.Err()\<close> before attempt \<open>a\<close>, \<open>gone a\<close> the context's error if it ends during the
  sleep after attempt \<open>a\<close>; \<open>n\<close> further attempts are allowed.\<close>

fun bk_retry_loop ::
  "(nat \<Rightarrow> string option) \<Rightarrow> (nat \<Rightarrow> string option) \<Rightarrow> (nat \<Rightarrow> 's \<Rightarrow> (svc_err + 'a) \<times> 's) \<Rightarrow> nat \<Rightarrow> nat \<Rightarrow> svc_err option \<Rightarrow> 's \<Rightarrow> (svc_err + 'a) \<times> 's" where
  "bk_retry_loop ctx gone fn n a lastErr s =
     (case ctx a of
        Some e \<Rightarrow> (Inl (retryCtxErr e lastErr), s)
      | None \<Rightarrow>
         (case fn a s of
            (Inr x, s') \<Rightarrow> (Inr x, s')
          | (Inl err, s') \<Rightarrow>
              if \<not> bk_isRetryable err then (Inl err, s')
              else case n of
                0 \<Rightarrow> (Inl err, s')
              | Suc n' \<Rightarrow>
                 (case gone a of
                    Some e \<Rightarrow> (Inl (retryCtxErr e (Some err)), s')
                  | None \<Rightarrow> bk_retry_loop ctx gone fn n' (Suc a) (Some err) s')))"

declare bk_retry_loop.simps [simp del]

definition withRetry ::
  "(nat \<Rightarrow> string option) \<Rightarrow> (nat \<Rightarrow> string option) \<Rightarrow> int \<Rightarrow> (nat \<Rightarrow> 's \<Rightarrow> (svc_err + 'a) \<times> 's) \<Rightarrow> 's \<Rightarrow> (svc_err + 'a) \<times> 's" where
  "withRetry ctx gone maxRetries fn s = bk_retry_loop ctx gone fn (nat (if maxRetries < 0 then 0 else maxRetries)) 0 None s"

section \<open>The seat-map cache\<close>

record seat_cache =
  sc_ttl :: int
  sc_items :: "string \<rightharpoonup> seat_view list \<times> int"

definition newSeatCache :: seat_cache where
  "newSeatCache = \<lparr>sc_ttl = 1000000000, sc_items = Map.empty\<rparr>"

definition sc_get :: "int \<Rightarrow> string \<Rightarrow> seat_cache \<Rightarrow> seat_view list option" where
  "sc_get now matchID c =
     (case sc_items c matchID of
        None \<Rightarrow> None
      | Some (seats, expiresAt) \<Rightarrow> if now > expiresAt then None else Some seats)"

definition sc_put :: "int \<Rightarrow> string \<Rightarrow> seat_view list \<Rightarrow> seat_cache \<Rightarrow> seat_cache" where
  "sc_put now matchID seats c = c\<lparr>sc_items := (sc_items c)(matchID \<mapsto> (seats, now + sc_ttl c))\<rparr>"

definition sc_invalidate :: "string \<Rightarrow> seat_cache \<Rightarrow> seat_cache" where
  "sc_invalidate matchID c = c\<lparr>sc_items := (sc_items c)(matchID := None)\<rparr>"

text \<open>\<open>load\<close> by the caller that leads the flight: \<open>t1\<close>, \<open>t2\<close>, \<open>t3\<close> are the readings of the clock. The
  result of the flight is cached whether or not the caller still waits (\<open>gone\<close>).\<close>

definition sc_flight :: "int \<Rightarrow> int \<Rightarrow> string \<Rightarrow> svc_err + seat_view list \<Rightarrow> seat_cache \<Rightarrow> (svc_err + seat_view list) \<times> seat_cache" where
  "sc_flight t2 t3 matchID loaded c =
     (case sc_get t2 matchID c of
        Some seats \<Rightarrow> (Inr seats, c)
      | None \<Rightarrow>
         (case loaded of
            Inl err \<Rightarrow> (Inl err, c)
          | Inr seats \<Rightarrow> (Inr seats, sc_put t3 matchID seats c)))"

definition sc_load :: "string option \<Rightarrow> int \<Rightarrow> int \<Rightarrow> int \<Rightarrow> string \<Rightarrow> svc_err + seat_view list \<Rightarrow> seat_cache \<Rightarrow> (svc_err + seat_view list) \<times> seat_cache" where
  "sc_load gone t1 t2 t3 matchID loaded c =
     (case sc_get t1 matchID c of
        Some seats \<Rightarrow> (Inr seats, c)
      | None \<Rightarrow>
         (case sc_flight t2 t3 matchID loaded c of
            (res, c') \<Rightarrow> (case gone of Some e \<Rightarrow> (Inl (CtxErr e None), c') | None \<Rightarrow> (res, c'))))"

section \<open>The service\<close>

record booking_service =
  bs_db :: seat_db
  bs_cache :: seat_cache
  bs_holdTTL :: int
  bs_maxRetries :: int

record hold =
  h_id :: int
  h_match :: string
  h_seat :: string
  h_buyer :: string
  h_status :: string
  h_expires :: "int option"

record booking =
  k_id :: int
  k_match :: string
  k_seat :: string
  k_status :: string
  k_confirmed :: "int option"

record booking_summary =
  y_id :: int
  y_match :: string
  y_seat :: string
  y_status :: string
  y_confirmed :: "int option"
  y_cancelled :: "int option"
  y_refund :: "string option"

text \<open>What a request meets on each attempt: the end of its context before the attempt or in the sleep
  after it, a failure of the driver that leaves the tables as they were, the readings of the clock, and
  what other sessions do, before the attempt (0) and inside it (1, 2).\<close>

record request_env =
  q_ctx :: "nat \<Rightarrow> string option"
  q_gone :: "nat \<Rightarrow> string option"
  q_fault :: "nat \<Rightarrow> svc_err option"
  q_now :: "nat \<Rightarrow> nat \<Rightarrow> int"
  q_mid :: "nat \<Rightarrow> nat \<Rightarrow> seat_db \<Rightarrow> seat_db"

definition attempt :: "request_env \<Rightarrow> (nat \<Rightarrow> seat_db \<Rightarrow> (store_err + 'a) \<times> seat_db) \<Rightarrow> nat \<Rightarrow> seat_db \<Rightarrow> (svc_err + 'a) \<times> seat_db" where
  "attempt q op a db =
     (let db0 = q_mid q a 0 db in
      case q_fault q a of
        Some err \<Rightarrow> (Inl err, db0)
      | None \<Rightarrow> (case op a db0 of (Inl e, db') \<Rightarrow> (Inl (StoreErr e), db') | (Inr x, db') \<Rightarrow> (Inr x, db')))"

text \<open>An operation in \<open>withRetry\<close>, its row \<open>view\<close>ed as the service's type; on success the seat map of
  its match is dropped.\<close>

definition svc_op ::
  "request_env \<Rightarrow> (nat \<Rightarrow> seat_db \<Rightarrow> (store_err + booking_row) \<times> seat_db) \<Rightarrow> (booking_row \<Rightarrow> 'a) \<Rightarrow> ('a \<Rightarrow> string) \<Rightarrow>
   booking_service \<Rightarrow> (svc_err + 'a) \<times> booking_service" where
  "svc_op q op view match_of s =
     (case withRetry (q_ctx q) (q_gone q) (bs_maxRetries s) (attempt q op) (bs_db s) of
        (Inl e, db) \<Rightarrow> (Inl e, s\<lparr>bs_db := db\<rparr>)
      | (Inr r, db) \<Rightarrow> (Inr (view r), s\<lparr>bs_db := db, bs_cache := sc_invalidate (match_of (view r)) (bs_cache s)\<rparr>))"

definition hold_of :: "booking_row \<Rightarrow> hold" where
  "hold_of r = \<lparr>h_id = b_id r, h_match = b_match r, h_seat = b_seat r, h_buyer = b_buyer r,
                h_status = status_text (b_status r), h_expires = b_expires r\<rparr>"

definition svc_placeHold :: "request_env \<Rightarrow> string \<Rightarrow> string \<Rightarrow> string \<Rightarrow> string \<Rightarrow> booking_service \<Rightarrow> (svc_err + hold) \<times> booking_service" where
  "svc_placeHold q matchID seatID buyerID key s =
     svc_op q (\<lambda>a. placeHold (q_mid q a 1) (q_mid q a 2) (q_now q a 0) (q_now q a 1) (q_now q a 2) matchID seatID buyerID (bs_holdTTL s) key)
       hold_of (\<lambda>_. matchID) s"

definition svc_ConfirmHold :: "request_env \<Rightarrow> int \<Rightarrow> string \<Rightarrow> booking_service \<Rightarrow> (svc_err + booking) \<times> booking_service" where
  "svc_ConfirmHold q holdID buyerID s =
     svc_op q (\<lambda>a. st_ConfirmHold (q_now q a 0) holdID buyerID)
       (\<lambda>r. \<lparr>k_id = b_id r, k_match = b_match r, k_seat = b_seat r, k_status = status_text (b_status r), k_confirmed = b_confirmed r\<rparr>)
       k_match s"

text \<open>\<open>cancel\<close> is \<open>store.CancelBooking\<close> at a reading of the clock.\<close>

definition svc_CancelBooking ::
  "request_env \<Rightarrow> (int \<Rightarrow> int \<Rightarrow> string \<Rightarrow> seat_db \<Rightarrow> (store_err + booking_row) \<times> seat_db) \<Rightarrow> int \<Rightarrow> string \<Rightarrow> booking_service \<Rightarrow> (svc_err + booking) \<times> booking_service" where
  "svc_CancelBooking q cancel bookingID buyerID s =
     svc_op q (\<lambda>a. cancel (q_now q a 0) bookingID buyerID)
       (\<lambda>r. \<lparr>k_id = b_id r, k_match = b_match r, k_seat = b_seat r, k_status = status_text (b_status r), k_confirmed = None\<rparr>)
       k_match s"

text \<open>Releasing is not retried.\<close>

definition svc_ReleaseHold :: "request_env \<Rightarrow> int \<Rightarrow> string \<Rightarrow> booking_service \<Rightarrow> (svc_err + unit) \<times> booking_service" where
  "svc_ReleaseHold q holdID buyerID s =
     (case attempt q (\<lambda>a. st_ReleaseHold (q_now q a 0) holdID buyerID) 0 (bs_db s) of
        (Inl e, db) \<Rightarrow> (Inl e, s\<lparr>bs_db := db\<rparr>)
      | (Inr matchID, db) \<Rightarrow> (Inr (), s\<lparr>bs_db := db, bs_cache := sc_invalidate matchID (bs_cache s)\<rparr>))"

definition svc_ListSeats :: "request_env \<Rightarrow> string \<Rightarrow> booking_service \<Rightarrow> (svc_err + seat_view list) \<times> booking_service" where
  "svc_ListSeats q matchID s =
     (case sc_load (q_gone q 0) (q_now q 0 0) (q_now q 0 1) (q_now q 0 3) matchID
        (case q_fault q 0 of Some err \<Rightarrow> Inl err | None \<Rightarrow> Inr (st_ListSeats (q_now q 0 2) matchID (bs_db s))) (bs_cache s) of
        (res, c) \<Rightarrow> (res, s\<lparr>bs_cache := c\<rparr>))"

section \<open>Handlers\<close>

record seat_entry =
  se_seat :: string
  se_section :: string
  se_status :: string
  se_expires :: "string option"

datatype bk_body =
  BkError string
| BkHold hold
| BkBooking booking
| BkSeats string "seat_entry list"
| BkBookings "booking_summary list"
| BkStatus string
| BkNone

definition validBuyerID :: "string \<Rightarrow> bool" where
  "validBuyerID i \<longleftrightarrow> i \<noteq> [] \<and> length i \<le> 255"

definition validIdempotencyKey :: "string \<Rightarrow> bool" where
  "validIdempotencyKey key \<longleftrightarrow> length key \<le> 255"

definition bk_writeError :: "svc_err \<Rightarrow> int \<times> bk_body" where
  "bk_writeError e =
     (if e = StoreErr ErrSeatUnavailable then (409, BkError ''seat_unavailable'')
      else if e = StoreErr ErrHoldExpired then (409, BkError ''hold_expired'')
      else if e = StoreErr ErrNotFound then (404, BkError ''not_found'')
      else if e = StoreErr ErrIdempotencyKeyReuse then (422, BkError ''idempotency_key_reuse'')
      else (500, BkError ''internal_error''))"

text \<open>The body is \<open>None\<close> if it does not decode, and else its buyer.\<close>

definition parseIDAndBuyer :: "string \<Rightarrow> string option \<Rightarrow> (int \<times> bk_body) + int \<times> string" where
  "parseIDAndBuyer path body =
     (case parse_int64 path of
        None \<Rightarrow> Inl (400, BkError ''invalid id'')
      | Some i \<Rightarrow>
         (case body of
            None \<Rightarrow> Inl (400, BkError ''buyer_id required'')
          | Some b \<Rightarrow> if \<not> validBuyerID b then Inl (400, BkError ''buyer_id required'') else Inr (sint i, b)))"

definition handleHold ::
  "request_env \<Rightarrow> string \<Rightarrow> string \<Rightarrow> string option \<Rightarrow> http_header \<Rightarrow> booking_service \<Rightarrow> (int \<times> bk_body) \<times> booking_service" where
  "handleHold q matchID seatID body hdr s =
     (case body of
        None \<Rightarrow> ((400, BkError ''buyer_id required''), s)
      | Some b \<Rightarrow>
          if \<not> validBuyerID b then ((400, BkError ''buyer_id required''), s)
          else
            let key = header_get hdr ''Idempotency-Key'' in
            if \<not> validIdempotencyKey key then ((400, BkError ''invalid idempotency key''), s)
            else case svc_placeHold q matchID seatID b key s of
              (Inl e, s') \<Rightarrow> (bk_writeError e, s')
            | (Inr r, s') \<Rightarrow> ((201, BkHold r), s'))"

definition handleConfirm :: "request_env \<Rightarrow> string \<Rightarrow> string option \<Rightarrow> booking_service \<Rightarrow> (int \<times> bk_body) \<times> booking_service" where
  "handleConfirm q path body s =
     (case parseIDAndBuyer path body of
        Inl reply \<Rightarrow> (reply, s)
      | Inr (i, b) \<Rightarrow>
         (case svc_ConfirmHold q i b s of
            (Inl e, s') \<Rightarrow> (bk_writeError e, s')
          | (Inr r, s') \<Rightarrow> ((200, BkBooking r), s')))"

definition handleRelease :: "request_env \<Rightarrow> string \<Rightarrow> string option \<Rightarrow> booking_service \<Rightarrow> (int \<times> bk_body) \<times> booking_service" where
  "handleRelease q path body s =
     (case parseIDAndBuyer path body of
        Inl reply \<Rightarrow> (reply, s)
      | Inr (i, b) \<Rightarrow>
         (case svc_ReleaseHold q i b s of
            (Inl e, s') \<Rightarrow> (bk_writeError e, s')
          | (Inr _, s') \<Rightarrow> ((204, BkNone), s')))"

definition handleCancel ::
  "request_env \<Rightarrow> (int \<Rightarrow> int \<Rightarrow> string \<Rightarrow> seat_db \<Rightarrow> (store_err + booking_row) \<times> seat_db) \<Rightarrow> string \<Rightarrow> string option \<Rightarrow> booking_service \<Rightarrow> (int \<times> bk_body) \<times> booking_service" where
  "handleCancel q cancel path body s =
     (case parseIDAndBuyer path body of
        Inl reply \<Rightarrow> (reply, s)
      | Inr (i, b) \<Rightarrow>
         (case svc_CancelBooking q cancel i b s of
            (Inl e, s') \<Rightarrow> (bk_writeError e, s')
          | (Inr r, s') \<Rightarrow> ((200, BkBooking r), s')))"

text \<open>\<open>fmt\<close> is \<open>Time.Format\<close> with the layout of the handler.\<close>

definition seat_entry_of :: "(int \<Rightarrow> string) \<Rightarrow> seat_view \<Rightarrow> seat_entry" where
  "seat_entry_of fmt v = \<lparr>se_seat = sv_seat v, se_section = sv_section v, se_status = sv_status v, se_expires = map_option fmt (sv_expires v)\<rparr>"

definition handleListSeats :: "(int \<Rightarrow> string) \<Rightarrow> request_env \<Rightarrow> string \<Rightarrow> booking_service \<Rightarrow> (int \<times> bk_body) \<times> booking_service" where
  "handleListSeats fmt q matchID s =
     (case svc_ListSeats q matchID s of
        (Inl e, s') \<Rightarrow> (bk_writeError e, s')
      | (Inr seats, s') \<Rightarrow> ((200, BkSeats matchID (map (seat_entry_of fmt) seats)), s'))"

text \<open>\<open>rows\<close> is the answer of \<open>store.ListBookings\<close>, whose rows \<open>Service.ListBookings\<close> copies field by field.\<close>

definition handleListBookings :: "(string \<Rightarrow> string \<Rightarrow> svc_err + booking_summary list) \<Rightarrow> string \<Rightarrow> string \<Rightarrow> int \<times> bk_body" where
  "handleListBookings rows matchID buyerID =
     (if \<not> validBuyerID buyerID then (400, BkError ''buyer_id required'')
      else case rows matchID buyerID of Inl e \<Rightarrow> bk_writeError e | Inr bs \<Rightarrow> (200, BkBookings bs))"

definition handleHealthz :: "bool \<Rightarrow> int \<times> bk_body" where
  "handleHealthz up = (if \<not> up then (503, BkStatus ''down'') else (200, BkStatus ''ok''))"

section \<open>The limiter\<close>

text \<open>\<open>new\<close> is a fresh token bucket and \<open>take_tok\<close> its \<open>Allow\<close>.\<close>

definition ip_allow ::
  "'b \<Rightarrow> ('b \<Rightarrow> bool \<times> 'b) \<Rightarrow> int \<Rightarrow> string \<Rightarrow> (string \<rightharpoonup> 'b \<times> int) \<Rightarrow> bool \<times> (string \<rightharpoonup> 'b \<times> int)" where
  "ip_allow new take_tok now ip m =
     (case take_tok (case m ip of Some (b, seen) \<Rightarrow> b | None \<Rightarrow> new) of (ok, b) \<Rightarrow> (ok, m(ip \<mapsto> (b, now))))"

definition ip_cleanup :: "int \<Rightarrow> (string \<rightharpoonup> 'b \<times> int) \<Rightarrow> (string \<rightharpoonup> 'b \<times> int)" where
  "ip_cleanup now m = (\<lambda>ip. case m ip of Some (b, seen) \<Rightarrow> if seen < now - 600 * 1000000000 then None else Some (b, seen) | None \<Rightarrow> None)"

text \<open>\<open>split\<close> is \<open>net.SplitHostPort\<close> of the remote address.\<close>

definition rateLimitMiddleware ::
  "'b \<Rightarrow> ('b \<Rightarrow> bool \<times> 'b) \<Rightarrow> (string \<Rightarrow> string option) \<Rightarrow> int \<Rightarrow> request \<Rightarrow> (request \<Rightarrow> 's \<Rightarrow> (int \<times> bk_body) \<times> 's) \<Rightarrow>
   (string \<rightharpoonup> 'b \<times> int) \<times> 's \<Rightarrow> (int \<times> bk_body) \<times> (string \<rightharpoonup> 'b \<times> int) \<times> 's" where
  "rateLimitMiddleware new take_tok split now r next_h st =
     (case st of (m, s) \<Rightarrow>
        if rq_method r = ''GET'' then (case next_h r s of (reply, s') \<Rightarrow> (reply, m, s'))
        else
          let ip = (case split (rq_remote r) of Some h \<Rightarrow> h | None \<Rightarrow> rq_remote r) in
          case ip_allow new take_tok now ip m of
            (False, m') \<Rightarrow> ((429, BkError ''rate_limited''), m', s)
          | (True, m') \<Rightarrow> (case next_h r s of (reply, s') \<Rightarrow> (reply, m', s')))"

section \<open>The worker\<close>

record outbox_row =
  x_id :: int
  x_type :: string
  x_payload :: string

text \<open>The store's operations on the outbox, each with whether it succeeded.\<close>

record 'w outbox_ops =
  w_MarkProcessed :: "int \<Rightarrow> 'w \<Rightarrow> bool \<times> 'w"
  w_MarkRefund :: "int \<Rightarrow> string \<Rightarrow> string \<Rightarrow> 'w \<Rightarrow> bool \<times> 'w"
  w_ReleaseClaim :: "int \<Rightarrow> 'w \<Rightarrow> bool \<times> 'w"
  w_Poll :: "int \<Rightarrow> 'w \<Rightarrow> outbox_row list option \<times> 'w"
  w_Sweep :: "int \<Rightarrow> 'w \<Rightarrow> 'w"
  w_Prune :: "int \<Rightarrow> int \<Rightarrow> 'w \<Rightarrow> 'w"

definition stubbedGatewayRefund :: "int \<Rightarrow> int \<Rightarrow> string" where
  "stubbedGatewayRefund now refundID = ''stub-refund-ref-'' @ itoa refundID @ ''-'' @ itoa now"

definition process_event :: "'w outbox_ops \<Rightarrow> (string \<Rightarrow> int option) \<Rightarrow> int \<Rightarrow> outbox_row \<Rightarrow> 'w \<Rightarrow> 'w" where
  "process_event ops decode now e w =
     (if x_type e \<noteq> ''refund_requested'' then snd (w_MarkProcessed ops (x_id e) w)
      else case decode (x_payload e) of
        None \<Rightarrow> snd (w_MarkProcessed ops (x_id e) w)
      | Some refundID \<Rightarrow>
         (case w_MarkRefund ops refundID ''refunded'' (stubbedGatewayRefund now refundID) w of
            (False, w') \<Rightarrow> snd (w_ReleaseClaim ops (x_id e) w')
          | (True, w') \<Rightarrow> snd (w_MarkProcessed ops (x_id e) w')))"

definition processBatch :: "'w outbox_ops \<Rightarrow> (string \<Rightarrow> int option) \<Rightarrow> (outbox_row \<Rightarrow> int) \<Rightarrow> int \<Rightarrow> 'w \<Rightarrow> 'w" where
  "processBatch ops decode now batchSize w =
     (case w_Poll ops batchSize w of
        (None, w') \<Rightarrow> w'
      | (Some es, w') \<Rightarrow> fold (\<lambda>e. process_event ops decode (now e) e) es w')"

definition worker_tick :: "'w outbox_ops \<Rightarrow> (string \<Rightarrow> int option) \<Rightarrow> (outbox_row \<Rightarrow> int) \<Rightarrow> int \<Rightarrow> 'w \<Rightarrow> 'w" where
  "worker_tick ops decode now batchSize w =
     w_Prune ops (24 * 3600 * 1000000000) 1000 (w_Sweep ops 1000 (processBatch ops decode now batchSize w))"

section \<open>Lemmas\<close>

text \<open>The sleep is at most a second, and the ceiling doubles from ten milliseconds without overflow.\<close>

theorem bk_backoff_bounds:
  assumes "\<And>n. 0 < n \<Longrightarrow> 0 \<le> draw n \<and> draw n < n"
  shows "0 \<le> backoffFor draw a \<and> backoffFor draw a \<le> maxBackoff"
proof -
  have "0 < backoff_ceiling a" "backoff_ceiling a \<le> maxBackoff"
    by (simp_all add: backoff_ceiling_def Let_def maxBackoff_def)
  then show ?thesis using assms [of "backoff_ceiling a + 1"] by (simp add: backoffFor_def)
qed

text \<open>The operation runs at most \<open>maxRetries + 1\<close> times: attempts past that bound do not matter.\<close>

lemma bk_retry_bounded:
  "\<forall>k. a \<le> k \<and> k \<le> a + n \<longrightarrow> fn k = gn k \<Longrightarrow> bk_retry_loop ctx gone fn n a l s = bk_retry_loop ctx gone gn n a l s"
proof (induction n arbitrary: a l s)
  case 0
  then have "fn a = gn a" by simp
  then show ?case by (subst (1 2) bk_retry_loop.simps) (auto split: option.splits sum.splits prod.splits)
next
  case (Suc n)
  have "bk_retry_loop ctx gone fn n (Suc a) l' s' = bk_retry_loop ctx gone gn n (Suc a) l' s'" for l' s'
    using Suc.prems by (intro Suc.IH) auto
  moreover have "fn a = gn a" using Suc.prems by simp
  ultimately show ?case by (subst (1 2) bk_retry_loop.simps) (auto split: option.splits sum.splits prod.splits)
qed

text \<open>A result is the operation's own, on some attempt in the bound.\<close>

lemma bk_retry_result:
  "bk_retry_loop ctx gone fn n a l s = (Inr x, s') \<Longrightarrow> \<exists>k s0. a \<le> k \<and> k \<le> a + n \<and> fn k s0 = (Inr x, s')"
proof (induction n arbitrary: a l s)
  case 0
  then show ?case by (subst (asm) bk_retry_loop.simps) (force split: option.splits sum.splits prod.splits if_splits)
next
  case (Suc n)
  from Suc.prems consider "fn a s = (Inr x, s')"
    | l' s1 where "bk_retry_loop ctx gone fn n (Suc a) l' s1 = (Inr x, s')"
    by (subst (asm) bk_retry_loop.simps) (auto split: option.splits sum.splits prod.splits if_splits)
  then show ?case
  proof cases
    case 2
    from Suc.IH [OF this] show ?thesis by (metis Suc_leD add_Suc_shift)
  qed (metis le_add1 le_refl)
qed

text \<open>A seat map read from the cache was put there less than a time-to-live ago; after a change of the
  match it is read anew.\<close>

lemma sc_get_put: "sc_get now m (sc_put t m seats c) = (if now > t + sc_ttl c then None else Some seats)"
  by (simp add: sc_get_def sc_put_def)

lemma sc_get_invalidate: "sc_get now m (sc_invalidate m c) = None"
  by (simp add: sc_get_def sc_invalidate_def)

theorem hold_then_list:
  assumes "svc_placeHold q m seat b k s = (Inr r, s')" "q_gone q' 0 = None" "q_fault q' 0 = None"
  shows "fst (svc_ListSeats q' m s') = Inr (st_ListSeats (q_now q' 0 2) m (bs_db s'))"
proof -
  from assms(1) have "\<exists>c. bs_cache s' = sc_invalidate m c"
    by (auto simp: svc_placeHold_def svc_op_def split: prod.splits sum.splits)
  then show ?thesis
    using assms(2,3) by (auto simp: svc_ListSeats_def sc_load_def sc_flight_def sc_get_invalidate split: prod.splits)
qed

text \<open>Every event of a batch is closed or given back once.\<close>

lemma process_event_closes:
  "\<exists>w'. process_event ops decode now e w = snd (w_MarkProcessed ops (x_id e) w') \<or>
        process_event ops decode now e w = snd (w_ReleaseClaim ops (x_id e) w')"
  by (auto simp: process_event_def split: option.splits prod.splits bool.splits)

end
