(* ===== verification/Tenancy.thy ===== *)
theory Tenancy
  imports Configs Http
begin

text \<open>
  \<open>secure-multitenant-go\<close>: the permission matrix (\<open>internal/rbac\<close>), tenant scoping and its two
  repositories (\<open>internal/tenant\<close>, \<open>internal/pgstore\<close>), encryption at rest (\<open>internal/cryptox\<close>) and
  the handler of \<open>cmd/server\<close>. The AEAD of \<open>crypto/cipher\<close>, the nonces and the failures of the driver
  are arguments. Headers are read by their canonical names, as \<open>Header.Get\<close> does.
\<close>

section \<open>Roles\<close>

definition rolePermissions :: "(string \<times> string list) list" where
  "rolePermissions =
     [(''owner'', [''billing:view'', ''billing:manage'', ''users:manage'', ''tenant:delete'']),
      (''admin'', [''billing:view'', ''billing:manage'', ''users:manage'']),
      (''billing_viewer'', [''billing:view''])]"

datatype rbac_err = ErrForbidden | ErrUnknownRole

definition Can :: "string \<Rightarrow> string \<Rightarrow> bool" where
  "Can role perm = (case map_of rolePermissions role of None \<Rightarrow> False | Some perms \<Rightarrow> perm \<in> set perms)"

definition Authorize :: "string \<Rightarrow> string \<Rightarrow> rbac_err option" where
  "Authorize role perm =
     (if map_of rolePermissions role = None then Some ErrUnknownRole
      else if \<not> Can role perm then Some ErrForbidden else None)"

text \<open>What the request's context carries.\<close>

record tn_ctx =
  cx_tenant :: "string option"
  cx_role :: "string option"

definition rbac_Extract :: "(tn_ctx \<Rightarrow> request \<Rightarrow> 's \<Rightarrow> response \<times> 's) \<Rightarrow> tn_ctx \<Rightarrow> request \<Rightarrow> 's \<Rightarrow> response \<times> 's" where
  "rbac_Extract next_h c r = next_h (c\<lparr>cx_role := Some (header_get (rq_header r) ''X-Role'')\<rparr>) r"

definition rbac_Require :: "string \<Rightarrow> (tn_ctx \<Rightarrow> request \<Rightarrow> 's \<Rightarrow> response \<times> 's) \<Rightarrow> tn_ctx \<Rightarrow> request \<Rightarrow> 's \<Rightarrow> response \<times> 's" where
  "rbac_Require perm next_h c r s =
     (case cx_role c of
        None \<Rightarrow> (http_Error ''Unauthorized'' 401, s)
      | Some role \<Rightarrow>
          if role = [] then (http_Error ''Unauthorized'' 401, s)
          else if Authorize role perm \<noteq> None then (http_Error ''Forbidden'' 403, s)
          else next_h c r s)"

section \<open>Tenants\<close>

datatype tn_err = ErrMissingTenant | TnNotFound | TnDriver string

definition tn_FromContext :: "tn_ctx \<Rightarrow> tn_err + string" where
  "tn_FromContext c = (case cx_tenant c of None \<Rightarrow> Inl ErrMissingTenant | Some i \<Rightarrow> if i = [] then Inl ErrMissingTenant else Inr i)"

definition tn_Middleware :: "(tn_ctx \<Rightarrow> request \<Rightarrow> 's \<Rightarrow> response \<times> 's) \<Rightarrow> tn_ctx \<Rightarrow> request \<Rightarrow> 's \<Rightarrow> response \<times> 's" where
  "tn_Middleware next_h c r s =
     (let raw = TrimSpace (header_get (rq_header r) ''X-Tenant-Id'') in
      if raw = [] then (http_Error ''missing X-Tenant-ID'' 400, s)
      else next_h (c\<lparr>cx_tenant := Some raw\<rparr>) r s)"

record tn_record =
  tr_ID :: string
  tr_TenantID :: string
  tr_Data :: string

section \<open>The repository in memory\<close>

type_synonym tn_mem = "string \<rightharpoonup> tn_record"

definition tm_Put :: "tn_ctx \<Rightarrow> string \<Rightarrow> string \<Rightarrow> tn_mem \<Rightarrow> (tn_err + tn_record) \<times> tn_mem" where
  "tm_Put c i payload s =
     (case tn_FromContext c of
        Inl err \<Rightarrow> (Inl err, s)
      | Inr tid \<Rightarrow> let r = \<lparr>tr_ID = i, tr_TenantID = tid, tr_Data = payload\<rparr> in (Inr r, s(i \<mapsto> r)))"

definition tm_Get :: "tn_ctx \<Rightarrow> string \<Rightarrow> tn_mem \<Rightarrow> tn_err + tn_record" where
  "tm_Get c i s =
     (case tn_FromContext c of
        Inl err \<Rightarrow> Inl err
      | Inr tid \<Rightarrow> (case s i of None \<Rightarrow> Inl TnNotFound | Some r \<Rightarrow> if tr_TenantID r \<noteq> tid then Inl TnNotFound else Inr r))"

text \<open>\<open>order\<close> is the order in which the map is ranged over.\<close>

definition tm_List :: "string list \<Rightarrow> tn_ctx \<Rightarrow> tn_mem \<Rightarrow> tn_err + tn_record list" where
  "tm_List order c s =
     (case tn_FromContext c of
        Inl err \<Rightarrow> Inl err
      | Inr tid \<Rightarrow> Inr (filter (\<lambda>r. tr_TenantID r = tid) (List.map_filter s order)))"

section \<open>The repository in Postgres\<close>

text \<open>The table by its primary key, and the rows that the policy lets a transaction see.\<close>

type_synonym tn_table = "((string \<times> string) \<times> string) list"

definition rls_visible :: "string \<Rightarrow> tn_table \<Rightarrow> tn_table" where
  "rls_visible current_tenant rows = filter (\<lambda>((t, i), d). t = current_tenant) rows"

text \<open>\<open>fault\<close> is a failure of the driver, after which the transaction is rolled back.\<close>

definition withTenant :: "string option \<Rightarrow> tn_ctx \<Rightarrow> (string \<Rightarrow> tn_table \<Rightarrow> (tn_err + 'a) \<times> tn_table) \<Rightarrow> tn_table \<Rightarrow> (tn_err + 'a) \<times> tn_table" where
  "withTenant fault c fn rows =
     (case tn_FromContext c of
        Inl err \<Rightarrow> (Inl err, rows)
      | Inr tid \<Rightarrow>
         (case fault of
            Some e \<Rightarrow> (Inl (TnDriver e), rows)
          | None \<Rightarrow> (case fn tid rows of (Inl err, _) \<Rightarrow> (Inl err, rows) | (Inr x, rows') \<Rightarrow> (Inr x, rows'))))"

definition tp_Put :: "string option \<Rightarrow> tn_ctx \<Rightarrow> string \<Rightarrow> string \<Rightarrow> tn_table \<Rightarrow> (tn_err + tn_record) \<times> tn_table" where
  "tp_Put fault c i payload =
     withTenant fault c (\<lambda>tid rows. (Inr \<lparr>tr_ID = i, tr_TenantID = tid, tr_Data = payload\<rparr>, AList.update (tid, i) payload rows))"

definition tp_Get :: "string option \<Rightarrow> tn_ctx \<Rightarrow> string \<Rightarrow> tn_table \<Rightarrow> tn_err + tn_record" where
  "tp_Get fault c i rows =
     fst (withTenant fault c
       (\<lambda>tid rows. (case map_of (rls_visible tid rows) (tid, i) of
            None \<Rightarrow> Inl TnNotFound
          | Some d \<Rightarrow> Inr \<lparr>tr_ID = i, tr_TenantID = tid, tr_Data = d\<rparr>, rows)) rows)"

definition tp_List :: "string option \<Rightarrow> tn_ctx \<Rightarrow> tn_table \<Rightarrow> tn_err + tn_record list" where
  "tp_List fault c rows =
     fst (withTenant fault c
       (\<lambda>tid rows. (Inr (map (\<lambda>((t, i), d). \<lparr>tr_ID = i, tr_TenantID = t, tr_Data = d\<rparr>)
            (sort_key (\<lambda>((t, i), d). i) (filter (\<lambda>((t, i), d). t = tid) (rls_visible tid rows)))), rows)) rows)"

section \<open>Encryption at rest\<close>

datatype crypt_err = ErrInvalidKeySize | ErrCiphertextShort | ErrEmptyPlaintext | CryptNonce | CryptDecode | CryptOpen

record aead =
  ae_nonceSize :: nat
  ae_Seal :: "string \<Rightarrow> string \<Rightarrow> string \<Rightarrow> string"
  ae_Open :: "string \<Rightarrow> string \<Rightarrow> string \<Rightarrow> string option"

text \<open>\<open>gcm\<close> is \<open>cipher.NewGCM\<close> of the AES block of a key.\<close>

definition NewCipher :: "(string \<Rightarrow> aead) \<Rightarrow> string \<Rightarrow> crypt_err + aead" where
  "NewCipher gcm key = (if length key \<noteq> 32 then Inl ErrInvalidKeySize else Inr (gcm key))"

definition Encrypt :: "aead \<Rightarrow> string option \<Rightarrow> string \<Rightarrow> string \<Rightarrow> crypt_err + string" where
  "Encrypt a nonce plaintext aad =
     (if plaintext = [] then Inl ErrEmptyPlaintext
      else case nonce of
        None \<Rightarrow> Inl CryptNonce
      | Some n \<Rightarrow> Inr (b64_encode (n @ ae_Seal a n plaintext aad)))"

definition Decrypt :: "aead \<Rightarrow> string \<Rightarrow> string \<Rightarrow> crypt_err + string" where
  "Decrypt a encoded aad =
     (case b64_decode encoded of
        None \<Rightarrow> Inl CryptDecode
      | Some raw \<Rightarrow>
          let ns = ae_nonceSize a in
          if length raw < ns then Inl ErrCiphertextShort
          else case ae_Open a (take ns raw) (drop ns raw) aad of None \<Rightarrow> Inl CryptOpen | Some p \<Rightarrow> Inr p)"

section \<open>The server\<close>

definition err_text :: "tn_err \<Rightarrow> string" where
  "err_text e = (case e of
       ErrMissingTenant \<Rightarrow> ''tenant: no tenant id in context''
     | TnNotFound \<Rightarrow> ''tenant: record not found''
     | TnDriver m \<Rightarrow> m)"

definition records_handler ::
  "aead \<Rightarrow> string option \<Rightarrow> (tn_ctx \<Rightarrow> string \<Rightarrow> string \<Rightarrow> 's \<Rightarrow> (tn_err + tn_record) \<times> 's) \<Rightarrow> tn_ctx \<Rightarrow> request \<Rightarrow> 's \<Rightarrow> response \<times> 's" where
  "records_handler a nonce put c r s =
     (case tn_FromContext c of
        Inl err \<Rightarrow> (http_Error (err_text err) 400, s)
      | Inr tid \<Rightarrow>
         (case Encrypt a nonce ''sensitive-payload'' tid of
            Inl _ \<Rightarrow> (http_Error ''internal error'' 500, s)
          | Inr enc \<Rightarrow>
             (case put c (''rec-'' @ tid) enc s of
                (Inl err, s') \<Rightarrow> (http_Error (err_text err) 500, s')
              | (Inr _, s') \<Rightarrow> (server_write 201 [] (''stored (AES-256-GCM, tenant-scoped)'' @ [CHR 0x0A]), s'))))"

definition tn_mux :: "(tn_ctx \<Rightarrow> request \<Rightarrow> 's \<Rightarrow> response \<times> 's) \<Rightarrow> tn_ctx \<Rightarrow> request \<Rightarrow> 's \<Rightarrow> response \<times> 's" where
  "tn_mux h c r s = (if rq_path r = ''/records'' then h c r s else (http_NotFound, s))"

definition tn_serve ::
  "aead \<Rightarrow> string option \<Rightarrow> (tn_ctx \<Rightarrow> string \<Rightarrow> string \<Rightarrow> 's \<Rightarrow> (tn_err + tn_record) \<times> 's) \<Rightarrow> request \<Rightarrow> 's \<Rightarrow> response \<times> 's" where
  "tn_serve a nonce put r =
     tn_Middleware (rbac_Extract (tn_mux (rbac_Require ''billing:manage'' (records_handler a nonce put))))
       \<lparr>cx_tenant = None, cx_role = None\<rparr> r"

text \<open>A history of requests, each with its nonce.\<close>

definition tn_run ::
  "aead \<Rightarrow> (tn_ctx \<Rightarrow> string \<Rightarrow> string \<Rightarrow> 's \<Rightarrow> (tn_err + tn_record) \<times> 's) \<Rightarrow> (string option \<times> request) list \<Rightarrow> 's \<Rightarrow> 's" where
  "tn_run a put rqs s = fold (\<lambda>(nonce, r) s. snd (tn_serve a nonce put r s)) rqs s"

definition tenant_of :: "request \<Rightarrow> string" where
  "tenant_of r = TrimSpace (header_get (rq_header r) ''X-Tenant-Id'')"

section \<open>What a repository promises\<close>

text \<open>Reads are scoped, a write is read back, and it touches no other identifier.\<close>

locale tenant_reads =
  fixes put :: "tn_ctx \<Rightarrow> string \<Rightarrow> string \<Rightarrow> 's \<Rightarrow> (tn_err + tn_record) \<times> 's"
    and get :: "tn_ctx \<Rightarrow> string \<Rightarrow> 's \<Rightarrow> tn_err + tn_record"
  assumes get_own: "get c i s = Inr r \<Longrightarrow> cx_tenant c = Some (tr_TenantID r)"
    and put_get: "put c i d s = (Inr r, s') \<Longrightarrow> get c i s' = Inr r"
    and put_rec: "put c i d s = (Inr r, s') \<Longrightarrow> cx_tenant c = Some (tr_TenantID r) \<and> tr_ID r = i \<and> tr_Data r = d"
    and put_fails: "put c i d s = (Inl e, s') \<Longrightarrow> s' = s"
    and put_id: "put c i d s = (x, s') \<Longrightarrow> i' \<noteq> i \<Longrightarrow> get c' i' s' = get c' i' s"
begin

lemma serve_id:
  assumes "i \<noteq> ''rec-'' @ tenant_of r"
  shows "get c i (snd (tn_serve a n put r s)) = get c i s"
  using assms put_id
  by (auto simp: tn_serve_def tn_Middleware_def rbac_Extract_def tn_mux_def rbac_Require_def records_handler_def
      tn_FromContext_def tenant_of_def Let_def split: sum.splits option.splits prod.splits)

lemma run_id:
  "\<forall>q \<in> set rqs. i \<noteq> ''rec-'' @ tenant_of (snd q) \<Longrightarrow> get c i (tn_run a put rqs s) = get c i s"
  by (induction rqs arbitrary: s) (auto simp: tn_run_def serve_id)

text \<open>A request that is answered with 201 came with a role that manages billing, and its record is
  the sealed payload of its tenant.\<close>

lemma serve_created:
  assumes "tn_serve a (Some n) put r s = (rs, s')" "rs_status rs = 201"
  shows "Can (header_get (rq_header r) ''X-Role'') ''billing:manage''" (is ?can)
    and "get \<lparr>cx_tenant = Some (tenant_of r), cx_role = Some (header_get (rq_header r) ''X-Role'')\<rparr> (''rec-'' @ tenant_of r) s' =
      Inr \<lparr>tr_ID = ''rec-'' @ tenant_of r, tr_TenantID = tenant_of r,
           tr_Data = b64_encode (n @ ae_Seal a n ''sensitive-payload'' (tenant_of r))\<rparr>" (is "get ?c ?i s' = Inr ?x")
proof -
  obtain x where x: "put ?c ?i (tr_Data ?x) s = (Inr x, s')" and can: ?can
    using assms
    by (auto simp: tn_serve_def tn_Middleware_def rbac_Extract_def tn_mux_def rbac_Require_def records_handler_def
        tn_FromContext_def tenant_of_def Let_def Authorize_def http_Error_def http_NotFound_def Encrypt_def
        split: sum.splits option.splits prod.splits if_splits)
  have "x = ?x" using put_rec [OF x] by simp
  then show "get ?c ?i s' = Inr ?x" using put_get [OF x] by simp
  show ?can by (rule can)
qed

text \<open>It stays there, and opens for its tenant, whatever requests of other tenants follow.\<close>

lemma served_stays:
  assumes "tn_serve a (Some n) put r s = (rs, s')" "rs_status rs = 201"
    "length n = ae_nonceSize a" "\<forall>p aad. ae_Open a n (ae_Seal a n p aad) aad = Some p"
    "\<forall>q \<in> set rqs. tenant_of (snd q) \<noteq> tenant_of r"
  shows "\<exists>x. get \<lparr>cx_tenant = Some (tenant_of r), cx_role = Some (header_get (rq_header r) ''X-Role'')\<rparr>
      (''rec-'' @ tenant_of r) (tn_run a put rqs s') = Inr x \<and> Decrypt a (tr_Data x) (tenant_of r) = Inr ''sensitive-payload''"
proof -
  have "get c (''rec-'' @ tenant_of r) (tn_run a put rqs s') = get c (''rec-'' @ tenant_of r) s'" for c
    by (rule run_id) (use assms(5) in auto)
  then show ?thesis using serve_created(2) [OF assms(1,2)] assms(3,4) by (simp add: Decrypt_def Let_def)
qed

end

text \<open>Full isolation: a write of one tenant changes nothing that another tenant reads.\<close>

locale tenant_repo = tenant_reads +
  assumes put_other: "put c i d s = (x, s') \<Longrightarrow> cx_tenant c' \<noteq> cx_tenant c \<Longrightarrow> get c' i' s' = get c' i' s"
begin

lemma puts_isolated:
  "\<forall>(c', i', d) \<in> set ws. cx_tenant c' \<noteq> cx_tenant c \<Longrightarrow>
   get c i (fold (\<lambda>(c', i', d) s. snd (put c' i' d s)) ws s) = get c i s"
proof (induction ws arbitrary: s)
  case (Cons w ws)
  obtain c' i' d where w: "w = (c', i', d)" by (cases w)
  have "get c i (snd (put c' i' d s)) = get c i s"
    using put_other [of c' i' d s _ _ c i] Cons.prems w by (cases "put c' i' d s") auto
  then show ?case using Cons w by simp
qed simp

end

lemma rls_lookup: "map_of (rls_visible t rows) (t, i) = map_of rows (t, i)"
  by (induction rows) (auto simp: rls_visible_def)

interpretation tm: tenant_reads tm_Put tm_Get
  by unfold_locales
    (auto simp: tm_Put_def tm_Get_def tn_FromContext_def Let_def split: sum.splits option.splits if_splits)

interpretation tp: tenant_repo "tp_Put None" "tp_Get None"
  by unfold_locales
    (auto simp: tp_Put_def tp_Get_def withTenant_def tn_FromContext_def rls_lookup update_conv' split: sum.splits option.splits if_splits)

section \<open>Tenants are kept apart\<close>

text \<open>C38. What a tenant stores through the server needs a role that manages billing, opens for that
  tenant, and stays as it is under every later history of requests of other tenants, with either
  repository; a read never returns a record of another tenant; and in Postgres no write of other
  tenants at all, whatever its identifier, changes what a tenant reads.\<close>

theorem tenant_isolation:
  assumes "tn_serve a (Some n) tm_Put r m = (rs, m')" "rs_status rs = 201"
    "tn_serve a (Some n) (tp_Put None) r p = (rs', p')" "rs_status rs' = 201"
    "length n = ae_nonceSize a" "\<forall>q aad. ae_Open a n (ae_Seal a n q aad) aad = Some q"
    "\<forall>q \<in> set rqs. tenant_of (snd q) \<noteq> tenant_of r"
    "\<forall>(c', i', d) \<in> set ws. cx_tenant c' \<noteq> cx_tenant c"
    "role = header_get (rq_header r) ''X-Role''" "own = \<lparr>cx_tenant = Some (tenant_of r), cx_role = Some role\<rparr>"
  shows "Can role ''billing:manage'' \<and>
    (\<exists>x. tm_Get own (''rec-'' @ tenant_of r) (tn_run a tm_Put rqs m') = Inr x \<and>
       Decrypt a (tr_Data x) (tenant_of r) = Inr ''sensitive-payload'') \<and>
    (\<exists>x. tp_Get None own (''rec-'' @ tenant_of r) (tn_run a (tp_Put None) rqs p') = Inr x \<and>
       Decrypt a (tr_Data x) (tenant_of r) = Inr ''sensitive-payload'') \<and>
    (tm_Get c i s = Inr y \<longrightarrow> cx_tenant c = Some (tr_TenantID y)) \<and>
    tp_Get None c i (fold (\<lambda>(c', i', d) s. snd (tp_Put None c' i' d s)) ws p) = tp_Get None c i p"
  using tm.serve_created(1) [OF assms(1,2)] tm.served_stays [OF assms(1,2,5,6,7)] tp.served_stays [OF assms(3,4,5,6,7)]
    tm.get_own tp.puts_isolated [OF assms(8)] assms(9,10)
  by blast

definition demo_aead :: aead where
  "demo_aead = \<lparr>ae_nonceSize = 1, ae_Seal = (\<lambda>n p aad. p), ae_Open = (\<lambda>n c aad. Some c)\<rparr>"

definition tenant_request :: "string \<Rightarrow> request" where
  "tenant_request t =
     \<lparr>rq_method = ''POST'', rq_url = ''/records'', rq_path = ''/records'', rq_query = [],
      rq_header = [(''X-Tenant-Id'', [t]), (''X-Role'', [''admin''])], rq_remote = [], rq_body = None, rq_bodyLimit = None\<rparr>"

lemmas tenant_demo = tn_serve_def tn_Middleware_def rbac_Extract_def tn_mux_def rbac_Require_def records_handler_def
  tn_FromContext_def tenant_of_def tenant_request_def header_get_def TrimSpace_def is_space_def Authorize_def Can_def rolePermissions_def
  Encrypt_def tm_Put_def tp_Put_def withTenant_def server_write_def Let_def

theorem tenant_isolation_witness:
  "\<exists>x. tm_Get \<lparr>cx_tenant = Some ''a'', cx_role = Some ''admin''\<rparr> ''rec-a''
     (tn_run demo_aead tm_Put [(Some ''n'', tenant_request ''b'')] (snd (tn_serve demo_aead (Some ''n'') tm_Put (tenant_request ''a'') Map.empty))) = Inr x \<and>
     Decrypt demo_aead (tr_Data x) ''a'' = Inr ''sensitive-payload''"
  using tenant_isolation [where a = demo_aead and n = "''n''" and r = "tenant_request ''a''" and m = Map.empty and p = "[]"
      and rqs = "[(Some ''n'', tenant_request ''b'')]" and ws = "[]", OF prod.collapse [symmetric] _ prod.collapse [symmetric] _ _ _ _ _ refl refl]
  by (simp add: tenant_demo demo_aead_def)

text \<open>The repository in memory does not keep writes apart: its map is keyed by the identifier alone, so
  a tenant that writes an identifier of another one takes the record away from it.\<close>

theorem memory_put_takes_record:
  "let a = \<lparr>cx_tenant = Some ''a'', cx_role = None\<rparr>; b = \<lparr>cx_tenant = Some ''b'', cx_role = None\<rparr>;
       s = snd (tm_Put a ''id'' ''x'' Map.empty)
   in tm_Get a ''id'' s = Inr \<lparr>tr_ID = ''id'', tr_TenantID = ''a'', tr_Data = ''x''\<rparr> \<and>
      tm_Get a ''id'' (snd (tm_Put b ''id'' ''y'' s)) = Inl TnNotFound"
  by (simp add: tm_Put_def tm_Get_def tn_FromContext_def Let_def)

text \<open>The method of a request is not looked at.\<close>

lemma serve_any_method: "tn_serve a n put (r\<lparr>rq_method := meth\<rparr>) s = tn_serve a n put r s"
  by (simp add: tn_serve_def tn_Middleware_def rbac_Extract_def tn_mux_def rbac_Require_def records_handler_def Let_def split: option.splits)

end
