(* ===== verification/Visit_Queue.thy ===== *)
theory Visit_Queue
  imports Configs Http
begin

text \<open>
  \<open>ttd/internal/queue\<close>: holds on the places of a time slot, kept in Redis, and the durable record of
  bookings. Each Lua script and each Redis command is one atomic function on the state of Redis; what
  a request does between two of them is a job, and jobs of requests, of the expiry worker and of the
  recovery worker interleave and may be lost at any point. Times are nanoseconds; formatting and
  parsing them in RFC 3339 is taken to be exact. Random identifiers are arguments.
\<close>

section \<open>State\<close>

datatype q_status = StatusHeld | StatusConfirming | StatusConfirmed | StatusExpired

record q_hold =
  qh_ID :: string
  qh_Slot :: string
  qh_VisitorID :: string
  qh_Status :: q_status
  qh_ExpiresAt :: int
  qh_ConfirmedAt :: "int option"

record q_booking =
  qb_ID :: string
  qb_HoldID :: string
  qb_Slot :: string
  qb_VisitorID :: string
  qb_Confirmed :: int

text \<open>The keys of Redis: capacities and used places by slot, holds by identifier, the deadlines and the
  pending confirmations as sorted sets.\<close>

record q_redis =
  qr_capacity :: "string \<rightharpoonup> int"
  qr_used :: "string \<rightharpoonup> int"
  qr_holds :: "(string \<times> q_hold) list"
  qr_timers :: "(string \<times> int) list"
  qr_pending :: "(string \<times> int) list"

datatype q_err = ErrSlotFull | ErrHoldMissing | ErrHoldInactive | QInvalid | QNoCapacity | QNoConfirmTime | QRecordFailed

definition UnixMilli :: "int \<Rightarrow> int" where
  "UnixMilli t = t div 1000000"

section \<open>The scripts\<close>

definition SetCapacity :: "string \<Rightarrow> int \<Rightarrow> q_redis \<Rightarrow> q_err option \<times> q_redis" where
  "SetCapacity slot capacity r =
     (if slot = [] \<or> capacity < 0 then (Some QInvalid, r)
      else (None, r\<lparr>qr_capacity := (qr_capacity r)(slot \<mapsto> capacity)\<rparr>))"

definition lua_create :: "string \<Rightarrow> string \<Rightarrow> string \<Rightarrow> int \<Rightarrow> q_redis \<Rightarrow> int \<times> q_redis" where
  "lua_create i slot visitorID expires r =
     (let capacity = get_or (- 1) (qr_capacity r) slot; used = get_or 0 (qr_used r) slot in
      if capacity < 0 then (- 2, r)
      else if used \<ge> capacity then (0, r)
      else (1, r\<lparr>qr_holds := AList.update i \<lparr>qh_ID = i, qh_Slot = slot, qh_VisitorID = visitorID, qh_Status = StatusHeld,
                    qh_ExpiresAt = expires, qh_ConfirmedAt = None\<rparr> (qr_holds r),
                  qr_used := (qr_used r)(slot \<mapsto> used + 1),
                  qr_timers := AList.update i (UnixMilli expires) (qr_timers r)\<rparr>))"

definition lua_confirm :: "string \<Rightarrow> int \<Rightarrow> int \<Rightarrow> q_redis \<Rightarrow> int \<times> q_redis" where
  "lua_confirm i nowMilli confirmedAt r =
     (case map_of (qr_holds r) i of
        None \<Rightarrow> (0, r)
      | Some h \<Rightarrow>
          if qh_Status h \<noteq> StatusHeld then (0, r)
          else if (case map_of (qr_timers r) i of None \<Rightarrow> 0 | Some t \<Rightarrow> t) \<le> nowMilli then (0, r)
          else (1, r\<lparr>qr_holds := AList.update i (h\<lparr>qh_Status := StatusConfirming, qh_ConfirmedAt := Some confirmedAt\<rparr>) (qr_holds r),
                     qr_timers := AList.delete i (qr_timers r),
                     qr_pending := AList.update i nowMilli (qr_pending r)\<rparr>))"

definition lua_finalize :: "string \<Rightarrow> q_redis \<Rightarrow> int \<times> q_redis" where
  "lua_finalize i r =
     (case map_of (qr_holds r) i of
        None \<Rightarrow> (0, r)
      | Some h \<Rightarrow>
          if qh_Status h \<noteq> StatusConfirming then (0, r)
          else (1, r\<lparr>qr_holds := AList.update i (h\<lparr>qh_Status := StatusConfirmed\<rparr>) (qr_holds r),
                     qr_pending := AList.delete i (qr_pending r)\<rparr>))"

text \<open>The script also starts the clock that removes the hold a day later (\<open>q_evict\<close>).\<close>

definition lua_release :: "string \<Rightarrow> q_redis \<Rightarrow> int \<times> q_redis" where
  "lua_release i r =
     (case map_of (qr_holds r) i of
        None \<Rightarrow> (0, r\<lparr>qr_timers := AList.delete i (qr_timers r)\<rparr>)
      | Some h \<Rightarrow>
          if qh_Status h \<noteq> StatusHeld then (0, r\<lparr>qr_timers := AList.delete i (qr_timers r)\<rparr>)
          else (1, r\<lparr>qr_holds := AList.update i (h\<lparr>qh_Status := StatusExpired\<rparr>) (qr_holds r),
                     qr_used := (qr_used r)(qh_Slot h \<mapsto> get_or 0 (qr_used r) (qh_Slot h) - 1),
                     qr_timers := AList.delete i (qr_timers r)\<rparr>))"

definition q_evict :: "string \<Rightarrow> q_redis \<Rightarrow> q_redis" where
  "q_evict i r =
     (case map_of (qr_holds r) i of
        Some h \<Rightarrow> if qh_Status h = StatusExpired then r\<lparr>qr_holds := AList.delete i (qr_holds r)\<rparr> else r
      | None \<Rightarrow> r)"

section \<open>The service\<close>

definition q_CreateHold :: "string \<Rightarrow> int \<Rightarrow> string \<Rightarrow> string \<Rightarrow> int \<Rightarrow> q_redis \<Rightarrow> (q_err + q_hold) \<times> q_redis" where
  "q_CreateHold i now slot visitorID ttl r =
     (if slot = [] \<or> visitorID = [] \<or> ttl \<le> 0 then (Inl QInvalid, r)
      else
        let expires = now + ttl in
        case lua_create i slot visitorID expires r of
          (value, r') \<Rightarrow>
            if value = 1 then (Inr \<lparr>qh_ID = i, qh_Slot = slot, qh_VisitorID = visitorID, qh_Status = StatusHeld,
                                    qh_ExpiresAt = expires, qh_ConfirmedAt = None\<rparr>, r')
            else if value = 0 then (Inl ErrSlotFull, r')
            else (Inl QNoCapacity, r'))"

definition q_GetHold :: "string \<Rightarrow> q_redis \<Rightarrow> q_err + q_hold" where
  "q_GetHold i r = (case map_of (qr_holds r) i of None \<Rightarrow> Inl ErrHoldMissing | Some h \<Rightarrow> Inr h)"

text \<open>The record of bookings: the lines of the file, and the holds that this process has seen. A call
  writes and syncs its line, writes nothing, or writes it and fails to sync it.\<close>

record q_store =
  qs_log :: "q_booking list"
  qs_seen :: "string set"

datatype q_write = WSynced | WNothing | WUnsynced

datatype q_recorded = Recorded | ErrAlreadyRecorded | RecordFailed

definition q_Record :: "q_write \<Rightarrow> q_booking \<Rightarrow> q_store \<Rightarrow> q_recorded \<times> q_store" where
  "q_Record w b s =
     (if qb_HoldID b \<in> qs_seen s then (ErrAlreadyRecorded, s)
      else case w of
        WNothing \<Rightarrow> (RecordFailed, s)
      | WUnsynced \<Rightarrow> (RecordFailed, s\<lparr>qs_log := qs_log s @ [b]\<rparr>)
      | WSynced \<Rightarrow> (Recorded, s\<lparr>qs_log := qs_log s @ [b], qs_seen := insert (qb_HoldID b) (qs_seen s)\<rparr>))"

definition q_reopen :: "q_booking list \<Rightarrow> q_store" where
  "q_reopen bs = \<lparr>qs_log = bs, qs_seen = qb_HoldID ` set bs\<rparr>"

definition booking_of :: "q_hold \<Rightarrow> int \<Rightarrow> q_booking" where
  "booking_of h ca = \<lparr>qb_ID = ''booking-'' @ qh_ID h, qb_HoldID = qh_ID h, qb_Slot = qh_Slot h,
                      qb_VisitorID = qh_VisitorID h, qb_Confirmed = ca\<rparr>"

text \<open>The first half of \<open>persistAndFinalize\<close> records, the second half finalizes.\<close>

definition q_persist :: "q_write \<Rightarrow> q_hold \<Rightarrow> q_store \<Rightarrow> (q_err + q_booking) \<times> q_store" where
  "q_persist w h s =
     (case qh_ConfirmedAt h of
        None \<Rightarrow> (Inl QNoConfirmTime, s)
      | Some ca \<Rightarrow>
         (case q_Record w (booking_of h ca) s of
            (RecordFailed, s') \<Rightarrow> (Inl QRecordFailed, s')
          | (_, s') \<Rightarrow> (Inr (booking_of h ca), s')))"

definition q_finalize :: "q_hold \<Rightarrow> q_booking \<Rightarrow> q_redis \<Rightarrow> (q_err + q_booking) \<times> q_redis" where
  "q_finalize h b r =
     (if qh_Status h = StatusConfirmed then (Inr b, r)
      else case lua_finalize (qh_ID h) r of (value, r') \<Rightarrow> if value = 1 then (Inr b, r') else (Inl ErrHoldInactive, r'))"

definition persistAndFinalize :: "q_write \<Rightarrow> q_hold \<Rightarrow> q_redis \<times> q_store \<Rightarrow> (q_err + q_booking) \<times> q_redis \<times> q_store" where
  "persistAndFinalize w h st =
     (case st of (r, s) \<Rightarrow>
       (case q_persist w h s of
          (Inl e, s') \<Rightarrow> (Inl e, r, s')
        | (Inr b, s') \<Rightarrow> (case q_finalize h b r of (x, r') \<Rightarrow> (x, r', s'))))"

definition settled :: "q_hold \<Rightarrow> bool" where
  "settled h \<longleftrightarrow> qh_Status h = StatusConfirming \<or> qh_Status h = StatusConfirmed"

text \<open>\<open>t1\<close> is the clock when the hold is read, \<open>t2\<close> the time of confirmation, \<open>t3\<close> the clock sent to
  the script.\<close>

definition q_ConfirmHold :: "q_write \<Rightarrow> int \<Rightarrow> int \<Rightarrow> int \<Rightarrow> string \<Rightarrow> q_redis \<times> q_store \<Rightarrow> (q_err + q_booking) \<times> q_redis \<times> q_store" where
  "q_ConfirmHold w t1 t2 t3 i st =
     (case q_GetHold i (fst st) of
        Inl e \<Rightarrow> (Inl e, st)
      | Inr h \<Rightarrow>
          if settled h then persistAndFinalize w h st
          else if qh_Status h \<noteq> StatusHeld \<or> \<not> qh_ExpiresAt h > t1 then (Inl ErrHoldInactive, st)
          else
            case lua_confirm i (UnixMilli t3) t2 (fst st) of
              (value, r') \<Rightarrow>
                if value \<noteq> 1
                then (case q_GetHold i r' of
                        Inl e \<Rightarrow> (Inl e, r', snd st)
                      | Inr latest \<Rightarrow>
                          if settled latest then persistAndFinalize w latest (r', snd st) else (Inl ErrHoldInactive, r', snd st))
                else persistAndFinalize w (h\<lparr>qh_Status := StatusConfirming, qh_ConfirmedAt := Some t2\<rparr>) (r', snd st))"

definition due_holds :: "int \<Rightarrow> q_redis \<Rightarrow> string list" where
  "due_holds nowMilli r = map fst (sort_key snd (filter (\<lambda>(i, t). t \<le> nowMilli) (qr_timers r)))"

definition ReleaseExpiredHolds :: "int \<Rightarrow> q_redis \<Rightarrow> nat \<times> q_redis" where
  "ReleaseExpiredHolds now r =
     fold (\<lambda>i (n, r). case lua_release i r of (v, r') \<Rightarrow> (if v = 1 then Suc n else n, r')) (due_holds (UnixMilli now) r) (0, r)"

definition pending_holds :: "q_redis \<Rightarrow> string list" where
  "pending_holds r = take 100 (map fst (sort_key snd (qr_pending r)))"

definition RecoverPendingConfirmations :: "q_write \<Rightarrow> q_redis \<times> q_store \<Rightarrow> q_redis \<times> q_store" where
  "RecoverPendingConfirmations w st =
     fold (\<lambda>i st. case q_GetHold i (fst st) of
            Inl _ \<Rightarrow> st
          | Inr h \<Rightarrow> if qh_Status h = StatusConfirming then snd (persistAndFinalize w h st) else st) (pending_holds (fst st)) st"

text \<open>One tick of \<open>StartExpiryWorker\<close>.\<close>

definition expiry_tick :: "q_write \<Rightarrow> int \<Rightarrow> q_redis \<times> q_store \<Rightarrow> q_redis \<times> q_store" where
  "expiry_tick w now st =
     (case RecoverPendingConfirmations w st of (r, s) \<Rightarrow> (snd (ReleaseExpiredHolds now r), s))"

section \<open>Handlers\<close>

datatype q_body = QError string string | QHold q_hold | QBooking q_booking | QEmpty

definition q_err_text :: "q_err \<Rightarrow> string" where
  "q_err_text e = (case e of
       ErrSlotFull \<Rightarrow> ''slot is full''
     | ErrHoldMissing \<Rightarrow> ''hold does not exist''
     | ErrHoldInactive \<Rightarrow> ''hold is no longer active''
     | QInvalid \<Rightarrow> ''slot, visitor_id, and a positive hold duration are required''
     | QNoCapacity \<Rightarrow> ''slot capacity has not been configured''
     | QNoConfirmTime \<Rightarrow> ''confirming hold has no confirmation time''
     | QRecordFailed \<Rightarrow> ''write failed'')"

definition q_writeError :: "int \<Rightarrow> string \<Rightarrow> int \<times> q_body" where
  "q_writeError status message = (status, QError (TrimSpace message) (itoa status))"

text \<open>The body is \<open>None\<close> if it does not decode.\<close>

definition put_capacity :: "string \<Rightarrow> int option \<Rightarrow> q_redis \<Rightarrow> (int \<times> q_body) \<times> q_redis" where
  "put_capacity slot body r =
     (case body of
        None \<Rightarrow> (q_writeError 400 ''invalid JSON'', r)
      | Some capacity \<Rightarrow>
         (case SetCapacity slot capacity r of
            (Some _, r') \<Rightarrow> (q_writeError 400 ''slot and a non-negative capacity are required'', r')
          | (None, r') \<Rightarrow> ((204, QEmpty), r')))"

text \<open>The duration is a product of 64-bit integers.\<close>

definition post_hold :: "string \<Rightarrow> int \<Rightarrow> (string \<times> string \<times> i64) option \<Rightarrow> q_redis \<Rightarrow> (int \<times> q_body) \<times> q_redis" where
  "post_hold i now body r =
     (case body of
        None \<Rightarrow> (q_writeError 400 ''invalid JSON'', r)
      | Some (slot, visitorID, holdSeconds) \<Rightarrow>
         (case q_CreateHold i now slot visitorID (sint (holdSeconds * 1000000000)) r of
            (Inl e, r') \<Rightarrow> (q_writeError (if e = ErrSlotFull then 409 else 400) (q_err_text e), r')
          | (Inr h, r') \<Rightarrow> ((201, QHold h), r')))"

definition get_hold :: "string \<Rightarrow> q_redis \<Rightarrow> int \<times> q_body" where
  "get_hold i r =
     (case q_GetHold i r of
        Inl e \<Rightarrow> q_writeError (if e = ErrHoldMissing then 404 else 500) (q_err_text e)
      | Inr h \<Rightarrow> (200, QHold h))"

definition post_confirm :: "q_write \<Rightarrow> int \<Rightarrow> int \<Rightarrow> int \<Rightarrow> string \<Rightarrow> q_redis \<times> q_store \<Rightarrow> (int \<times> q_body) \<times> q_redis \<times> q_store" where
  "post_confirm w t1 t2 t3 i st =
     (case q_ConfirmHold w t1 t2 t3 i st of
        (Inl e, st') \<Rightarrow> (q_writeError (if e = ErrHoldInactive \<or> e = ErrHoldMissing then 409 else 500) (q_err_text e), st')
      | (Inr b, st') \<Rightarrow> ((201, QBooking b), st'))"

section \<open>The Redis protocol\<close>

datatype resp = RSimple string | RInt i64 | RBulk string | RNil | RArray "resp list"

datatype resp_err = REof | RServer string | RNumber | RBulkLength string | RArrayLength string | RPrefix char

definition crlf :: string where "crlf = [CHR 0x0D, CHR 0x0A]"

definition redis_command :: "string list \<Rightarrow> string" where
  "redis_command parts =
     ''*'' @ itoa (int (length parts)) @ crlf @ concat (map (\<lambda>p. ''$'' @ itoa (int (length p)) @ crlf @ p @ crlf) parts)"

definition trim_suffix :: "char \<Rightarrow> string \<Rightarrow> string" where
  "trim_suffix c s = (if s \<noteq> [] \<and> last s = c then butlast s else s)"

text \<open>\<open>ReadString\<close> up to a newline, without its line end, and what follows.\<close>

definition read_line :: "string \<Rightarrow> (string \<times> string) option" where
  "read_line s = (case index_of (CHR 0x0A) s of None \<Rightarrow> None | Some k \<Rightarrow> Some (trim_suffix (CHR 0x0D) (take k s), drop (Suc k) s))"

text \<open>The replies nest, so both functions take fuel; \<open>None\<close> is fuel that ran out. Replies longer than
  memory are not modelled.\<close>

fun readRESP :: "nat \<Rightarrow> string \<Rightarrow> ((resp_err + resp) \<times> string) option"
and read_array :: "nat \<Rightarrow> nat \<Rightarrow> string \<Rightarrow> ((resp_err + resp list) \<times> string) option" where
  "readRESP 0 s = None"
| "readRESP (Suc n) [] = Some (Inl REof, [])"
| "readRESP (Suc n) (prefix # s) =
     (case read_line s of
        None \<Rightarrow> Some (Inl REof, [])
      | Some (line, rest) \<Rightarrow>
          if prefix = CHR ''+'' then Some (Inr (RSimple line), rest)
          else if prefix = CHR ''-'' then Some (Inl (RServer line), rest)
          else if prefix = CHR '':'' then Some (case parse_int64 line of None \<Rightarrow> Inl RNumber | Some v \<Rightarrow> Inr (RInt v), rest)
          else if prefix = CHR ''$'' then
            (case Atoi line of
               None \<Rightarrow> Some (Inl (RBulkLength line), rest)
             | Some len \<Rightarrow>
                 if len < - 1 then Some (Inl (RBulkLength line), rest)
                 else if len = - 1 then Some (Inr RNil, rest)
                 else if length rest < nat len + 2 then Some (Inl REof, [])
                 else Some (Inr (RBulk (take (nat len) rest)), drop (nat len + 2) rest))
          else if prefix = CHR ''*'' then
            (case Atoi line of
               None \<Rightarrow> Some (Inl (RArrayLength line), rest)
             | Some len \<Rightarrow>
                 if len < - 1 then Some (Inl (RArrayLength line), rest)
                 else if len = - 1 then Some (Inr RNil, rest)
                 else (case read_array n (nat len) rest of
                     None \<Rightarrow> None
                   | Some (Inl e, rest') \<Rightarrow> Some (Inl e, rest')
                   | Some (Inr vs, rest') \<Rightarrow> Some (Inr (RArray vs), rest')))
          else Some (Inl (RPrefix prefix), rest))"
| "read_array 0 k s = None"
| "read_array (Suc n) 0 s = Some (Inr [], s)"
| "read_array (Suc n) (Suc k) s =
     (case readRESP n s of
        None \<Rightarrow> None
      | Some (Inl e, rest) \<Rightarrow> Some (Inl e, rest)
      | Some (Inr v, rest) \<Rightarrow>
         (case read_array n k rest of
            None \<Rightarrow> None
          | Some (Inl e, rest') \<Rightarrow> Some (Inl e, rest')
          | Some (Inr vs, rest') \<Rightarrow> Some (Inr (v # vs), rest')))"

section \<open>Interleaving\<close>

text \<open>What a process still has to do. \<open>JRelease\<close> is one identifier of the expiry worker's snapshot.\<close>

datatype q_job =
  JConfirm q_hold
| JReread string
| JPersist q_hold
| JFinalize q_hold q_booking
| JRelease string

record q_sys =
  qy_redis :: q_redis
  qy_store :: q_store
  qy_jobs :: "q_job list"

fun job_id :: "q_job \<Rightarrow> string" where
  "job_id (JConfirm h) = qh_ID h"
| "job_id (JReread i) = i"
| "job_id (JPersist h) = qh_ID h"
| "job_id (JFinalize h b) = qh_ID h"
| "job_id (JRelease i) = i"

text \<open>The 128 random bits of \<open>randomID\<close> differ from every identifier in use.\<close>

definition fresh_id :: "string \<Rightarrow> q_sys \<Rightarrow> bool" where
  "fresh_id i y \<longleftrightarrow> map_of (qr_holds (qy_redis y)) i = None \<and> (\<forall>j \<in> set (qy_jobs y). job_id j \<noteq> i)"

text \<open>\<open>C\<close> bounds the capacities that are ever configured.\<close>

inductive q_step :: "(string \<Rightarrow> int) \<Rightarrow> q_sys \<Rightarrow> q_sys \<Rightarrow> bool" for C where
  q_capacity: "c \<le> C slot \<Longrightarrow> q_step C y (y\<lparr>qy_redis := snd (SetCapacity slot c (qy_redis y))\<rparr>)"
| q_create: "fresh_id i y \<Longrightarrow>
    q_step C y (y\<lparr>qy_redis := snd (q_CreateHold i now slot v ttl (qy_redis y))\<rparr>)"
| q_read: "q_GetHold i (qy_redis y) = Inr h \<Longrightarrow>
    q_step C y (y\<lparr>qy_jobs := (if settled h then JPersist h else JConfirm h) # qy_jobs y\<rparr>)"
| q_confirm: "qy_jobs y = xs @ JConfirm h # ys \<Longrightarrow> qh_Status h = StatusHeld \<Longrightarrow>
    lua_confirm (qh_ID h) mil ca (qy_redis y) = (v, r) \<Longrightarrow>
    q_step C y (y\<lparr>qy_redis := r, qy_jobs := xs @
      (if v = 1 then JPersist (h\<lparr>qh_Status := StatusConfirming, qh_ConfirmedAt := Some ca\<rparr>) else JReread (qh_ID h)) # ys\<rparr>)"
| q_reread: "qy_jobs y = xs @ JReread i # ys \<Longrightarrow> q_GetHold i (qy_redis y) = Inr h \<Longrightarrow> settled h \<Longrightarrow>
    q_step C y (y\<lparr>qy_jobs := xs @ JPersist h # ys\<rparr>)"
| q_persist: "qy_jobs y = xs @ JPersist h # ys \<Longrightarrow> q_persist w h (qy_store y) = (x, s) \<Longrightarrow>
    q_step C y (y\<lparr>qy_store := s, qy_jobs := xs @ (case x of Inl _ \<Rightarrow> [] | Inr b \<Rightarrow> [JFinalize h b]) @ ys\<rparr>)"
| q_finalize: "qy_jobs y = xs @ JFinalize h b # ys \<Longrightarrow>
    q_step C y (y\<lparr>qy_redis := snd (q_finalize h b (qy_redis y)), qy_jobs := xs @ ys\<rparr>)"
| q_expire: "i \<in> set (due_holds mil (qy_redis y)) \<Longrightarrow> q_step C y (y\<lparr>qy_jobs := JRelease i # qy_jobs y\<rparr>)"
| q_release: "qy_jobs y = xs @ JRelease i # ys \<Longrightarrow>
    q_step C y (y\<lparr>qy_redis := snd (lua_release i (qy_redis y)), qy_jobs := xs @ ys\<rparr>)"
| q_gone: "q_step C y (y\<lparr>qy_redis := q_evict i (qy_redis y)\<rparr>)"
| q_crash: "qy_jobs y = xs @ j # ys \<Longrightarrow> q_step C y (y\<lparr>qy_jobs := xs @ ys\<rparr>)"
| q_restart: "q_step C y (y\<lparr>qy_store := q_reopen (qs_log (qy_store y)), qy_jobs := []\<rparr>)"

definition q_init :: q_sys where
  "q_init = \<lparr>qy_redis = \<lparr>qr_capacity = Map.empty, qr_used = Map.empty, qr_holds = [], qr_timers = [], qr_pending = []\<rparr>,
             qy_store = \<lparr>qs_log = [], qs_seen = {}\<rparr>, qy_jobs = []\<rparr>"

section \<open>Invariant\<close>

definition takes :: "string \<Rightarrow> string \<times> q_hold \<Rightarrow> bool" where
  "takes slot p \<longleftrightarrow> qh_Slot (snd p) = slot \<and> qh_Status (snd p) \<noteq> StatusExpired"

definition places :: "string \<Rightarrow> q_redis \<Rightarrow> int" where
  "places slot r = int (length (filter (takes slot) (qr_holds r)))"

definition hold_ok :: "string \<Rightarrow> q_hold \<Rightarrow> bool" where
  "hold_ok i h \<longleftrightarrow> qh_ID h = i \<and> (settled h \<longrightarrow> qh_ConfirmedAt h \<noteq> None)"

definition redis_ok :: "(string \<Rightarrow> int) \<Rightarrow> q_redis \<Rightarrow> bool" where
  "redis_ok C r \<longleftrightarrow> distinct (map fst (qr_holds r)) \<and>
     (\<forall>i h. map_of (qr_holds r) i = Some h \<longrightarrow> hold_ok i h) \<and>
     (\<forall>slot. get_or 0 (qr_used r) slot = places slot r) \<and>
     (\<forall>slot. places slot r \<le> max 0 (C slot)) \<and>
     (\<forall>slot c. qr_capacity r slot = Some c \<longrightarrow> c \<le> C slot)"

text \<open>The part of a hold that never changes once it is being confirmed.\<close>

definition alike :: "q_hold \<Rightarrow> q_hold \<Rightarrow> bool" where
  "alike h h' \<longleftrightarrow> qh_ID h = qh_ID h' \<and> qh_Slot h = qh_Slot h' \<and> qh_VisitorID h = qh_VisitorID h'"

definition backed :: "q_hold \<Rightarrow> q_redis \<Rightarrow> bool" where
  "backed h r \<longleftrightarrow> (\<exists>h'. map_of (qr_holds r) (qh_ID h) = Some h' \<and> settled h' \<and> alike h h' \<and> qh_ConfirmedAt h' = qh_ConfirmedAt h)"

definition booked :: "q_booking \<Rightarrow> q_redis \<Rightarrow> bool" where
  "booked b r \<longleftrightarrow> (\<exists>h ca. backed h r \<and> qh_ConfirmedAt h = Some ca \<and> b = booking_of h ca)"

definition keeps :: "q_redis \<Rightarrow> q_redis \<Rightarrow> bool" where
  "keeps r r' \<longleftrightarrow> (\<forall>h. backed h r \<longrightarrow> backed h r')"

fun job_ok :: "q_redis \<Rightarrow> q_job \<Rightarrow> bool" where
  "job_ok r (JPersist h) = backed h r"
| "job_ok r (JFinalize h b) = booked b r"
| "job_ok r (JConfirm h) = (\<forall>h'. map_of (qr_holds r) (qh_ID h) = Some h' \<longrightarrow> alike h h')"
| "job_ok r _ = True"

definition q_ok :: "(string \<Rightarrow> int) \<Rightarrow> q_sys \<Rightarrow> bool" where
  "q_ok C y \<longleftrightarrow> redis_ok C (qy_redis y) \<and> (\<forall>j \<in> set (qy_jobs y). job_ok (qy_redis y) j) \<and>
     (\<forall>b \<in> set (qs_log (qy_store y)). booked b (qy_redis y))"

subsection \<open>Counting places\<close>

lemma count_update:
  "distinct (map fst xs) \<Longrightarrow> int (length (filter P (AList.update i h xs))) =
     int (length (filter P xs)) + (if P (i, h) then 1 else 0) -
     (case map_of xs i of Some h0 \<Rightarrow> if P (i, h0) then 1 else 0 | None \<Rightarrow> 0)"
  by (induction xs) (auto split: option.splits dest: map_of_SomeD)

lemma count_delete:
  "distinct (map fst xs) \<Longrightarrow> int (length (filter P (AList.delete i xs))) =
     int (length (filter P xs)) - (case map_of xs i of Some h0 \<Rightarrow> if P (i, h0) then 1 else 0 | None \<Rightarrow> 0)"
proof (induction xs)
  case (Cons x xs)
  have "AList.delete i xs = xs" if "i \<notin> fst ` set xs" using that by (simp add: delete_id)
  moreover have "map_of xs i = None" if "i \<notin> fst ` set xs" using that by (simp add: map_of_eq_None_iff)
  ultimately show ?case using Cons by (auto simp: AList.delete_eq split: option.splits)
qed simp

subsection \<open>Every step of Redis\<close>

lemma backed_update:
  assumes "backed h r" "qr_holds r' = AList.update i x (qr_holds r)"
    "\<And>h'. map_of (qr_holds r) i = Some h' \<Longrightarrow> settled h' \<Longrightarrow> settled x \<and> alike h' x \<and> qh_ConfirmedAt x = qh_ConfirmedAt h'"
  shows "backed h r'"
proof -
  obtain h' where h': "map_of (qr_holds r) (qh_ID h) = Some h'" "settled h'" "alike h h'" "qh_ConfirmedAt h' = qh_ConfirmedAt h"
    using assms(1) unfolding backed_def by blast
  show ?thesis
  proof (cases "i = qh_ID h")
    case True
    have x: "settled x" "alike h' x" "qh_ConfirmedAt x = qh_ConfirmedAt h'" using assms(3) [of h'] h' True by simp_all
    have "alike h x" using h'(3) x(2) by (simp add: alike_def)
    then show ?thesis using x h'(4) True by (simp add: backed_def assms(2) update_conv')
  next
    case False
    then show ?thesis using h' by (simp add: backed_def assms(2) update_conv')
  qed
qed

lemma keeps_same: "qr_holds r' = qr_holds r \<Longrightarrow> keeps r r'"
  by (simp add: keeps_def backed_def)

lemma booked_keeps: "booked b r \<Longrightarrow> keeps r r' \<Longrightarrow> booked b r'"
  by (auto simp: booked_def keeps_def)

lemma capacity_ok:
  assumes "redis_ok C r" "c \<le> C slot"
  shows "redis_ok C (snd (SetCapacity slot c r)) \<and> keeps r (snd (SetCapacity slot c r)) \<and>
    qr_holds (snd (SetCapacity slot c r)) = qr_holds r"
  using assms by (auto simp: SetCapacity_def redis_ok_def places_def keeps_same)

text \<open>Replacing one hold: the places of a slot change by what the old and the new hold take.\<close>

lemma redis_ok_update:
  assumes "redis_ok C r" "hold_ok i x" "qr_holds r' = AList.update i x (qr_holds r)" "qr_capacity r' = qr_capacity r"
    "\<And>slot. get_or 0 (qr_used r') slot = get_or 0 (qr_used r) slot + (if takes slot (i, x) then 1 else 0) -
       (case map_of (qr_holds r) i of Some h \<Rightarrow> if takes slot (i, h) then 1 else 0 | None \<Rightarrow> 0)"
    "\<And>slot. get_or 0 (qr_used r') slot \<le> max 0 (C slot)"
  shows "redis_ok C r'"
proof -
  have d: "distinct (map fst (qr_holds r))" using assms(1) by (simp add: redis_ok_def)
  have p: "get_or 0 (qr_used r') slot = places slot r'" for slot
    using count_update [OF d, of "takes slot" i x] assms(1) assms(5) [of slot] by (simp add: redis_ok_def places_def assms(3))
  have h: "hold_ok j h" if "map_of (qr_holds r') j = Some h" for j h
    using that assms(1,2) by (auto simp: assms(3) update_conv' redis_ok_def split: if_splits)
  have "distinct (map fst (qr_holds r'))" using d by (simp add: assms(3) distinct_update)
  then show ?thesis using p h assms(1,4) assms(6) unfolding redis_ok_def by (metis (no_types))
qed

lemma get_or_upd_eq: "get_or d (m(k \<mapsto> v)) k' = (if k' = k then v else get_or d m k')"
  by (simp add: get_or_def)

lemma lua_create_ok:
  assumes "redis_ok C r" "map_of (qr_holds r) i = None"
  shows "redis_ok C (snd (lua_create i slot v ex r)) \<and> keeps r (snd (lua_create i slot v ex r))"
proof (cases "get_or (- 1) (qr_capacity r) slot < 0 \<or> get_or 0 (qr_used r) slot \<ge> get_or (- 1) (qr_capacity r) slot")
  case True
  then show ?thesis using assms by (auto simp: lua_create_def Let_def keeps_same)
next
  case False
  let ?x = "\<lparr>qh_ID = i, qh_Slot = slot, qh_VisitorID = v, qh_Status = StatusHeld, qh_ExpiresAt = ex, qh_ConfirmedAt = None\<rparr>"
  let ?r = "snd (lua_create i slot v ex r)"
  have r: "qr_holds ?r = AList.update i ?x (qr_holds r)" "qr_capacity ?r = qr_capacity r"
    "qr_used ?r = (qr_used r)(slot \<mapsto> get_or 0 (qr_used r) slot + 1)"
    using False by (simp_all add: lua_create_def Let_def)
  obtain c where c: "qr_capacity r slot = Some c" "get_or 0 (qr_used r) slot < c"
    using False by (auto simp: get_or_def split: option.splits)
  then have "get_or 0 (qr_used r) slot + 1 \<le> C slot" using assms(1) unfolding redis_ok_def by fastforce
  moreover have "get_or 0 (qr_used r) s \<le> max 0 (C s)" for s using assms(1) by (simp add: redis_ok_def)
  ultimately have b: "get_or 0 (qr_used ?r) s \<le> max 0 (C s)" for s by (cases "s = slot") (simp_all add: r(3) get_or_upd_eq max_def)
  have "redis_ok C ?r"
    by (rule redis_ok_update [OF assms(1) _ r(1,2) _ b])
      (auto simp: hold_ok_def settled_def r(3) get_or_upd_eq takes_def assms(2))
  moreover have "keeps r ?r" unfolding keeps_def using backed_update [OF _ r(1)] assms(2) by simp
  ultimately show ?thesis by simp
qed

lemma lua_confirm_ok:
  assumes "redis_ok C r" "lua_confirm i mil ca r = (v, r')"
  shows "redis_ok C r' \<and> keeps r r'"
    and "v = 1 \<Longrightarrow> \<exists>h. map_of (qr_holds r) i = Some h \<and> qh_Status h = StatusHeld \<and>
      qr_holds r' = AList.update i (h\<lparr>qh_Status := StatusConfirming, qh_ConfirmedAt := Some ca\<rparr>) (qr_holds r)"
    and "v \<noteq> 1 \<Longrightarrow> r' = r"
proof -
  consider "r' = r" "v = 0" | h where "map_of (qr_holds r) i = Some h" "qh_Status h = StatusHeld" "v = 1"
      "qr_holds r' = AList.update i (h\<lparr>qh_Status := StatusConfirming, qh_ConfirmedAt := Some ca\<rparr>) (qr_holds r)"
      "qr_used r' = qr_used r" "qr_capacity r' = qr_capacity r"
    using assms(2) unfolding lua_confirm_def by (auto split: option.splits if_splits)
  note cs = this
  show "redis_ok C r' \<and> keeps r r'"
  proof (cases rule: cs)
    case 1
    then show ?thesis using assms(1) by (simp add: keeps_same)
  next
    case (2 h)
    have hk: "hold_ok i h" using 2(1) assms(1) by (simp add: redis_ok_def)
    have b: "get_or 0 (qr_used r') s \<le> max 0 (C s)" for s using assms(1) 2(5) by (simp add: redis_ok_def)
    have "redis_ok C r'"
      by (rule redis_ok_update [OF assms(1) _ 2(4,6) _ b]) (use hk 2 in \<open>auto simp: hold_ok_def takes_def\<close>)
    moreover have "keeps r r'" unfolding keeps_def using backed_update [OF _ 2(4)] 2(1,2) by (simp add: settled_def)
    ultimately show ?thesis by simp
  qed
  show "v = 1 \<Longrightarrow> \<exists>h. map_of (qr_holds r) i = Some h \<and> qh_Status h = StatusHeld \<and>
      qr_holds r' = AList.update i (h\<lparr>qh_Status := StatusConfirming, qh_ConfirmedAt := Some ca\<rparr>) (qr_holds r)"
    by (cases rule: cs) auto
  show "v \<noteq> 1 \<Longrightarrow> r' = r" by (cases rule: cs) auto
qed

lemma lua_finalize_ok:
  assumes "redis_ok C r"
  shows "redis_ok C (snd (lua_finalize i r)) \<and> keeps r (snd (lua_finalize i r))"
proof (cases "\<exists>h. map_of (qr_holds r) i = Some h \<and> qh_Status h = StatusConfirming")
  case True
  then obtain h where h: "map_of (qr_holds r) i = Some h" "qh_Status h = StatusConfirming" by blast
  let ?r = "snd (lua_finalize i r)"
  have r: "qr_holds ?r = AList.update i (h\<lparr>qh_Status := StatusConfirmed\<rparr>) (qr_holds r)" "qr_capacity ?r = qr_capacity r" "qr_used ?r = qr_used r"
    using h by (simp_all add: lua_finalize_def)
  have hk: "hold_ok i h" using h(1) assms by (simp add: redis_ok_def)
  have b: "get_or 0 (qr_used ?r) s \<le> max 0 (C s)" for s using assms r(3) by (simp add: redis_ok_def)
  have "redis_ok C ?r"
    by (rule redis_ok_update [OF assms _ r(1,2) _ b]) (use hk h r(3) in \<open>auto simp: hold_ok_def takes_def settled_def\<close>)
  moreover have "keeps r ?r" unfolding keeps_def using backed_update [OF _ r(1)] h by (simp add: settled_def alike_def)
  ultimately show ?thesis by simp
next
  case False
  then have "snd (lua_finalize i r) = r" by (auto simp: lua_finalize_def split: option.splits)
  then show ?thesis using assms by (simp add: keeps_same)
qed

lemma lua_release_ok:
  assumes "redis_ok C r"
  shows "redis_ok C (snd (lua_release i r)) \<and> keeps r (snd (lua_release i r))"
proof (cases "\<exists>h. map_of (qr_holds r) i = Some h \<and> qh_Status h = StatusHeld")
  case True
  then obtain h where h: "map_of (qr_holds r) i = Some h" "qh_Status h = StatusHeld" by blast
  let ?r = "snd (lua_release i r)"
  have r: "qr_holds ?r = AList.update i (h\<lparr>qh_Status := StatusExpired\<rparr>) (qr_holds r)" "qr_capacity ?r = qr_capacity r"
    "qr_used ?r = (qr_used r)(qh_Slot h \<mapsto> get_or 0 (qr_used r) (qh_Slot h) - 1)"
    using h by (simp_all add: lua_release_def)
  have hk: "hold_ok i h" using h(1) assms by (simp add: redis_ok_def)
  have u: "get_or 0 (qr_used r) s \<le> max 0 (C s)" for s using assms by (simp add: redis_ok_def)
  have b: "get_or 0 (qr_used ?r) s \<le> max 0 (C s)" for s using u [of s] by (auto simp: r(3) get_or_upd_eq)
  have "redis_ok C ?r"
    by (rule redis_ok_update [OF assms _ r(1,2) _ b])
      (use hk h in \<open>auto simp: hold_ok_def takes_def settled_def r(3) get_or_upd_eq\<close>)
  moreover have "keeps r ?r" unfolding keeps_def using backed_update [OF _ r(1)] h by (simp add: settled_def)
  ultimately show ?thesis by simp
next
  case False
  then have "snd (lua_release i r) = r\<lparr>qr_timers := AList.delete i (qr_timers r)\<rparr>"
    by (auto simp: lua_release_def split: option.splits)
  then show ?thesis using assms by (simp add: keeps_same redis_ok_def places_def)
qed

lemma evict_ok:
  assumes "redis_ok C r"
  shows "redis_ok C (q_evict i r) \<and> keeps r (q_evict i r)"
proof (cases "\<exists>h. map_of (qr_holds r) i = Some h \<and> qh_Status h = StatusExpired")
  case True
  then obtain h where h: "map_of (qr_holds r) i = Some h" "qh_Status h = StatusExpired" by blast
  have e: "q_evict i r = r\<lparr>qr_holds := AList.delete i (qr_holds r)\<rparr>" using h by (simp add: q_evict_def)
  have d: "distinct (map fst (qr_holds r))" using assms by (simp add: redis_ok_def)
  have "places s (q_evict i r) = places s r" for s
    using count_delete [OF d, of "takes s" i] h by (simp add: places_def e takes_def)
  then have "redis_ok C (q_evict i r)" using assms d by (auto simp: redis_ok_def e distinct_delete delete_conv' split: if_splits)
  moreover have "backed x (q_evict i r)" if x: "backed x r" for x
  proof -
    have "qh_ID x \<noteq> i" using x h by (auto simp: backed_def settled_def)
    then show ?thesis using x by (simp add: backed_def e delete_conv')
  qed
  ultimately show ?thesis by (simp add: keeps_def)
next
  case False
  then have "q_evict i r = r" by (auto simp: q_evict_def split: option.splits)
  then show ?thesis using assms by (simp add: keeps_same)
qed

text \<open>No step of Redis changes whose a hold is: only a fresh identifier gets a new hold.\<close>

definition owns_same :: "q_redis \<Rightarrow> q_redis \<Rightarrow> bool" where
  "owns_same r r' \<longleftrightarrow> (\<forall>i h'. map_of (qr_holds r') i = Some h' \<longrightarrow> (\<exists>h. map_of (qr_holds r) i = Some h \<and> alike h h'))"

lemma alike_refl [simp]: "alike h h" by (simp add: alike_def)

lemma owns_confirm: "lua_confirm i mil ca r = (v, r') \<Longrightarrow> owns_same r r'"
  unfolding lua_confirm_def owns_same_def
  by (auto simp: update_conv' alike_def split: option.splits if_splits)

lemma owns_finalize: "owns_same r (snd (lua_finalize i r))"
  unfolding lua_finalize_def owns_same_def by (auto simp: update_conv' alike_def split: option.splits if_splits)

lemma owns_release: "owns_same r (snd (lua_release i r))"
  unfolding lua_release_def owns_same_def by (auto simp: update_conv' alike_def split: option.splits if_splits)

lemma owns_evict: "owns_same r (q_evict i r)"
  unfolding q_evict_def owns_same_def by (auto simp: delete_conv' split: option.splits if_splits)

lemma owns_holds: "qr_holds r' = qr_holds r \<Longrightarrow> owns_same r r'"
  by (simp add: owns_same_def)

lemma job_ok_step:
  assumes "job_ok r j" "keeps r r'" "owns_same r r'"
  shows "job_ok r' j"
proof (cases j)
  case (JConfirm h)
  have "alike h h'" if h': "map_of (qr_holds r') (qh_ID h) = Some h'" for h'
  proof -
    obtain h0 where "map_of (qr_holds r) (qh_ID h) = Some h0" "alike h0 h'" using assms(3) h' unfolding owns_same_def by blast
    then show ?thesis using assms(1) JConfirm by (simp add: alike_def)
  qed
  then show ?thesis using JConfirm by simp
qed (use assms in \<open>auto simp: keeps_def intro: booked_keeps\<close>)

lemma q_ok_redis:
  assumes "q_ok C y" "redis_ok C r'" "keeps (qy_redis y) r'" "owns_same (qy_redis y) r'"
    "\<And>j. j \<in> set js \<Longrightarrow> j \<in> set (qy_jobs y) \<or> job_ok r' j"
  shows "q_ok C (y\<lparr>qy_redis := r', qy_jobs := js\<rparr>)"
  using assms job_ok_step [OF _ assms(3,4)] booked_keeps [OF _ assms(3)] by (auto simp: q_ok_def)

lemma create_step_ok:
  assumes "q_ok C y" "fresh_id i y"
  shows "q_ok C (y\<lparr>qy_redis := snd (q_CreateHold i now slot v ttl (qy_redis y))\<rparr>)"
proof -
  let ?r = "snd (q_CreateHold i now slot v ttl (qy_redis y))"
  have r: "?r = qy_redis y \<or> ?r = snd (lua_create i slot v (now + ttl) (qy_redis y))"
    by (simp add: q_CreateHold_def Let_def split: prod.splits)
  have i: "map_of (qr_holds (qy_redis y)) i = None" "\<forall>j \<in> set (qy_jobs y). job_id j \<noteq> i" using assms(2) by (simp_all add: fresh_id_def)
  have ok: "redis_ok C (qy_redis y)" using assms(1) by (simp add: q_ok_def)
  have rk: "redis_ok C ?r \<and> keeps (qy_redis y) ?r"
    using r lua_create_ok [OF ok i(1), of slot v "now + ttl"] ok by (metis keeps_same)
  have other: "map_of (qr_holds ?r) k = map_of (qr_holds (qy_redis y)) k" if "k \<noteq> i" for k
    using r that by (auto simp: lua_create_def Let_def update_conv')
  have "job_ok ?r j" if j: "j \<in> set (qy_jobs y)" for j
  proof (cases j)
    case (JConfirm h)
    then show ?thesis using j i(2) assms(1) other [of "qh_ID h"] by (force simp: q_ok_def)
  qed (use j assms(1) rk in \<open>force simp: q_ok_def keeps_def intro: booked_keeps\<close>)+
  then show ?thesis using rk assms(1) booked_keeps by (auto simp: q_ok_def)
qed

lemma backed_self:
  "redis_ok C r \<Longrightarrow> map_of (qr_holds r) i = Some h \<Longrightarrow> settled h \<Longrightarrow> backed h r"
  by (auto simp: redis_ok_def hold_ok_def backed_def)

lemma confirm_step_ok:
  assumes "q_ok C y" "qy_jobs y = xs @ JConfirm h # ys" "lua_confirm (qh_ID h) mil ca (qy_redis y) = (v, r)"
  shows "q_ok C (y\<lparr>qy_redis := r, qy_jobs := xs @
      (if v = 1 then JPersist (h\<lparr>qh_Status := StatusConfirming, qh_ConfirmedAt := Some ca\<rparr>) else JReread (qh_ID h)) # ys\<rparr>)"
proof -
  have ok: "redis_ok C (qy_redis y)" using assms(1) by (simp add: q_ok_def)
  note c = lua_confirm_ok [OF ok assms(3)]
  have "backed (h\<lparr>qh_Status := StatusConfirming, qh_ConfirmedAt := Some ca\<rparr>) r" if "v = 1"
  proof -
    obtain h' where h': "map_of (qr_holds (qy_redis y)) (qh_ID h) = Some h'"
      "qr_holds r = AList.update (qh_ID h) (h'\<lparr>qh_Status := StatusConfirming, qh_ConfirmedAt := Some ca\<rparr>) (qr_holds (qy_redis y))"
      using c(2) [OF \<open>v = 1\<close>] by blast
    have "alike h h'" using assms(1,2) h'(1) by (simp add: q_ok_def)
    then show ?thesis by (simp add: backed_def h'(2) update_conv' settled_def alike_def)
  qed
  then show ?thesis
    using c(1) owns_confirm [OF assms(3)] assms(2) by (intro q_ok_redis [OF assms(1)]) auto
qed

lemma persist_step_ok:
  assumes "q_ok C y" "qy_jobs y = xs @ JPersist h # ys" "q_persist w h (qy_store y) = (x, s)"
  shows "q_ok C (y\<lparr>qy_store := s, qy_jobs := xs @ (case x of Inl _ \<Rightarrow> [] | Inr b \<Rightarrow> [JFinalize h b]) @ ys\<rparr>)"
proof -
  have b: "backed h (qy_redis y)" using assms(1,2) by (simp add: q_ok_def)
  then have bk: "booked (booking_of h ca) (qy_redis y)" if "qh_ConfirmedAt h = Some ca" for ca using that by (auto simp: booked_def)
  have "set (qs_log s) \<subseteq> set (qs_log (qy_store y)) \<union> {booking_of h ca | ca. qh_ConfirmedAt h = Some ca}"
    using assms(3) by (auto simp: q_persist_def q_Record_def split: option.splits if_splits q_write.splits prod.splits q_recorded.splits)
  moreover have "\<exists>ca. qh_ConfirmedAt h = Some ca \<and> c = booking_of h ca" if "x = Inr c" for c
    using assms(3) that by (auto simp: q_persist_def split: option.splits prod.splits q_recorded.splits)
  ultimately show ?thesis using assms(1,2) bk by (fastforce simp: q_ok_def split: sum.splits)
qed

lemma q_step_ok: "q_step C y y' \<Longrightarrow> q_ok C y \<Longrightarrow> q_ok C y'"
proof (induction rule: q_step.induct)
  case (q_capacity c slot y)
  then show ?case
    using capacity_ok [of C "qy_redis y" c slot] q_ok_redis [of C y _ "qy_jobs y"] owns_holds by (force simp: q_ok_def)
next
  case (q_create i y now slot v ttl)
  then show ?case by (simp add: create_step_ok)
next
  case (q_read i y h)
  have m: "map_of (qr_holds (qy_redis y)) i = Some h" using q_read(1) by (simp add: q_GetHold_def split: option.splits)
  moreover have "qh_ID h = i" using m q_read(2) by (simp add: q_ok_def redis_ok_def hold_ok_def)
  ultimately show ?case using q_read(2) backed_self [of C "qy_redis y" i h] by (auto simp: q_ok_def)
next
  case (q_confirm y xs h ys mil ca v r)
  then show ?case using confirm_step_ok by blast
next
  case (q_reread y xs i ys h)
  then show ?case using backed_self [of C "qy_redis y" i h] by (auto simp: q_ok_def q_GetHold_def split: option.splits)
next
  case (q_persist y xs h ys w x s)
  then show ?case using persist_step_ok by blast
next
  case (q_finalize y xs h b ys)
  let ?r = "snd (q_finalize h b (qy_redis y))"
  have "?r = qy_redis y \<or> ?r = snd (lua_finalize (qh_ID h) (qy_redis y))" by (simp add: q_finalize_def split: prod.splits)
  moreover have "redis_ok C (qy_redis y)" using q_finalize(2) by (simp add: q_ok_def)
  ultimately have "redis_ok C ?r" "keeps (qy_redis y) ?r" "owns_same (qy_redis y) ?r"
    using lua_finalize_ok owns_finalize keeps_same owns_holds by metis+
  then show ?case using q_finalize by (intro q_ok_redis) auto
next
  case (q_release y xs i ys)
  then show ?case using lua_release_ok owns_release by (intro q_ok_redis) (auto simp: q_ok_def)
next
  case (q_gone y i)
  then show ?case using evict_ok [of C "qy_redis y" i] owns_evict q_ok_redis [of C y _ "qy_jobs y"] by (force simp: q_ok_def)
qed (auto simp: q_ok_def q_reopen_def)

lemma q_init_ok: "q_ok C q_init"
  by (simp add: q_ok_def q_init_def redis_ok_def places_def get_or_def)

lemma q_run_ok: "(q_step C)\<^sup>*\<^sup>* y y' \<Longrightarrow> q_ok C y \<Longrightarrow> q_ok C y'"
  by (induction rule: rtranclp_induct) (auto intro: q_step_ok)

lemma q_step_log: "q_step C y y' \<Longrightarrow> set (qs_log (qy_store y)) \<subseteq> set (qs_log (qy_store y'))"
  by (induction rule: q_step.induct)
    (auto simp: q_persist_def q_Record_def q_reopen_def split: option.splits if_splits q_write.splits prod.splits q_recorded.splits)

lemma q_run_log: "(q_step C)\<^sup>*\<^sup>* y y' \<Longrightarrow> set (qs_log (qy_store y)) \<subseteq> set (qs_log (qy_store y'))"
  by (induction rule: rtranclp_induct) (use q_step_log in blast)+

lemma booked_unique: "booked b r \<Longrightarrow> booked b' r \<Longrightarrow> qb_HoldID b = qb_HoldID b' \<Longrightarrow> b = b'"
  by (auto simp: booked_def backed_def booking_of_def alike_def)

lemma booked_places:
  assumes "\<forall>b \<in> set bs. booked b r"
  shows "int (card (qb_HoldID ` {b \<in> set bs. qb_Slot b = slot})) \<le> places slot r"
proof -
  have "qb_HoldID b \<in> fst ` set (filter (takes slot) (qr_holds r))" if c: "b \<in> set bs" "qb_Slot b = slot" for b
  proof -
    obtain h h' ca where h: "map_of (qr_holds r) (qh_ID h) = Some h'" "settled h'" "alike h h'" "b = booking_of h ca"
      using assms c(1) unfolding booked_def backed_def by blast
    then have "(qh_ID h, h') \<in> set (filter (takes slot) (qr_holds r))"
      using c(2) map_of_SomeD [OF h(1)] by (auto simp: takes_def settled_def alike_def booking_of_def)
    then show ?thesis using h(4) by (force simp: booking_of_def)
  qed
  then have "card (qb_HoldID ` {b \<in> set bs. qb_Slot b = slot}) \<le> card (fst ` set (filter (takes slot) (qr_holds r)))"
    by (intro card_mono) auto
  also have "\<dots> \<le> length (filter (takes slot) (qr_holds r))"
    by (metis card_length length_map set_map)
  finally show ?thesis by (simp add: places_def)
qed

section \<open>Properties\<close>


definition demo_hold :: q_hold where
  "demo_hold = \<lparr>qh_ID = ''h'', qh_Slot = ''s'', qh_VisitorID = ''v'', qh_Status = StatusHeld, qh_ExpiresAt = 9000000, qh_ConfirmedAt = None\<rparr>"

definition demo_confirming :: q_hold where
  "demo_confirming = demo_hold\<lparr>qh_Status := StatusConfirming, qh_ConfirmedAt := Some 1\<rparr>"

definition demo_redis :: "q_hold \<Rightarrow> (string \<times> int) list \<Rightarrow> (string \<times> int) list \<Rightarrow> q_redis" where
  "demo_redis h timers pend = \<lparr>qr_capacity = [''s'' \<mapsto> 1], qr_used = [''s'' \<mapsto> 1], qr_holds = [(''h'', h)], qr_timers = timers, qr_pending = pend\<rparr>"

definition demo_booked :: q_sys where
  "demo_booked = \<lparr>qy_redis = demo_redis demo_confirming [] [(''h'', 0)],
     qy_store = \<lparr>qs_log = [booking_of demo_confirming 1], qs_seen = {''h''}\<rparr>, qy_jobs = [JFinalize demo_confirming (booking_of demo_confirming 1)]\<rparr>"

lemmas demo_visit = demo_hold_def demo_confirming_def demo_redis_def demo_booked_def booking_of_def q_init_def UnixMilli_def get_or_def Let_def

lemma demo_booked_run: "(q_step (\<lambda>_. 1))\<^sup>*\<^sup>* q_init demo_booked"
proof -
  let ?C = "\<lambda>_ :: string. 1 :: int"
  define y1 where "y1 = q_init\<lparr>qy_redis := snd (SetCapacity ''s'' 1 (qy_redis q_init))\<rparr>"
  define y2 where "y2 = q_init\<lparr>qy_redis := demo_redis demo_hold [(''h'', 9)] []\<rparr>"
  define y3 where "y3 = y2\<lparr>qy_jobs := [JConfirm demo_hold]\<rparr>"
  define y4 where "y4 = y2\<lparr>qy_redis := demo_redis demo_confirming [] [(''h'', 0)], qy_jobs := [JPersist demo_confirming]\<rparr>"
  have 1: "q_step ?C q_init y1" unfolding y1_def by (rule q_step.q_capacity) simp
  have "q_step ?C y1 (y1\<lparr>qy_redis := snd (q_CreateHold ''h'' 0 ''s'' ''v'' 9000000 (qy_redis y1))\<rparr>)"
    by (rule q_step.q_create) (simp add: fresh_id_def y1_def SetCapacity_def demo_visit)
  moreover have "y1\<lparr>qy_redis := snd (q_CreateHold ''h'' 0 ''s'' ''v'' 9000000 (qy_redis y1))\<rparr> = y2"
    by (simp add: y1_def y2_def SetCapacity_def q_CreateHold_def lua_create_def demo_visit)
  ultimately have 2: "q_step ?C y1 y2" by simp
  have 3: "q_step ?C y2 y3"
    using q_step.q_read [of "''h''" y2 demo_hold ?C] by (simp add: y3_def y2_def q_GetHold_def settled_def demo_visit)
  have 4: "q_step ?C y3 y4"
    using q_step.q_confirm [of y3 "[]" demo_hold "[]" 0 1 1 "demo_redis demo_confirming [] [(''h'', 0)]" ?C]
    by (simp add: y4_def y3_def y2_def lua_confirm_def demo_visit)
  have 5: "q_step ?C y4 demo_booked"
    using q_step.q_persist [of y4 "[]" demo_confirming "[]" WSynced "Inr (booking_of demo_confirming 1)" "qy_store demo_booked" ?C]
    by (simp add: y4_def y2_def q_persist_def q_Record_def demo_visit)
  show ?thesis using 1 2 3 4 5 by (meson converse_rtranclp_into_rtranclp rtranclp.rtrancl_refl)
qed


text \<open>A hold that is created in time and confirmed before its deadline is booked.\<close>

theorem hold_then_confirm:
  assumes "q_CreateHold i now slot v ttl r = (Inr h, r1)" "i \<notin> qs_seen s"
    "t1 < now + ttl" "UnixMilli t3 < UnixMilli (now + ttl)"
  shows "\<exists>r2. q_ConfirmHold WSynced t1 t2 t3 i (r1, s) =
    (Inr (booking_of h t2), r2, s\<lparr>qs_log := qs_log s @ [booking_of h t2], qs_seen := insert i (qs_seen s)\<rparr>) \<and>
    map_of (qr_holds r2) i = Some (h\<lparr>qh_Status := StatusConfirmed, qh_ConfirmedAt := Some t2\<rparr>)"
  using assms
  by (auto simp: q_CreateHold_def lua_create_def Let_def q_ConfirmHold_def q_GetHold_def settled_def lua_confirm_def update_conv'
      persistAndFinalize_def q_persist_def q_Record_def q_finalize_def lua_finalize_def booking_of_def split: if_splits)

section \<open>Commands are read as they were sent\<close>

lemma itoa_no_newline: "CHR 0x0A \<notin> set (itoa (int n))" "CHR 0x0D \<notin> set (itoa (int n))"
proof -
  have "digit_val (CHR 0x0A) = None" "digit_val (CHR 0x0D) = None" by code_simp+
  then show "CHR 0x0A \<notin> set (itoa (int n))" "CHR 0x0D \<notin> set (itoa (int n))"
    using dec_of_nat_digits [of "CHR 0x0A" n] dec_of_nat_digits [of "CHR 0x0D" n] by (auto simp: itoa_def)
qed

lemma read_line_count: "read_line (itoa (int n) @ crlf @ rest) = Some (itoa (int n), rest)"
proof -
  have "index_of (CHR 0x0A) ((itoa (int n) @ [CHR 0x0D]) @ CHR 0x0A # rest) = Some (length (itoa (int n) @ [CHR 0x0D]))"
    by (rule index_of_append) (simp add: itoa_no_newline)
  then show ?thesis by (simp add: read_line_def crlf_def trim_suffix_def)
qed

lemma Atoi_count: "int n < 2 ^ 63 \<Longrightarrow> Atoi (itoa (int n)) = Some (int n)"
  using sint_of_int64 [of "int n"] by (simp add: Atoi_def parse_itoa del: of_int_of_nat_eq)

lemma read_bulk:
  assumes "int (length p) < 2 ^ 63"
  shows "readRESP (Suc n) (''$'' @ itoa (int (length p)) @ crlf @ p @ crlf @ rest) = Some (Inr (RBulk p), rest)"
  using Atoi_count [OF assms] read_line_count [of "length p" "p @ crlf @ rest"] by (simp add: crlf_def)

lemma read_bulks:
  assumes "\<forall>p \<in> set parts. int (length p) < 2 ^ 63"
  shows "read_array (Suc (length parts + n)) (length parts)
     (concat (map (\<lambda>p. ''$'' @ itoa (int (length p)) @ crlf @ p @ crlf) parts) @ rest) = Some (Inr (map RBulk parts), rest)"
  using assms
proof (induction parts)
  case (Cons p ps)
  then show ?case using read_bulk [of p "length ps + n"] by simp
qed simp

text \<open>Whatever bytes the arguments of a command hold, the server reads exactly those arguments: no
  argument can end its command and start another one. Fuel of two more than their number is enough.\<close>

theorem command_read_back:
  assumes "int (length parts) < 2 ^ 63" "\<forall>p \<in> set parts. int (length p) < 2 ^ 63"
  shows "readRESP (length parts + 2 + n) (redis_command parts @ rest) = Some (Inr (RArray (map RBulk parts)), rest)"
  using Atoi_count [OF assms(1)] read_line_count [of "length parts"] read_bulks [OF assms(2), of n rest]
  by (simp add: redis_command_def)

section \<open>Where the code falls short\<close>

text \<open>A request that read the hold as confirming, and is overtaken by another one (or by the recovery
  worker) that finalizes it, reports that the hold is no longer active although it is booked.\<close>

theorem overtaken_confirm_fails:
  assumes "qh_Status h = StatusConfirming" "qh_ConfirmedAt h = Some ca" "lua_finalize (qh_ID h) r = (1, r')" "qh_ID h \<in> qs_seen s"
  shows "fst (persistAndFinalize w h (r', s)) = Inl ErrHoldInactive \<and>
    (\<exists>h'. map_of (qr_holds r') (qh_ID h) = Some h' \<and> qh_Status h' = StatusConfirmed)"
  using assms
  by (auto simp: persistAndFinalize_def q_persist_def q_Record_def booking_of_def q_finalize_def lua_finalize_def update_conv'
      split: option.splits if_splits)

text \<open>A line that was written but not synced is written again by the retry.\<close>

theorem unsynced_recorded_twice:
  assumes "qb_HoldID b \<notin> qs_seen s"
  shows "qs_log (snd (q_Record WSynced b (snd (q_Record WUnsynced b s)))) = qs_log s @ [b, b]"
  using assms by (simp add: q_Record_def)

end
