(* ===== verification/Rides.thy ===== *)
theory Rides
  imports Configs
begin

text \<open>
  \<open>kafkaeda\<close>: ride requests, dispatch of drivers and the projections, joined by an outbox and Kafka.
  A transaction is one function on the tables that commits or leaves them as they were; the rows that
  other sessions have locked, which \<open>SKIP LOCKED\<close> passes over, are an argument. Payloads are values
  instead of JSON, \<open>DBad\<close> one that does not decode; coordinates are exact rationals. Identifiers, the
  clock and the failures of the database are arguments. Of \<open>kafka-go\<close> the consumer relies on: a fetch
  returns the message after the last one fetched, a commit covers all earlier offsets of the partition,
  and a new reader starts at the committed offset.
\<close>

section \<open>Events\<close>

datatype ride_data =
  RideRequested string string rat rat string
| DriverLocationUpdated string rat rat
| RideAssigned string string string string
| RideDispatchDeferred string string
| RideStatusChanged string string string string
| DBad

record envelope =
  en_EventID :: string
  en_EventType :: string
  en_SchemaVersion :: int
  en_OccurredAt :: int
  en_Producer :: string
  en_CorrelationID :: string
  en_CausationID :: string
  en_Data :: ride_data

definition events_New :: "string \<Rightarrow> int \<Rightarrow> string \<Rightarrow> string \<Rightarrow> string \<Rightarrow> string \<Rightarrow> ride_data \<Rightarrow> envelope" where
  "events_New i now eventType producer correlationID causationID data =
     \<lparr>en_EventID = i, en_EventType = eventType, en_SchemaVersion = 1, en_OccurredAt = now, en_Producer = producer,
      en_CorrelationID = correlationID, en_CausationID = causationID, en_Data = data\<rparr>"

section \<open>Tables\<close>

datatype ride_status = RRequested | RSearching | RAssigned

record ride =
  rd_ID :: string
  rd_RiderName :: string
  rd_Lat :: rat
  rd_Lon :: rat
  rd_Destination :: string
  rd_Status :: ride_status
  rd_Correlation :: string

record availability =
  av_driver :: string
  av_name :: string
  av_lat :: rat
  av_lon :: rat
  av_free :: bool
  av_updated :: int

record pending_ride =
  pr_ride :: string
  pr_lat :: rat
  pr_lon :: rat
  pr_requested :: int

record assignment =
  as_id :: string
  as_ride :: string
  as_driver :: string
  as_name :: string

record out_event =
  oe_topic :: string
  oe_key :: string
  oe_event :: envelope
  oe_created :: int
  oe_published :: bool

record ride_activity =
  ra_event :: string
  ra_ride :: string
  ra_kind :: string
  ra_title :: string

record ride_db =
  t_rides :: "ride list"
  t_ride_drivers :: "(string \<times> string) list"
  t_drivers :: "(string \<times> rat \<times> rat) list"
  t_avail :: "availability list"
  t_pending :: "pending_ride list"
  t_assign :: "assignment list"
  t_outbox :: "out_event list"
  t_processed :: "(string \<times> string) set"
  t_activity :: "ride_activity list"

datatype ride_err = RideDb | RideDecode | RideInvalid string | RideNoRows

section \<open>The outbox\<close>

text \<open>The primary key refuses an identifier that is there already.\<close>

definition outbox_Add :: "int \<Rightarrow> string \<Rightarrow> string \<Rightarrow> envelope \<Rightarrow> ride_db \<Rightarrow> ride_err + ride_db" where
  "outbox_Add now topic key ev db =
     (if list_ex (\<lambda>o'. en_EventID (oe_event o') = en_EventID ev) (t_outbox db) then Inl RideDb
      else Inr (db\<lparr>t_outbox := t_outbox db @ [\<lparr>oe_topic = topic, oe_key = key, oe_event = ev, oe_created = now, oe_published = False\<rparr>]\<rparr>))"

text \<open>\<open>publishBatch\<close>: \<open>sent\<close> tells which writes Kafka acknowledges. A failed write rolls the marks of the
  batch back, although what was sent before it stays sent.\<close>

fun publish_loop :: "(out_event \<Rightarrow> bool) \<Rightarrow> out_event list \<Rightarrow> envelope list \<Rightarrow> envelope list \<times> bool" where
  "publish_loop sent [] acc = (acc, True)"
| "publish_loop sent (o' # os) acc = (if sent o' then publish_loop sent os (acc @ [oe_event o']) else (acc, False))"

definition publish_batch :: "string set \<Rightarrow> ride_db \<Rightarrow> out_event list" where
  "publish_batch locked db =
     take 50 (sort_key oe_created (filter (\<lambda>o'. \<not> oe_published o' \<and> en_EventID (oe_event o') \<notin> locked) (t_outbox db)))"

definition publishBatch :: "(out_event \<Rightarrow> bool) \<Rightarrow> bool \<Rightarrow> string set \<Rightarrow> ride_db \<Rightarrow> envelope list \<times> ride_db" where
  "publishBatch sent committed locked db =
     (let batch = publish_batch locked db in
      case publish_loop sent batch [] of
        (msgs, ok) \<Rightarrow>
          (msgs, if ok \<and> committed
                 then db\<lparr>t_outbox := map (\<lambda>o'. if o' \<in> set batch then o'\<lparr>oe_published := True\<rparr> else o') (t_outbox db)\<rparr>
                 else db))"

section \<open>Ride and driver APIs\<close>

record create_command =
  cm_RiderName :: string
  cm_Lat :: rat
  cm_Lon :: rat
  cm_Destination :: string

definition validate_ride :: "create_command \<Rightarrow> ride_err option" where
  "validate_ride c =
     (let name = TrimSpace (cm_RiderName c); dest = TrimSpace (cm_Destination c) in
      if name = [] \<or> length name > 80 then Some (RideInvalid ''rider_name must contain 1 to 80 characters'')
      else if dest = [] \<or> length dest > 200 then Some (RideInvalid ''destination must contain 1 to 200 characters'')
      else if cm_Lat c < - 90 \<or> cm_Lat c > 90 then Some (RideInvalid ''pickup_latitude must be between -90 and 90'')
      else if cm_Lon c < - 180 \<or> cm_Lon c > 180 then Some (RideInvalid ''pickup_longitude must be between -180 and 180'')
      else None)"

text \<open>\<open>InTx\<close>: an error or a failure of the database leaves the tables as they were.\<close>

definition InTx :: "bool \<Rightarrow> (ride_db \<Rightarrow> ride_err + ride_db) \<Rightarrow> ride_db \<Rightarrow> ride_err option \<times> ride_db" where
  "InTx fault fn db =
     (if fault then (Some RideDb, db) else case fn db of Inl e \<Rightarrow> (Some e, db) | Inr db' \<Rightarrow> (None, db'))"

definition ride_Create :: "bool \<Rightarrow> int \<Rightarrow> string \<Rightarrow> string \<Rightarrow> string \<Rightarrow> create_command \<Rightarrow> ride_db \<Rightarrow> (ride_err + ride) \<times> ride_db" where
  "ride_Create fault now rideID correlationID eventID c0 db =
     (let c = c0\<lparr>cm_RiderName := TrimSpace (cm_RiderName c0), cm_Destination := TrimSpace (cm_Destination c0)\<rparr>;
          created = \<lparr>rd_ID = rideID, rd_RiderName = cm_RiderName c, rd_Lat = cm_Lat c, rd_Lon = cm_Lon c,
                     rd_Destination = cm_Destination c, rd_Status = RRequested, rd_Correlation = correlationID\<rparr>
      in case validate_ride c of
           Some e \<Rightarrow> (Inl e, db)
         | None \<Rightarrow>
            (case InTx fault (\<lambda>db.
                 if list_ex (\<lambda>r. rd_ID r = rideID) (t_rides db) then Inl RideDb
                 else outbox_Add now ''ride.requested.v1'' rideID
                   (events_New eventID now ''ride.requested'' ''ride-api'' correlationID []
                     (RideRequested rideID (cm_RiderName c) (cm_Lat c) (cm_Lon c) (cm_Destination c)))
                   (db\<lparr>t_rides := t_rides db @ [created]\<rparr>)) db of
               (Some e, db') \<Rightarrow> (Inl e, db')
             | (None, db') \<Rightarrow> (Inr created, db')))"

definition recordLocation :: "bool \<Rightarrow> int \<Rightarrow> string \<Rightarrow> string \<Rightarrow> rat \<Rightarrow> rat \<Rightarrow> ride_db \<Rightarrow> ride_err option \<times> ride_db" where
  "recordLocation fault now eventID driverID lat lon db =
     (if driverID = [] then (Some (RideInvalid ''driver id is required''), db)
      else if lat < - 90 \<or> lat > 90 then (Some (RideInvalid ''latitude must be between -90 and 90''), db)
      else if lon < - 180 \<or> lon > 180 then (Some (RideInvalid ''longitude must be between -180 and 180''), db)
      else InTx fault (\<lambda>db.
        if map_of (t_drivers db) driverID = None then Inl RideNoRows
        else outbox_Add now ''driver.location.updated.v1'' driverID
          (events_New eventID now ''driver.location.updated'' ''driver-api'' [] [] (DriverLocationUpdated driverID lat lon))
          (db\<lparr>t_drivers := map (\<lambda>(d, p). if d = driverID then (d, lat, lon) else (d, p)) (t_drivers db)\<rparr>)) db)"

section \<open>Dispatch\<close>

text \<open>What a handler draws from outside: the clock, an identifier for an event and one for an assignment,
  and the rows locked by others.\<close>

record handler_env =
  hv_now :: int
  hv_event :: string
  hv_assignment :: string
  hv_locked :: "string set"

definition sq_dist :: "rat \<Rightarrow> rat \<Rightarrow> availability \<Rightarrow> rat" where
  "sq_dist lat lon a = (av_lat a - lat) * (av_lat a - lat) + (av_lon a - lon) * (av_lon a - lon)"

definition free_drivers :: "string set \<Rightarrow> rat \<Rightarrow> rat \<Rightarrow> ride_db \<Rightarrow> availability list" where
  "free_drivers locked lat lon db =
     sort_key (sq_dist lat lon) (sort_key av_updated (filter (\<lambda>a. av_free a \<and> av_driver a \<notin> locked) (t_avail db)))"

text \<open>The row is locked by the query, so the update that follows always finds it available.\<close>

definition reserveDriver :: "handler_env \<Rightarrow> envelope \<Rightarrow> string \<Rightarrow> rat \<Rightarrow> rat \<Rightarrow> ride_db \<Rightarrow> ride_err + bool \<times> ride_db" where
  "reserveDriver v ev rideID lat lon db =
     (case free_drivers (hv_locked v) lat lon db of
        [] \<Rightarrow> Inr (False, db)
      | d # _ \<Rightarrow>
          if list_ex (\<lambda>a. as_id a = hv_assignment v \<or> as_ride a = rideID) (t_assign db) then Inl RideDb
          else
            let db1 = db\<lparr>t_avail := map (\<lambda>a. if av_driver a = av_driver d \<and> av_free a then a\<lparr>av_free := False, av_updated := hv_now v\<rparr> else a) (t_avail db),
                         t_assign := t_assign db @ [\<lparr>as_id = hv_assignment v, as_ride = rideID, as_driver = av_driver d, as_name = av_name d\<rparr>],
                         t_pending := filter (\<lambda>p. pr_ride p \<noteq> rideID) (t_pending db)\<rparr>
            in case outbox_Add (hv_now v) ''ride.assigned.v1'' rideID
                 (events_New (hv_event v) (hv_now v) ''ride.assigned'' ''dispatch-service'' (en_CorrelationID ev) (en_EventID ev)
                   (RideAssigned rideID (hv_assignment v) (av_driver d) (av_name d))) db1 of
                 Inl e \<Rightarrow> Inl e
               | Inr db2 \<Rightarrow> Inr (True, db2))"

definition handleRideRequested :: "handler_env \<Rightarrow> envelope \<Rightarrow> ride_db \<Rightarrow> ride_err + ride_db" where
  "handleRideRequested v ev db =
     (case en_Data ev of
        RideRequested rideID name lat lon dest \<Rightarrow>
          if list_ex (\<lambda>p. pr_ride p = rideID) (t_pending db) then Inr db
          else
            (case reserveDriver v ev rideID lat lon
                 (db\<lparr>t_pending := t_pending db @ [\<lparr>pr_ride = rideID, pr_lat = lat, pr_lon = lon, pr_requested = hv_now v\<rparr>]\<rparr>) of
               Inl e \<Rightarrow> Inl e
             | Inr (True, db') \<Rightarrow> Inr db'
             | Inr (False, db') \<Rightarrow>
                 outbox_Add (hv_now v) ''ride.dispatch.deferred.v1'' rideID
                   (events_New (hv_event v) (hv_now v) ''ride.dispatch.deferred'' ''dispatch-service'' (en_CorrelationID ev) (en_EventID ev)
                     (RideDispatchDeferred rideID ''no driver currently available'')) db')
      | _ \<Rightarrow> Inl RideDecode)"

definition matchOldestPending :: "handler_env \<Rightarrow> envelope \<Rightarrow> ride_db \<Rightarrow> ride_err + ride_db" where
  "matchOldestPending v ev db =
     (case sort_key pr_requested (filter (\<lambda>p. pr_ride p \<notin> hv_locked v) (t_pending db)) of
        [] \<Rightarrow> Inr db
      | p # _ \<Rightarrow> (case reserveDriver v ev (pr_ride p) (pr_lat p) (pr_lon p) db of Inl e \<Rightarrow> Inl e | Inr (_, db') \<Rightarrow> Inr db'))"

definition handleDriverLocation :: "handler_env \<Rightarrow> envelope \<Rightarrow> ride_db \<Rightarrow> ride_err + ride_db" where
  "handleDriverLocation v ev db =
     (case en_Data ev of
        DriverLocationUpdated d lat lon \<Rightarrow>
          matchOldestPending v ev
            (db\<lparr>t_avail := map (\<lambda>a. if av_driver a = d then a\<lparr>av_lat := lat, av_lon := lon, av_updated := hv_now v\<rparr> else a) (t_avail db)\<rparr>)
      | _ \<Rightarrow> Inl RideDecode)"

section \<open>Projections\<close>

definition status_name :: "ride_status \<Rightarrow> string" where
  "status_name s = (case s of RRequested \<Rightarrow> ''REQUESTED'' | RSearching \<Rightarrow> ''SEARCHING_DRIVER'' | RAssigned \<Rightarrow> ''DRIVER_ASSIGNED'')"

definition set_status :: "string \<Rightarrow> (ride_status \<Rightarrow> bool) \<Rightarrow> ride_status \<Rightarrow> ride list \<Rightarrow> ride list" where
  "set_status i p s = map (\<lambda>r. if rd_ID r = i \<and> p (rd_Status r) then r\<lparr>rd_Status := s\<rparr> else r)"

definition status_event :: "handler_env \<Rightarrow> envelope \<Rightarrow> string \<Rightarrow> ride_status \<Rightarrow> string \<Rightarrow> envelope" where
  "status_event v ev rideID s driverID =
     events_New (hv_event v) (hv_now v) ''ride.status.changed'' ''ride-projection'' (en_CorrelationID ev) (en_EventID ev)
       (RideStatusChanged rideID (status_name RRequested) (status_name s) driverID)"

definition applyAssigned :: "handler_env \<Rightarrow> envelope \<Rightarrow> ride_db \<Rightarrow> ride_err + ride_db" where
  "applyAssigned v ev db =
     (case en_Data ev of
        RideAssigned rideID assignmentID driverID name \<Rightarrow>
          if \<not> list_ex (\<lambda>r. rd_ID r = rideID \<and> rd_Status r \<noteq> RAssigned) (t_rides db) then Inr db
          else outbox_Add (hv_now v) ''ride.status.changed.v1'' rideID (status_event v ev rideID RAssigned driverID)
            (db\<lparr>t_rides := set_status rideID (\<lambda>s. s \<noteq> RAssigned) RAssigned (t_rides db),
                t_ride_drivers := AList.update rideID driverID (t_ride_drivers db)\<rparr>)
      | _ \<Rightarrow> Inl RideDecode)"

definition applyDeferred :: "handler_env \<Rightarrow> envelope \<Rightarrow> ride_db \<Rightarrow> ride_err + ride_db" where
  "applyDeferred v ev db =
     (case en_Data ev of
        RideDispatchDeferred rideID why \<Rightarrow>
          if \<not> list_ex (\<lambda>r. rd_ID r = rideID \<and> rd_Status r = RRequested) (t_rides db) then Inr db
          else outbox_Add (hv_now v) ''ride.status.changed.v1'' rideID (status_event v ev rideID RSearching [])
            (db\<lparr>t_rides := set_status rideID (\<lambda>s. s = RRequested) RSearching (t_rides db)\<rparr>)
      | _ \<Rightarrow> Inl RideDecode)"

definition activity_details :: "envelope \<Rightarrow> (string \<times> string \<times> string) option" where
  "activity_details ev =
     (if en_EventType ev = ''ride.requested'' then
        (case en_Data ev of RideRequested i _ _ _ _ \<Rightarrow> Some (i, ''requested'', ''Ride request received'') | _ \<Rightarrow> None)
      else if en_EventType ev = ''ride.dispatch.deferred'' then
        (case en_Data ev of RideDispatchDeferred i _ \<Rightarrow> Some (i, ''dispatch_deferred'', ''Looking for an available captain'') | _ \<Rightarrow> None)
      else if en_EventType ev = ''ride.assigned'' then
        (case en_Data ev of RideAssigned i _ _ name \<Rightarrow> Some (i, ''assigned'', ''Captain '' @ name @ '' is assigned'') | _ \<Rightarrow> None)
      else if en_EventType ev = ''ride.status.changed'' then
        (case en_Data ev of RideStatusChanged i _ cur _ \<Rightarrow> Some (i, ''status_changed'', ''Ride status: '' @ cur) | _ \<Rightarrow> None)
      else None)"

definition record_activity :: "handler_env \<Rightarrow> envelope \<Rightarrow> ride_db \<Rightarrow> ride_err + ride_db" where
  "record_activity v ev db =
     (case activity_details ev of
        None \<Rightarrow> Inl RideDecode
      | Some (rideID, kind, title) \<Rightarrow>
          if list_ex (\<lambda>a. ra_event a = en_EventID ev) (t_activity db) then Inr db
          else Inr (db\<lparr>t_activity := t_activity db @ [\<lparr>ra_event = en_EventID ev, ra_ride = rideID, ra_kind = kind, ra_title = title\<rparr>]\<rparr>))"

section \<open>The consumer\<close>

definition consumer_process ::
  "bool \<Rightarrow> string \<Rightarrow> (envelope \<Rightarrow> ride_db \<Rightarrow> ride_err + ride_db) \<Rightarrow> envelope \<Rightarrow> ride_db \<Rightarrow> ride_err option \<times> ride_db" where
  "consumer_process fault consumerName handler ev db =
     InTx fault (\<lambda>db.
       if (consumerName, en_EventID ev) \<in> t_processed db then Inr db
       else handler ev (db\<lparr>t_processed := insert (consumerName, en_EventID ev) (t_processed db)\<rparr>)) db"

text \<open>The reader of one partition: the next message, and the committed offset.\<close>

record reader =
  re_next :: nat
  re_committed :: nat

definition valid_envelope :: "envelope \<Rightarrow> bool" where
  "valid_envelope ev \<longleftrightarrow> en_EventID ev \<noteq> [] \<and> en_EventType ev \<noteq> [] \<and> en_SchemaVersion ev = 1"

text \<open>One turn of \<open>Run\<close>; \<open>None\<close> is the return of the loop. A message is \<open>None\<close> if it does not decode.\<close>

definition consumer_turn ::
  "(envelope \<Rightarrow> 's \<Rightarrow> ride_err option \<times> 's) \<Rightarrow> envelope option list \<Rightarrow> reader \<times> 's \<Rightarrow> (reader \<times> 's) option" where
  "consumer_turn proc part st =
     (case st of (re, s) \<Rightarrow>
        if re_next re \<ge> length part then None
        else
          let re' = re\<lparr>re_next := Suc (re_next re)\<rparr> in
          case part ! re_next re of
            None \<Rightarrow> None
          | Some ev \<Rightarrow>
              if \<not> valid_envelope ev then None
              else case proc ev s of
                (Some _, s') \<Rightarrow> Some (re', s')
              | (None, s') \<Rightarrow> Some (re'\<lparr>re_committed := Suc (re_next re)\<rparr>, s'))"

text \<open>A new reader of the group.\<close>

definition reader_restart :: "reader \<Rightarrow> reader" where
  "reader_restart re = re\<lparr>re_next := re_committed re\<rparr>"

section \<open>The system\<close>

text \<open>The consumers with their topics, as \<open>Run\<close> and \<open>RunProjector\<close> start them.\<close>

definition consumers :: "handler_env \<Rightarrow> (string \<times> string \<times> (envelope \<Rightarrow> ride_db \<Rightarrow> ride_err + ride_db)) list" where
  "consumers v =
     [(''dispatch-service.requested-v1'', ''ride.requested.v1'', handleRideRequested v),
      (''dispatch-service.location-v1'', ''driver.location.updated.v1'', handleDriverLocation v),
      (''ride-projection.assigned-v1'', ''ride.assigned.v1'', applyAssigned v),
      (''ride-projection.deferred-v1'', ''ride.dispatch.deferred.v1'', applyDeferred v),
      (''activity-service.requested-v1'', ''ride.requested.v1'', record_activity v),
      (''activity-service.deferred-v1'', ''ride.dispatch.deferred.v1'', record_activity v),
      (''activity-service.assigned-v1'', ''ride.assigned.v1'', record_activity v),
      (''activity-service.status-v1'', ''ride.status.changed.v1'', record_activity v)]"

text \<open>Requests, the relay, and deliveries of any event of the outbox to any consumer of its topic, in
  any order and any number of times.\<close>

inductive rides_step :: "ride_db \<Rightarrow> ride_db \<Rightarrow> bool" where
  r_create: "rides_step db (snd (ride_Create fault now rideID corr eventID c db))"
| r_location: "rides_step db (snd (recordLocation fault now eventID d lat lon db))"
| r_publish: "rides_step db (snd (publishBatch sent committed locked db))"
| r_deliver: "(name, topic, h) \<in> set (consumers v) \<Longrightarrow> x \<in> set (t_outbox db) \<Longrightarrow> oe_topic x = topic \<Longrightarrow>
    rides_step db (snd (consumer_process fault name h (oe_event x) db))"

section \<open>Invariant\<close>

definition ev_id :: "out_event \<Rightarrow> string" where
  "ev_id x = en_EventID (oe_event x)"

definition requests :: "out_event \<Rightarrow> string \<Rightarrow> bool" where
  "requests x r \<longleftrightarrow> oe_topic x = ''ride.requested.v1'' \<and> (\<exists>n la lo d. en_Data (oe_event x) = RideRequested r n la lo d)"

definition announces :: "out_event \<Rightarrow> assignment \<Rightarrow> bool" where
  "announces x a \<longleftrightarrow> oe_topic x = ''ride.assigned.v1'' \<and>
     en_Data (oe_event x) = RideAssigned (as_ride a) (as_id a) (as_driver a) (as_name a)"

definition seen_request :: "out_event list \<Rightarrow> (string \<times> string) set \<Rightarrow> string \<Rightarrow> bool" where
  "seen_request xs ps r \<longleftrightarrow> (\<exists>x \<in> set xs. requests x r \<and> (''dispatch-service.requested-v1'', ev_id x) \<in> ps)"

definition ids_ok :: "out_event list \<Rightarrow> bool" where
  "ids_ok xs \<longleftrightarrow> distinct (map ev_id xs)"

definition requests_ok :: "out_event list \<Rightarrow> ride list \<Rightarrow> bool" where
  "requests_ok xs rs \<longleftrightarrow>
     (\<forall>x \<in> set xs. oe_topic x = ''ride.requested.v1'' \<longrightarrow> (\<exists>r \<in> rd_ID ` set rs. requests x r)) \<and>
     (\<forall>x \<in> set xs. \<forall>y \<in> set xs. \<forall>r. requests x r \<and> requests y r \<longrightarrow> x = y)"

definition announced_ok :: "out_event list \<Rightarrow> assignment list \<Rightarrow> bool" where
  "announced_ok xs as \<longleftrightarrow>
     (\<forall>x \<in> set xs. oe_topic x = ''ride.assigned.v1'' \<longrightarrow> (\<exists>a \<in> set as. announces x a)) \<and>
     (\<forall>a \<in> set as. \<exists>x \<in> set xs. announces x a)"

definition assign_ok :: "assignment list \<Rightarrow> availability list \<Rightarrow> bool" where
  "assign_ok as vs \<longleftrightarrow> distinct (map as_ride as) \<and> distinct (map as_driver as) \<and>
     (\<forall>a \<in> set as. \<forall>v \<in> set vs. av_driver v = as_driver a \<longrightarrow> \<not> av_free v)"

definition waiting :: "pending_ride list \<Rightarrow> string \<Rightarrow> bool" where
  "waiting ps r \<longleftrightarrow> r \<in> pr_ride ` set ps"

definition assigned :: "assignment list \<Rightarrow> string \<Rightarrow> bool" where
  "assigned as r \<longleftrightarrow> r \<in> as_ride ` set as"

definition queue_ok :: "pending_ride list \<Rightarrow> assignment list \<Rightarrow> (string \<Rightarrow> bool) \<Rightarrow> bool" where
  "queue_ok ps as seen \<longleftrightarrow> (\<forall>r. \<not> (waiting ps r \<and> assigned as r)) \<and> (\<forall>r. waiting ps r \<or> assigned as r \<longleftrightarrow> seen r)"

definition shown_ok :: "ride list \<Rightarrow> (string \<times> string) list \<Rightarrow> assignment list \<Rightarrow> bool" where
  "shown_ok rs ds as \<longleftrightarrow>
     (\<forall>r d. map_of ds r = Some d \<longrightarrow> (\<exists>a \<in> set as. as_ride a = r \<and> as_driver a = d)) \<and>
     (\<forall>r \<in> set rs. rd_Status r = RAssigned \<longrightarrow> map_of ds (rd_ID r) \<noteq> None)"

definition processed_ok :: "out_event list \<Rightarrow> (string \<times> string) set \<Rightarrow> bool" where
  "processed_ok xs ps \<longleftrightarrow> snd ` ps \<subseteq> ev_id ` set xs"

definition rides_ok :: "ride_db \<Rightarrow> bool" where
  "rides_ok db \<longleftrightarrow> ids_ok (t_outbox db) \<and> requests_ok (t_outbox db) (t_rides db) \<and> announced_ok (t_outbox db) (t_assign db) \<and>
     assign_ok (t_assign db) (t_avail db) \<and> queue_ok (t_pending db) (t_assign db) (seen_request (t_outbox db) (t_processed db)) \<and>
     shown_ok (t_rides db) (t_ride_drivers db) (t_assign db) \<and> processed_ok (t_outbox db) (t_processed db)"

lemma processed_append: "processed_ok xs ps \<Longrightarrow> processed_ok (xs @ [x]) ps"
  by (auto simp: processed_ok_def)

lemma processed_mark: "processed_ok xs ps \<Longrightarrow> x \<in> set xs \<Longrightarrow> processed_ok xs (insert (n, ev_id x) ps)"
  by (simp add: processed_ok_def)

subsection \<open>Adding to the outbox\<close>

lemma outbox_Add_Inr:
  "outbox_Add now topic key ev db = Inr db' \<longleftrightarrow>
     en_EventID ev \<notin> ev_id ` set (t_outbox db) \<and>
     db' = db\<lparr>t_outbox := t_outbox db @ [\<lparr>oe_topic = topic, oe_key = key, oe_event = ev, oe_created = now, oe_published = False\<rparr>]\<rparr>"
  by (force simp: outbox_Add_def list_ex_iff ev_id_def)

lemma seen_request_append:
  "oe_topic x \<noteq> ''ride.requested.v1'' \<Longrightarrow> seen_request (xs @ [x]) ps = seen_request xs ps"
  by (auto simp: seen_request_def requests_def fun_eq_iff)

lemma ids_append: "ids_ok xs \<Longrightarrow> ev_id x \<notin> ev_id ` set xs \<Longrightarrow> ids_ok (xs @ [x])"
  by (simp add: ids_ok_def)

lemma requests_append: "requests_ok xs rs \<Longrightarrow> oe_topic x \<noteq> ''ride.requested.v1'' \<Longrightarrow> requests_ok (xs @ [x]) rs"
  by (auto simp: requests_ok_def requests_def)

lemma announced_append: "announced_ok xs as \<Longrightarrow> oe_topic x \<noteq> ''ride.assigned.v1'' \<Longrightarrow> announced_ok (xs @ [x]) as"
  by (auto simp: announced_ok_def announces_def)

lemma announced_new:
  "announced_ok xs as \<Longrightarrow> announces x a \<Longrightarrow> announced_ok (xs @ [x]) (as @ [a])"
  by (auto simp: announced_ok_def)

text \<open>An event that neither requests nor assigns a ride.\<close>

lemma rides_ok_event:
  assumes "rides_ok db" "outbox_Add now topic key ev db = Inr db'" "topic \<noteq> ''ride.requested.v1''" "topic \<noteq> ''ride.assigned.v1''"
  shows "rides_ok db'"
  using assms by (auto simp: rides_ok_def outbox_Add_Inr requests_append announced_append seen_request_append processed_append
      intro!: ids_append simp: ev_id_def)

subsection \<open>Reserving a driver\<close>

lemma reserveDriver_cases:
  assumes "reserveDriver v ev r lat lon db = Inr (m, db')"
  obtains "m = False" "db' = db"
  | d a x where "m = True" "d \<in> set (t_avail db)" "av_free d" "as_ride a = r" "as_driver a = av_driver d" "\<not> assigned (t_assign db) r"
      "announces x a" "ev_id x \<notin> ev_id ` set (t_outbox db)"
      "db' = db\<lparr>t_avail := map (\<lambda>a. if av_driver a = av_driver d \<and> av_free a then a\<lparr>av_free := False, av_updated := hv_now v\<rparr> else a) (t_avail db),
         t_assign := t_assign db @ [a], t_pending := filter (\<lambda>p. pr_ride p \<noteq> r) (t_pending db), t_outbox := t_outbox db @ [x]\<rparr>"
proof (cases "free_drivers (hv_locked v) lat lon db")
  case Nil
  then show ?thesis using assms that(1) by (simp add: reserveDriver_def)
next
  case (Cons d ds)
  then have "d \<in> set (free_drivers (hv_locked v) lat lon db)" by simp
  then have d: "d \<in> set (t_avail db)" "av_free d" by (simp_all add: free_drivers_def)
  let ?a = "\<lparr>as_id = hv_assignment v, as_ride = r, as_driver = av_driver d, as_name = av_name d\<rparr>"
  let ?x = "\<lparr>oe_topic = ''ride.assigned.v1'', oe_key = r, oe_event = events_New (hv_event v) (hv_now v) ''ride.assigned'' ''dispatch-service'' (en_CorrelationID ev) (en_EventID ev)
       (RideAssigned r (hv_assignment v) (av_driver d) (av_name d)), oe_created = hv_now v, oe_published = False\<rparr>"
  have n: "\<not> assigned (t_assign db) r" "m = True" "hv_event v \<notin> ev_id ` set (t_outbox db)"
    using assms Cons by (auto simp: reserveDriver_def Let_def list_ex_iff assigned_def outbox_Add_Inr events_New_def split: if_splits sum.splits)
  have "db' = db\<lparr>t_avail := map (\<lambda>a. if av_driver a = av_driver d \<and> av_free a then a\<lparr>av_free := False, av_updated := hv_now v\<rparr> else a) (t_avail db),
         t_assign := t_assign db @ [?a], t_pending := filter (\<lambda>p. pr_ride p \<noteq> r) (t_pending db), t_outbox := t_outbox db @ [?x]\<rparr>"
    using assms Cons by (auto simp: reserveDriver_def Let_def outbox_Add_Inr split: if_splits sum.splits)
  then show ?thesis
    using that(2) [of d ?a ?x] d n by (simp add: announces_def ev_id_def events_New_def)
qed

lemma assign_new:
  assumes "assign_ok as vs" "d \<in> set vs" "av_free d" "as_driver a = av_driver d" "\<not> assigned as (as_ride a)"
  shows "assign_ok (as @ [a]) (map (\<lambda>v. if av_driver v = av_driver d \<and> av_free v then v\<lparr>av_free := False, av_updated := n\<rparr> else v) vs)"
  using assms by (auto simp: assign_ok_def assigned_def split: if_splits)

lemma queue_taken:
  assumes "queue_ok ps as seen" "waiting ps (as_ride a)"
  shows "queue_ok (filter (\<lambda>p. pr_ride p \<noteq> as_ride a) ps) (as @ [a]) seen"
proof -
  have "waiting (filter (\<lambda>p. pr_ride p \<noteq> as_ride a) ps) r \<longleftrightarrow> waiting ps r \<and> r \<noteq> as_ride a" for r
    by (auto simp: waiting_def)
  moreover have "assigned (as @ [a]) r \<longleftrightarrow> assigned as r \<or> r = as_ride a" for r by (auto simp: assigned_def)
  ultimately show ?thesis using assms unfolding queue_ok_def by blast
qed

lemma shown_more: "shown_ok rs ds as \<Longrightarrow> shown_ok rs ds (as @ [a])"
  unfolding shown_ok_def by fastforce

lemma reserve_ok:
  assumes "rides_ok db" "waiting (t_pending db) r" "reserveDriver v ev r lat lon db = Inr (m, db')"
  shows "rides_ok db'"
  using assms(3)
proof (cases rule: reserveDriver_cases)
  case 1
  then show ?thesis using assms(1) by simp
next
  case (2 d a x)
  have "oe_topic x \<noteq> ''ride.requested.v1''" using 2(7) by (simp add: announces_def)
  then show ?thesis
    using assms(1,2) 2 assign_new [of "t_assign db" "t_avail db" d a "hv_now v"] queue_taken [of "t_pending db" "t_assign db" _ a]
    by (simp add: rides_ok_def ids_append requests_append announced_new seen_request_append shown_more processed_append)
qed

subsection \<open>The handlers\<close>

definition marks :: "string \<Rightarrow> out_event \<Rightarrow> ride_db \<Rightarrow> ride_db" where
  "marks name x db = db\<lparr>t_processed := insert (name, ev_id x) (t_processed db)\<rparr>"

lemma seen_other: "name \<noteq> ''dispatch-service.requested-v1'' \<Longrightarrow> seen_request xs (insert (name, i) ps) = seen_request xs ps"
  by (auto simp: seen_request_def fun_eq_iff)

lemma marks_ok: "rides_ok db \<Longrightarrow> x \<in> set (t_outbox db) \<Longrightarrow> name \<noteq> ''dispatch-service.requested-v1'' \<Longrightarrow> rides_ok (marks name x db)"
  by (simp add: rides_ok_def marks_def seen_other processed_mark)

lemma seen_this:
  assumes "ids_ok xs" "x \<in> set xs" "requests x r"
  shows "seen_request xs (insert (''dispatch-service.requested-v1'', ev_id x) ps) q \<longleftrightarrow> seen_request xs ps q \<or> q = r"
proof -
  have "y = x" if "y \<in> set xs" "ev_id y = ev_id x" for y
    using assms(1,2) that by (auto simp: ids_ok_def distinct_map dest: inj_onD)
  moreover have "q = r" if "requests x q" using that assms(3) by (auto simp: requests_def)
  ultimately show ?thesis using assms(2,3) unfolding seen_request_def by blast
qed

lemma pend_ok:
  assumes "rides_ok db" "x \<in> set (t_outbox db)" "requests x r" "(''dispatch-service.requested-v1'', ev_id x) \<notin> t_processed db" "pr_ride p = r"
  shows "rides_ok (marks ''dispatch-service.requested-v1'' x db\<lparr>t_pending := t_pending db @ [p]\<rparr>)"
    and "\<not> waiting (t_pending db) r"
proof -
  have ns: "\<not> seen_request (t_outbox db) (t_processed db) r"
  proof
    assume "seen_request (t_outbox db) (t_processed db) r"
    then obtain y where "y \<in> set (t_outbox db)" "requests y r" "(''dispatch-service.requested-v1'', ev_id y) \<in> t_processed db"
      by (auto simp: seen_request_def)
    then have "y = x" using assms(1-3) unfolding rides_ok_def requests_ok_def by blast
    then show False using assms(4) \<open>(''dispatch-service.requested-v1'', ev_id y) \<in> t_processed db\<close> by simp
  qed
  have q: "queue_ok (t_pending db) (t_assign db) (seen_request (t_outbox db) (t_processed db))" and i: "ids_ok (t_outbox db)"
    using assms(1) by (simp_all add: rides_ok_def)
  show "\<not> waiting (t_pending db) r" using q ns unfolding queue_ok_def by blast
  have "waiting (t_pending db @ [p]) s \<longleftrightarrow> waiting (t_pending db) s \<or> s = r" for s using assms(5) by (auto simp: waiting_def)
  then have "queue_ok (t_pending db @ [p]) (t_assign db) (seen_request (t_outbox db) (insert (''dispatch-service.requested-v1'', ev_id x) (t_processed db)))"
    using q ns seen_this [OF i assms(2,3)] unfolding queue_ok_def by blast
  then show "rides_ok (marks ''dispatch-service.requested-v1'' x db\<lparr>t_pending := t_pending db @ [p]\<rparr>)"
    using assms(1,2) by (simp add: rides_ok_def marks_def processed_mark)
qed

lemma requested_ok:
  assumes "rides_ok db" "x \<in> set (t_outbox db)" "oe_topic x = ''ride.requested.v1''"
    "(''dispatch-service.requested-v1'', ev_id x) \<notin> t_processed db"
    "handleRideRequested v (oe_event x) (marks ''dispatch-service.requested-v1'' x db) = Inr db'"
  shows "rides_ok db'"
proof -
  obtain r where rq: "requests x r" using assms(1-3) unfolding rides_ok_def requests_ok_def by blast
  then obtain n la lo de where d: "en_Data (oe_event x) = RideRequested r n la lo de" by (auto simp: requests_def)
  let ?p = "\<lparr>pr_ride = r, pr_lat = la, pr_lon = lo, pr_requested = hv_now v\<rparr>"
  let ?db = "marks ''dispatch-service.requested-v1'' x db\<lparr>t_pending := t_pending db @ [?p]\<rparr>"
  have ok: "rides_ok ?db" and nw: "\<not> waiting (t_pending db) r" using pend_ok [OF assms(1,2) rq assms(4), of ?p] by simp_all
  have nl: "\<not> list_ex (\<lambda>p. pr_ride p = r) (t_pending (marks ''dispatch-service.requested-v1'' x db))"
    using nw by (auto simp: waiting_def list_ex_iff marks_def)
  have p: "t_pending (marks ''dispatch-service.requested-v1'' x db) = t_pending db" by (simp add: marks_def)
  obtain m db1 where res: "reserveDriver v (oe_event x) r la lo ?db = Inr (m, db1)"
    using assms(5) nl by (auto simp: handleRideRequested_def d p split: sum.splits)
  have ok1: "rides_ok db1" by (rule reserve_ok [OF ok _ res]) (simp add: waiting_def)
  show ?thesis
  proof (cases m)
    case True
    then show ?thesis using assms(5) nl res ok1 by (simp add: handleRideRequested_def d p)
  next
    case False
    then have "outbox_Add (hv_now v) ''ride.dispatch.deferred.v1'' r
        (events_New (hv_event v) (hv_now v) ''ride.dispatch.deferred'' ''dispatch-service'' (en_CorrelationID (oe_event x)) (en_EventID (oe_event x))
          (RideDispatchDeferred r ''no driver currently available'')) db1 = Inr db'"
      using assms(5) nl res by (simp add: handleRideRequested_def d p)
    then show ?thesis by (rule rides_ok_event [OF ok1]) simp_all
  qed
qed

lemma move_ok:
  "rides_ok db \<Longrightarrow> rides_ok (db\<lparr>t_avail := map (\<lambda>a. if av_driver a = d then a\<lparr>av_lat := lat, av_lon := lon, av_updated := n\<rparr> else a) (t_avail db)\<rparr>)"
  by (auto simp: rides_ok_def assign_ok_def split: if_splits)

lemma match_ok:
  assumes "rides_ok db" "matchOldestPending v ev db = Inr db'"
  shows "rides_ok db'"
proof (cases "sort_key pr_requested (filter (\<lambda>p. pr_ride p \<notin> hv_locked v) (t_pending db))")
  case Nil
  then show ?thesis using assms by (simp add: matchOldestPending_def)
next
  case (Cons p ps)
  then have "p \<in> set (sort_key pr_requested (filter (\<lambda>p. pr_ride p \<notin> hv_locked v) (t_pending db)))" by simp
  then have w: "waiting (t_pending db) (pr_ride p)" by (auto simp: waiting_def)
  obtain m where "reserveDriver v ev (pr_ride p) (pr_lat p) (pr_lon p) db = Inr (m, db')"
    using assms(2) Cons by (auto simp: matchOldestPending_def split: sum.splits)
  then show ?thesis by (rule reserve_ok [OF assms(1) w])
qed

lemma location_ok: "rides_ok db \<Longrightarrow> handleDriverLocation v ev db = Inr db' \<Longrightarrow> rides_ok db'"
  by (auto simp: handleDriverLocation_def split: ride_data.splits intro: match_ok [OF move_ok])

lemma status_ids: "rd_ID ` set (set_status i p s rs) = rd_ID ` set rs"
proof -
  have "map rd_ID (set_status i p s rs) = map rd_ID rs" by (simp add: set_status_def)
  then show ?thesis by (metis set_map)
qed

lemma requests_status: "requests_ok xs (set_status i p s rs) = requests_ok xs rs"
  by (simp add: requests_ok_def status_ids)

lemma shown_assigned:
  assumes "shown_ok rs ds as" "a \<in> set as" "as_ride a = i" "as_driver a = d"
  shows "shown_ok (set_status i p RAssigned rs) (AList.update i d ds) as"
  using assms by (auto simp: shown_ok_def set_status_def update_conv' split: if_splits)

lemma shown_searching:
  "shown_ok rs ds as \<Longrightarrow> shown_ok (set_status i (\<lambda>s. s = RRequested) RSearching rs) ds as"
  by (auto simp: shown_ok_def set_status_def split: if_splits)

lemma applyAssigned_ok:
  assumes "rides_ok db" "x \<in> set (t_outbox db)" "oe_topic x = ''ride.assigned.v1''" "applyAssigned v (oe_event x) db = Inr db'"
  shows "rides_ok db'"
proof -
  obtain a where a: "a \<in> set (t_assign db)" "announces x a" using assms(1-3) unfolding rides_ok_def announced_ok_def by blast
  let ?db = "db\<lparr>t_rides := set_status (as_ride a) (\<lambda>s. s \<noteq> RAssigned) RAssigned (t_rides db),
                t_ride_drivers := AList.update (as_ride a) (as_driver a) (t_ride_drivers db)\<rparr>"
  have ok: "rides_ok ?db"
    using assms(1) shown_assigned [OF _ a(1) refl refl] by (simp add: rides_ok_def requests_status)
  have d: "en_Data (oe_event x) = RideAssigned (as_ride a) (as_id a) (as_driver a) (as_name a)" using a(2) by (simp add: announces_def)
  show ?thesis
  proof (cases "list_ex (\<lambda>r. rd_ID r = as_ride a \<and> rd_Status r \<noteq> RAssigned) (t_rides db)")
    case True
    then show ?thesis using assms(4) rides_ok_event [OF ok] by (simp add: applyAssigned_def d)
  next
    case False
    then show ?thesis using assms(1,4) by (simp add: applyAssigned_def d)
  qed
qed

lemma applyDeferred_ok:
  assumes "rides_ok db" "applyDeferred v ev db = Inr db'"
  shows "rides_ok db'"
proof -
  have ok: "rides_ok (db\<lparr>t_rides := set_status i (\<lambda>s. s = RRequested) RSearching (t_rides db)\<rparr>)" for i
    using assms(1) by (simp add: rides_ok_def requests_status shown_searching)
  show ?thesis
    using assms by (auto simp: applyDeferred_def split: ride_data.splits if_splits dest!: rides_ok_event [OF ok])
qed

lemma activity_ok: "rides_ok db \<Longrightarrow> record_activity v ev db = Inr db' \<Longrightarrow> rides_ok db'"
  by (auto simp: record_activity_def rides_ok_def split: option.splits if_splits)

lemma handler_ok:
  assumes "rides_ok db" "(name, topic, h) \<in> set (consumers v)" "x \<in> set (t_outbox db)" "oe_topic x = topic"
    "(name, ev_id x) \<notin> t_processed db" "h (oe_event x) (marks name x db) = Inr db'"
  shows "rides_ok db'"
proof (cases "name = ''dispatch-service.requested-v1''")
  case True
  then have "h = handleRideRequested v" "topic = ''ride.requested.v1''" using assms(2) by (auto simp: consumers_def)
  then show ?thesis using requested_ok [of db x v db'] assms True by simp
next
  case False
  have ok: "rides_ok (marks name x db)" by (rule marks_ok [OF assms(1,3) False])
  have x: "x \<in> set (t_outbox (marks name x db))" using assms(3) by (simp add: marks_def)
  consider "h = handleDriverLocation v" | "h = applyAssigned v" "topic = ''ride.assigned.v1''" | "h = applyDeferred v" | "h = record_activity v"
    using assms(2) False by (auto simp: consumers_def)
  then show ?thesis
    using location_ok [OF ok] applyAssigned_ok [OF ok x] applyDeferred_ok [OF ok] activity_ok [OF ok] assms(4,6) by cases auto
qed

lemma deliver_ok:
  assumes "rides_ok db" "(name, topic, h) \<in> set (consumers v)" "x \<in> set (t_outbox db)" "oe_topic x = topic"
  shows "rides_ok (snd (consumer_process fault name h (oe_event x) db))"
proof (cases "fault \<or> (name, ev_id x) \<in> t_processed db")
  case True
  then show ?thesis using assms(1) by (auto simp: consumer_process_def InTx_def ev_id_def)
next
  case False
  then show ?thesis using assms(1) handler_ok [OF assms]
    by (auto simp: consumer_process_def InTx_def ev_id_def marks_def split: sum.splits)
qed

subsection \<open>Requests and the relay\<close>

lemma requests_new:
  assumes "requests_ok xs rs" "rd_ID new \<notin> rd_ID ` set rs" "requests x (rd_ID new)"
  shows "requests_ok (xs @ [x]) (rs @ [new])"
proof -
  have old: "\<not> requests y (rd_ID new)" if y: "y \<in> set xs" for y
  proof
    assume q: "requests y (rd_ID new)"
    then obtain r where "r \<in> rd_ID ` set rs" "requests y r" using assms(1) y unfolding requests_ok_def requests_def by blast
    moreover have "r = rd_ID new" using q \<open>requests y r\<close> by (auto simp: requests_def)
    ultimately show False using assms(2) by simp
  qed
  have one: "r = rd_ID new" if "requests x r" for r using that assms(3) by (auto simp: requests_def)
  have "\<exists>r \<in> rd_ID ` set (rs @ [new]). requests y r" if "y \<in> set (xs @ [x])" "oe_topic y = ''ride.requested.v1''" for y
    using that assms(1,3) unfolding requests_ok_def by auto
  moreover have "y = z" if "y \<in> set (xs @ [x])" "z \<in> set (xs @ [x])" "requests y r" "requests z r" for y z r
  proof (cases "y = x \<or> z = x")
    case True
    then have "r = rd_ID new" using one that(3,4) by blast
    then show ?thesis using old that by auto
  next
    case False
    then show ?thesis using assms(1) that unfolding requests_ok_def by auto
  qed
  ultimately show ?thesis unfolding requests_ok_def by blast
qed

lemma shown_new: "shown_ok rs ds as \<Longrightarrow> rd_Status new = RRequested \<Longrightarrow> shown_ok (rs @ [new]) ds as"
  by (auto simp: shown_ok_def)

lemma seen_new:
  assumes "processed_ok xs ps" "ev_id x \<notin> ev_id ` set xs"
  shows "seen_request (xs @ [x]) ps = seen_request xs ps"
proof -
  have "(n, ev_id x) \<notin> ps" for n
  proof
    assume "(n, ev_id x) \<in> ps"
    then have "ev_id x \<in> snd ` ps" by (metis image_eqI snd_conv)
    then show False using assms unfolding processed_ok_def by blast
  qed
  then show ?thesis by (simp add: seen_request_def fun_eq_iff)
qed

lemma request_new_ok:
  assumes "rides_ok db" "rd_ID new \<notin> rd_ID ` set (t_rides db)" "rd_Status new = RRequested" "requests x (rd_ID new)"
    "ev_id x \<notin> ev_id ` set (t_outbox db)"
  shows "rides_ok (db\<lparr>t_rides := t_rides db @ [new], t_outbox := t_outbox db @ [x]\<rparr>)"
proof -
  have tp: "oe_topic x \<noteq> ''ride.assigned.v1''" using assms(4) by (simp add: requests_def)
  have p: "processed_ok (t_outbox db) (t_processed db)" using assms(1) by (simp add: rides_ok_def)
  show ?thesis
    using assms(1) ids_append [OF _ assms(5)] requests_new [OF _ assms(2,4)] announced_append [OF _ tp] seen_new [OF p assms(5)]
      shown_new [OF _ assms(3)] processed_append
    by (simp add: rides_ok_def)
qed

lemma create_cases:
  obtains "snd (ride_Create fault now rideID corr eventID c db) = db"
  | new x where "rd_ID new \<notin> rd_ID ` set (t_rides db)" "rd_Status new = RRequested" "requests x (rd_ID new)"
      "ev_id x \<notin> ev_id ` set (t_outbox db)"
      "snd (ride_Create fault now rideID corr eventID c db) = db\<lparr>t_rides := t_rides db @ [new], t_outbox := t_outbox db @ [x]\<rparr>"
proof -
  let ?c = "c\<lparr>cm_RiderName := TrimSpace (cm_RiderName c), cm_Destination := TrimSpace (cm_Destination c)\<rparr>"
  let ?new = "\<lparr>rd_ID = rideID, rd_RiderName = cm_RiderName ?c, rd_Lat = cm_Lat ?c, rd_Lon = cm_Lon ?c,
               rd_Destination = cm_Destination ?c, rd_Status = RRequested, rd_Correlation = corr\<rparr>"
  let ?ev = "events_New eventID now ''ride.requested'' ''ride-api'' corr []
               (RideRequested rideID (cm_RiderName ?c) (cm_Lat ?c) (cm_Lon ?c) (cm_Destination ?c))"
  let ?add = "outbox_Add now ''ride.requested.v1'' rideID ?ev (db\<lparr>t_rides := t_rides db @ [?new]\<rparr>)"
  show thesis
  proof (cases "validate_ride ?c = None \<and> \<not> fault \<and> \<not> list_ex (\<lambda>r. rd_ID r = rideID) (t_rides db) \<and> (\<exists>db'. ?add = Inr db')")
    case True
    then obtain db' where a: "?add = Inr db'" by blast
    have s: "snd (ride_Create fault now rideID corr eventID c db) = db'"
      using True a by (simp add: ride_Create_def Let_def InTx_def)
    have n: "rideID \<notin> rd_ID ` set (t_rides db)" using True by (auto simp: list_ex_iff)
    show thesis
      by (rule that(2) [of ?new "\<lparr>oe_topic = ''ride.requested.v1'', oe_key = rideID, oe_event = ?ev, oe_created = now, oe_published = False\<rparr>"])
        (use a s n in \<open>simp_all add: outbox_Add_Inr requests_def ev_id_def events_New_def\<close>)
  next
    case False
    then have "snd (ride_Create fault now rideID corr eventID c db) = db"
      by (auto simp: ride_Create_def Let_def InTx_def split: option.split sum.split)
    then show thesis by (rule that(1))
  qed
qed

lemma ride_create_ok:
  assumes "rides_ok db"
  shows "rides_ok (snd (ride_Create fault now rideID corr eventID c db))"
proof (cases rule: create_cases [of fault now rideID corr eventID c db])
  case 1
  then show ?thesis using assms by simp
next
  case (2 new x)
  then show ?thesis using request_new_ok [OF assms 2(1-4)] by simp
qed

lemma record_location_ok:
  assumes "rides_ok db"
  shows "rides_ok (snd (recordLocation fault now eventID d lat lon db))"
proof -
  have ok: "rides_ok (db\<lparr>t_drivers := ds\<rparr>)" for ds using assms by (simp add: rides_ok_def)
  show ?thesis using assms
    by (auto simp: recordLocation_def InTx_def split: sum.splits if_splits dest!: rides_ok_event [OF ok])
qed

lemma relay_ok:
  assumes "rides_ok db" "\<And>x. \<exists>b. f x = x\<lparr>oe_published := b\<rparr>"
  shows "rides_ok (db\<lparr>t_outbox := map f (t_outbox db)\<rparr>)"
proof -
  have f: "ev_id (f x) = ev_id x" "requests (f x) = requests x" "announces (f x) = announces x" "oe_topic (f x) = oe_topic x" for x
    using assms(2) [of x] by (auto simp: ev_id_def requests_def announces_def fun_eq_iff)
  have "ids_ok (map f (t_outbox db))" using assms(1) by (simp add: rides_ok_def ids_ok_def comp_def f)
  moreover have "requests_ok (map f (t_outbox db)) (t_rides db)"
  proof -
    have "f x = f y" if "x \<in> set (t_outbox db)" "y \<in> set (t_outbox db)" "requests x r" "requests y r" for x y r
      using assms(1) that unfolding rides_ok_def requests_ok_def by blast
    then show ?thesis using assms(1) by (simp add: rides_ok_def requests_ok_def f) blast
  qed
  moreover have "announced_ok (map f (t_outbox db)) (t_assign db)" using assms(1) by (simp add: rides_ok_def announced_ok_def f)
  moreover have "seen_request (map f (t_outbox db)) ps = seen_request (t_outbox db) ps" for ps by (simp add: seen_request_def f fun_eq_iff)
  moreover have "processed_ok (map f (t_outbox db)) (t_processed db)" using assms(1) by (simp add: rides_ok_def processed_ok_def image_image f)
  ultimately show ?thesis using assms(1) by (simp add: rides_ok_def)
qed

lemma rides_step_ok: "rides_step db db' \<Longrightarrow> rides_ok db \<Longrightarrow> rides_ok db'"
proof (induction rule: rides_step.induct)
  case (r_publish db sent committed locked)
  have "rides_ok (db\<lparr>t_outbox := map (\<lambda>x. if x \<in> set (publish_batch locked db) then x\<lparr>oe_published := True\<rparr> else x) (t_outbox db)\<rparr>)"
    by (rule relay_ok [OF r_publish]) (metis out_event.surjective out_event.update_convs(5))
  then show ?case using r_publish by (auto simp: publishBatch_def Let_def split: prod.splits)
qed (auto intro: ride_create_ok record_location_ok deliver_ok)

lemma rides_run_ok: "rides_step\<^sup>*\<^sup>* db db' \<Longrightarrow> rides_ok db \<Longrightarrow> rides_ok db'"
  by (induction rule: rtranclp_induct) (auto intro: rides_step_ok)

definition rides_init :: "availability list \<Rightarrow> (string \<times> rat \<times> rat) list \<Rightarrow> ride_db" where
  "rides_init vs ds = \<lparr>t_rides = [], t_ride_drivers = [], t_drivers = ds, t_avail = vs, t_pending = [], t_assign = [],
                       t_outbox = [], t_processed = {}, t_activity = []\<rparr>"

lemma rides_init_ok: "rides_ok (rides_init vs ds)"
  by (simp add: rides_init_def rides_ok_def ids_ok_def requests_ok_def announced_ok_def assign_ok_def queue_ok_def
      waiting_def assigned_def seen_request_def shown_ok_def processed_ok_def)

section \<open>Properties\<close>

text \<open>C40. Whatever order events are delivered in, how often, and which rows other sessions have locked: no
  driver gets two rides and no ride two drivers, an assigned driver is never offered again, a requested
  ride that dispatch has accepted is waiting or assigned and not both, every assignment is announced,
  and a ride that is shown as assigned shows the driver it was assigned.\<close>

theorem driver_assigned_once:
  assumes "rides_step\<^sup>*\<^sup>* (rides_init vs ds) db"
  shows "(a \<in> set (t_assign db) \<and> b \<in> set (t_assign db) \<and> (as_driver a = as_driver b \<or> as_ride a = as_ride b) \<longrightarrow> a = b) \<and>
    (a \<in> set (t_assign db) \<longrightarrow>
       (\<forall>v \<in> set (t_avail db). av_driver v = as_driver a \<longrightarrow> \<not> av_free v) \<and> (\<exists>x \<in> set (t_outbox db). announces x a)) \<and>
    (seen_request (t_outbox db) (t_processed db) r \<longleftrightarrow> (waiting (t_pending db) r \<noteq> assigned (t_assign db) r)) \<and>
    (y \<in> set (t_rides db) \<and> rd_Status y = RAssigned \<longrightarrow>
       (\<exists>a \<in> set (t_assign db). as_ride a = rd_ID y \<and> map_of (t_ride_drivers db) (rd_ID y) = Some (as_driver a)))"
proof -
  have ok: "rides_ok db" using rides_run_ok [OF assms rides_init_ok] .
  have one: "a = b" if "a \<in> set (t_assign db)" "b \<in> set (t_assign db)" "as_driver a = as_driver b \<or> as_ride a = as_ride b"
    using ok that by (auto simp: rides_ok_def assign_ok_def distinct_map dest: inj_onD)
  have busy: "(\<forall>v \<in> set (t_avail db). av_driver v = as_driver a \<longrightarrow> \<not> av_free v) \<and> (\<exists>x \<in> set (t_outbox db). announces x a)"
    if "a \<in> set (t_assign db)" using ok that unfolding rides_ok_def assign_ok_def announced_ok_def by blast
  have q: "seen_request (t_outbox db) (t_processed db) r \<longleftrightarrow> (waiting (t_pending db) r \<noteq> assigned (t_assign db) r)"
    using ok unfolding rides_ok_def queue_ok_def by blast
  have "\<exists>a \<in> set (t_assign db). as_ride a = rd_ID y \<and> map_of (t_ride_drivers db) (rd_ID y) = Some (as_driver a)"
    if y: "y \<in> set (t_rides db)" "rd_Status y = RAssigned"
  proof -
    have s: "shown_ok (t_rides db) (t_ride_drivers db) (t_assign db)" using ok by (simp add: rides_ok_def)
    then obtain d where "map_of (t_ride_drivers db) (rd_ID y) = Some d" using y unfolding shown_ok_def by blast
    then show ?thesis using s unfolding shown_ok_def by blast
  qed
  then show ?thesis using one busy q by blast
qed

definition demo_env :: handler_env where
  "demo_env = \<lparr>hv_now = 2, hv_event = ''e2'', hv_assignment = ''a1'', hv_locked = {}\<rparr>"

definition demo_fleet :: "availability list" where
  "demo_fleet = [\<lparr>av_driver = ''d1'', av_name = ''n'', av_lat = 0, av_lon = 0, av_free = True, av_updated = 0\<rparr>]"

definition demo_requested :: ride_db where
  "demo_requested = snd (ride_Create False 1 ''r1'' ''c1'' ''e1'' \<lparr>cm_RiderName = ''x'', cm_Lat = 1, cm_Lon = 1, cm_Destination = ''y''\<rparr> (rides_init demo_fleet []))"

definition demo_assigned :: ride_db where
  "demo_assigned = snd (consumer_process False ''dispatch-service.requested-v1'' (handleRideRequested demo_env)
     (oe_event (hd (t_outbox demo_requested))) demo_requested)"

lemma demo_requested_outbox:
  "t_outbox demo_requested = [\<lparr>oe_topic = ''ride.requested.v1'', oe_key = ''r1'',
     oe_event = events_New ''e1'' 1 ''ride.requested'' ''ride-api'' ''c1'' [] (RideRequested ''r1'' ''x'' 1 1 ''y''),
     oe_created = 1, oe_published = False\<rparr>]"
  "t_assign demo_requested = []" "t_pending demo_requested = []" "t_avail demo_requested = demo_fleet" "t_processed demo_requested = {}"
  by (simp_all add: demo_requested_def ride_Create_def InTx_def outbox_Add_def validate_ride_def TrimSpace_def is_space_def Let_def rides_init_def)

lemma demo_assigned_run: "rides_step\<^sup>*\<^sup>* (rides_init demo_fleet []) demo_assigned"
proof -
  have "rides_step (rides_init demo_fleet []) demo_requested" unfolding demo_requested_def by (rule rides_step.r_create)
  moreover have "rides_step demo_requested demo_assigned" unfolding demo_assigned_def
    by (rule rides_step.r_deliver [of _ "''ride.requested.v1''" _ demo_env]) (simp_all add: consumers_def demo_requested_outbox)
  ultimately show ?thesis by (meson converse_rtranclp_into_rtranclp rtranclp.rtrancl_refl)
qed

lemma demo_assigned_rides: "map as_driver (t_assign demo_assigned) = [''d1'']" "map as_ride (t_assign demo_assigned) = [''r1'']"
  by (simp_all add: demo_assigned_def demo_requested_outbox consumer_process_def InTx_def handleRideRequested_def events_New_def reserveDriver_def
      free_drivers_def demo_fleet_def demo_env_def outbox_Add_def Let_def)

theorem driver_assigned_once_witness:
  "map as_driver (t_assign demo_assigned) = [''d1''] \<and> (\<forall>v. \<not> (v \<in> set (t_avail demo_assigned) \<and> av_driver v = ''d1'' \<and> av_free v))"
proof -
  obtain a where "a \<in> set (t_assign demo_assigned)" "as_driver a = ''d1''"
    using demo_assigned_rides(1) by (cases "t_assign demo_assigned") auto
  then show ?thesis using driver_assigned_once [OF demo_assigned_run, of a] demo_assigned_rides(1) by auto
qed

text \<open>A redelivered event changes nothing.\<close>

theorem redelivery_ignored:
  assumes "consumer_process False name h ev db = (None, db')" "\<And>d d'. h ev d = Inr d' \<Longrightarrow> t_processed d' = t_processed d"
  shows "snd (consumer_process fault name h' ev db') = db'"
  using assms by (auto simp: consumer_process_def InTx_def split: if_splits sum.splits)

text \<open>The relay marks an event as published only after Kafka has acknowledged it.\<close>

lemma publish_loop_all: "publish_loop sent xs acc = (msgs, True) \<Longrightarrow> msgs = acc @ map oe_event xs"
  by (induction xs arbitrary: acc) (fastforce split: if_splits)+

theorem published_was_sent:
  assumes "publishBatch sent committed locked db = (msgs, db')" "distinct (map ev_id (t_outbox db))"
    "x \<in> set (t_outbox db')" "oe_published x" "x \<notin> set (t_outbox db)"
  shows "oe_event x \<in> set msgs"
proof -
  obtain ok where l: "publish_loop sent (publish_batch locked db) [] = (msgs, ok)"
    using assms(1) by (auto simp: publishBatch_def Let_def split: prod.splits)
  have "ok" using assms(1,3,5) l by (auto simp: publishBatch_def split: if_splits)
  then have m: "msgs = map oe_event (publish_batch locked db)" using publish_loop_all [of sent "publish_batch locked db" "[]" msgs] l by simp
  obtain y where "y \<in> set (publish_batch locked db)" "x = y\<lparr>oe_published := True\<rparr>"
    using assms(1,3,5) l by (auto simp: publishBatch_def split: if_splits)
  then show ?thesis using m by auto
qed

section \<open>Where the code falls short\<close>

text \<open>An event whose processing failed is passed over: the next turn fetches the message after it, and
  when that one succeeds its commit covers both, so no reader of the group sees the event again.\<close>

theorem failed_event_skipped:
  assumes "Suc (re_next re) < length part" "part ! re_next re = Some ev" "part ! Suc (re_next re) = Some ev'"
    "valid_envelope ev" "valid_envelope ev'" "proc ev s = (Some err, s)" "proc ev' s = (None, s')"
  shows "\<exists>re'. Option.bind (consumer_turn proc part (re, s)) (consumer_turn proc part) = Some (re', s') \<and>
    re_next (reader_restart re') = re_next re + 2"
  using assms by (simp add: consumer_turn_def Let_def reader_restart_def)

text \<open>A ride that was searching is announced as having been requested.\<close>

theorem previous_status_wrong:
  assumes "applyAssigned v ev db = Inr db'" "en_Data ev = RideAssigned i a d n"
    "y \<in> set (t_rides db)" "rd_ID y = i" "rd_Status y = RSearching"
  shows "\<exists>x \<in> set (t_outbox db'). en_Data (oe_event x) = RideStatusChanged i ''REQUESTED'' ''DRIVER_ASSIGNED'' d"
proof -
  have "list_ex (\<lambda>r. rd_ID r = i \<and> rd_Status r \<noteq> RAssigned) (t_rides db)" using assms(3-5) by (force simp: list_ex_iff)
  then show ?thesis using assms(1,2) by (auto simp: applyAssigned_def outbox_Add_Inr status_event_def events_New_def status_name_def)
qed

end
