(* ===== verification/Spec2Isabelle.thy ===== *)
theory Spec2Isabelle
  imports Transfer_Locks Payment Ledger_Services Replication Raft Gateway Metering Livescale_Api Orders Booking Tenancy Visit_Queue Rides
begin

text \<open>
  A verification library of the Go services of the repository. Every theory models packages under
  \<open>src/\<close>: a struct is a record, an enumeration a datatype, an operation a function that returns its
  result and the new state, an error a value. This theory only brings the others together.

  \<^bold>\<open>Conventions.\<close> \<open>int64\<close> and \<open>uint64\<close> are 64-bit words where the code can overflow, and integers where
  it cannot or where the theory says so. Instants and durations are nanoseconds. Floating point is
  exact (rationals or reals). A Go map is a partial map, or an association list where the code ranges
  over it; the order of a range loop is an argument. The clock, random numbers, hashes, MACs, JSON,
  gateways and failures of a database are arguments, so that a theorem holds for all of them, with what
  the code relies on as hypotheses. A database transaction or a Redis script is one atomic step; what
  runs between such steps interleaves in an inductive step relation.

  \<^bold>\<open>Shared.\<close> \<open>Go_Prelude\<close> has integers, maps, sharding, decimal numbers and strings; \<open>Encoding\<close> base64
  and hex with their round trips; \<open>Http\<close> requests, headers and responses; \<open>Configs\<close> the environment of
  all services and the ranges their settings keep.

  \<^bold>\<open>\<open>fintech-ledger-go\<close>.\<close> \<open>Ledger\<close>: amounts, accounts, \<open>Transfer\<close>, wallet cache. \<open>Transfer_Locks\<close>: any
  number of concurrent transfers at the granularity of lock operations; none deadlocks and money is
  conserved. \<open>Payment\<close>: the idempotency store (locale \<open>idempotency_store\<close>), debits executed once per key,
  and the withdrawal saga with its compensations. \<open>Ledger_Services\<close>: retries, shards with one owner per
  account, the reconciliation pool.

  \<^bold>\<open>\<open>distributed-primitives-go\<close>.\<close> \<open>Clocks\<close> (locale \<open>logical_clock\<close>): the three clocks respect causality, and
  vector clocks decide it. \<open>Replication\<close> (locale \<open>state_crdt\<close>): replicas converge, no increment is lost.
  \<open>Raft\<close>: one writer at a time.

  \<^bold>\<open>\<open>fintech-gateway-go\<close>.\<close> \<open>Breaker\<close> refines an abstract breaker; \<open>Balancer\<close> (locale \<open>picker\<close>) picks healthy
  backends and keeps keys in place; \<open>Lru_Cache\<close> refines a recency list and loads once; \<open>Limiter\<close> bounds
  what a window grants; \<open>Edge\<close> has tokens, request shapes, buffers and the recorder; \<open>Gateway\<close> composes
  all of them into the request pipeline, with the order of its guards and the outcome of a fetch.

  \<^bold>\<open>\<open>subscription-core\<close>.\<close> \<open>Subscription\<close> (locale \<open>sub_store\<close>, for memory and Postgres): webhooks are decided
  once and move forward only, entitlements follow the store, reconciliation repairs. \<open>Metering\<close> (locale
  \<open>ledger_sink\<close>): usage is billed once.

  \<^bold>\<open>\<open>livescale-control-plane\<close>.\<close> \<open>Livescale\<close>: tokens, device limit, sessions, estimator. \<open>Livescale_Api\<close>: handlers,
  admission and sweeper on top of it.

  \<^bold>\<open>\<open>microservice\<close>.\<close> \<open>Orders\<close>: the order saga with its outbox, leases and dispatchers under every interleaving.

  \<^bold>\<open>\<open>cricket-stadium-booking\<close>.\<close> \<open>Seat_Store\<close>: holds and confirmations over the tables and their constraints; a
  seat is sold once and a retried hold is replayed. \<open>Booking\<close>: retries, seat cache, handlers, limiter and
  worker above it. The other operations of its store are not in the tree and are arguments.

  \<^bold>\<open>\<open>secure-multitenant-go\<close>.\<close> \<open>Tenancy\<close>: roles, tenant scoping, encryption and the handler. The locale
  \<open>tenant_reads\<close> holds for both repositories, its extension \<open>tenant_repo\<close> for Postgres only.

  \<^bold>\<open>\<open>ttd\<close>.\<close> \<open>Visit_Queue\<close>: holds in Redis with expiry, recovery and crashes; a slot is never overbooked.
  Commands of the Redis protocol are read back as they were sent.

  \<^bold>\<open>\<open>kafkaeda\<close>.\<close> \<open>Rides\<close>: outbox, deduplicating consumers, dispatch and projections under every order and
  repetition of deliveries; no driver is assigned twice.

  \<^bold>\<open>Fuel.\<close> Only the reader of Redis replies takes fuel, because replies nest; for a command, two more than
  the number of its arguments is shown to be enough. Retry loops recurse on the attempts that remain.

  \<^bold>\<open>Where the code falls short\<close> of a comment or of its purpose, a lemma beside the model shows it on the
  definitions: for instance a consumer that passes over a failed event, a stop request that ends the
  session of another account, or a tenant that takes over a record in the repository in memory.

  \<^bold>\<open>Not modelled.\<close> Start-up, flags, sockets, log lines, pages, metrics and tracing, which are library
  calls; the network and the engines of Postgres, Redis and Kafka beyond the statements above; a commit
  whose acknowledgement is lost. Path cleaning of routers and non-ASCII white space are left out. Not
  covered yet, though nothing prevents it: the search, herd guard and social parts of \<open>railcache\<close>, the
  services of \<open>instascale-observability\<close>, the registry of \<open>golangdebugging\<close>, and the TypeScript services
  \<open>food-delivery-eda\<close> and \<open>food-delivery-kafka\<close>.
\<close>

end
